(* ===== verification/Prelude.thy ===== *)
theory Prelude
  imports Complex_Main "HOL-Library.Word" "HOL-Library.Log_Nat" "HOL-Library.Monad_Syntax"
begin

text \<open>
  What every component of the development shares: the names of the collections of rewrite
  rules, the outcome of a JavaScript computation (a value or a thrown error), byte buffers with
  little-endian access, and generic lemmas on lists, options and powers of two.
\<close>

named_theorems js_num \<open>exactness of JavaScript number operations on small integers\<close>
named_theorems wire \<open>layout of the binary message format\<close>
named_theorems wf_intros \<open>preservation of the invariants of the components\<close>

subsection \<open>Thrown errors\<close>

text \<open>
  A JavaScript function returns a value or throws. The built-in error classes the modelled code
  can raise are the values of \<open>js_error\<close>; \<open>Inl\<close> is a throw, \<open>Inr\<close> a return.
\<close>

datatype js_error =
    TypeError      \<comment> \<open>a property of \<open>undefined\<close> or a call of a non-function\<close>
  | RangeError     \<comment> \<open>a view or an index outside of its buffer\<close>
  | URIError       \<comment> \<open>a malformed percent escape\<close>
  | SyntaxError    \<comment> \<open>text that is not JSON\<close>
  | InvalidState   \<comment> \<open>\<open>WebSocket.send\<close> while the socket is still connecting\<close>

type_synonym 'a js = "js_error + 'a"

definition js_bind :: "'a js \<Rightarrow> ('a \<Rightarrow> 'b js) \<Rightarrow> 'b js" where
  "js_bind r f = (case r of Inl e \<Rightarrow> Inl e | Inr x \<Rightarrow> f x)"

lemma js_bind_simps [simp]:
  "js_bind (Inl e) f = Inl e"
  "js_bind (Inr x) f = f x"
  by (simp_all add: js_bind_def)

lemma js_bind_eq_Inr: "js_bind r f = Inr y \<longleftrightarrow> (\<exists>x. r = Inr x \<and> f x = Inr y)"
  by (cases r) auto

lemma js_bind_eq_Inl: "js_bind r f = Inl e \<longleftrightarrow> r = Inl e \<or> (\<exists>x. r = Inr x \<and> f x = Inl e)"
  by (cases r) auto

text \<open>Mapping a fallible function over an array: the first throw ends the loop.\<close>

fun js_mapM :: "('a \<Rightarrow> 'b js) \<Rightarrow> 'a list \<Rightarrow> 'b list js" where
  "js_mapM f [] = Inr []"
| "js_mapM f (x # xs) = js_bind (f x) (\<lambda>y. js_bind (js_mapM f xs) (\<lambda>ys. Inr (y # ys)))"

lemma js_mapM_Inr: "(\<And>x. x \<in> set xs \<Longrightarrow> f x = Inr (g x)) \<Longrightarrow> js_mapM f xs = Inr (map g xs)"
  by (induction xs) auto

subsection \<open>Byte buffers\<close>

type_synonym byte = "8 word"

text \<open>\<open>le_bytes n v\<close> are the \<open>n\<close> low bytes of \<open>v\<close>, least significant byte first; \<open>le_val\<close> reads
  them back.\<close>

fun le_bytes :: "nat \<Rightarrow> nat \<Rightarrow> byte list" where
  "le_bytes 0 v = []"
| "le_bytes (Suc n) v = word_of_nat (v mod 256) # le_bytes n (v div 256)"

fun le_val :: "byte list \<Rightarrow> nat" where
  "le_val [] = 0"
| "le_val (b # bs) = unat b + 256 * le_val bs"

lemma length_le_bytes [simp]: "length (le_bytes n v) = n"
  by (induction n arbitrary: v) auto

lemma unat_byte_less: "unat (b :: byte) < 256"
proof -
  have "unat b < 2 ^ LENGTH(8)" by (rule unsigned_less)
  then show ?thesis by simp
qed

lemma unat_byte_of_nat [simp]: "unat (word_of_nat (v mod 256) :: byte) = v mod 256"
  by (simp add: unat_of_nat)

lemma le_val_le_bytes: "le_val (le_bytes n v) = v mod 256 ^ n"
  by (induction n arbitrary: v) (auto simp: mod_mult2_eq)

lemma le_val_le_bytes_id: "v < 256 ^ n \<Longrightarrow> le_val (le_bytes n v) = v"
  by (simp add: le_val_le_bytes)

lemma le_val_bound: "le_val bs < 256 ^ length bs"
proof (induction bs)
  case (Cons b bs)
  have "unat b < 256" by (rule unat_byte_less)
  with Cons show ?case by (auto simp: algebra_simps)
qed simp

lemma le_bytes_le_val: "le_bytes (length bs) (le_val bs) = bs"
proof (induction bs)
  case (Cons b bs)
  have b: "unat b < 256" by (rule unat_byte_less)
  then have "(unat b + 256 * le_val bs) mod 256 = unat b"
    by (metis add.commute mod_less mod_mult_self2)
  moreover have "(unat b + 256 * le_val bs) div 256 = le_val bs"
    using b by (simp add: div_mult_self2)
  ultimately show ?case using Cons by simp
qed simp

text \<open>Reading \<open>n\<close> bytes at an offset of a buffer, as \<open>DataView.getUint\<close> does: a read past the end
  throws.\<close>

definition get_le :: "nat \<Rightarrow> byte list \<Rightarrow> nat \<Rightarrow> nat js" where
  "get_le n buf off =
     (if off + n \<le> length buf then Inr (le_val (take n (drop off buf))) else Inl RangeError)"

text \<open>Writing \<open>n\<close> bytes at an offset, as \<open>DataView.setUint\<close> does.\<close>

definition set_le :: "nat \<Rightarrow> nat \<Rightarrow> nat \<Rightarrow> byte list \<Rightarrow> byte list js" where
  "set_le n off v buf =
     (if off + n \<le> length buf then Inr (take off buf @ le_bytes n v @ drop (off + n) buf)
      else Inl RangeError)"

lemma length_set_le: "set_le n off v buf = Inr buf' \<Longrightarrow> length buf' = length buf"
  by (auto simp: set_le_def split: if_splits)

lemma get_le_append: "off + n \<le> length a \<Longrightarrow> get_le n (a @ b) off = get_le n a off"
  by (simp add: get_le_def)

subsection \<open>Lists\<close>

lemma take_drop_append_exact: "length a = n \<Longrightarrow> take n (drop 0 (a @ b)) = a"
  by simp

lemma list_all_nth_update:
  "list_all P xs \<Longrightarrow> P v \<Longrightarrow> list_all P (xs[i := v])"
  using set_update_subset_insert [of xs i v] by (auto simp: list_all_iff)

lemma sorted_dropWhile: "sorted xs \<Longrightarrow> sorted (dropWhile P xs)"
  by (metis sorted_append takeWhile_dropWhile_id)

subsection \<open>Computations with state\<close>

text \<open>A handler that reads and changes a state and may throw; what was changed before a throw stays
  changed. \<open>sx_keeps I m\<close> says that \<open>m\<close> keeps the invariant \<open>I\<close>, whether it returns or throws.\<close>

type_synonym ('s, 'a) sx = "'s \<Rightarrow> 'a js \<times> 's"

definition sx_return :: "'a \<Rightarrow> ('s, 'a) sx" where
  "sx_return x s = (Inr x, s)"

definition sx_throw :: "js_error \<Rightarrow> ('s, 'a) sx" where
  "sx_throw e s = (Inl e, s)"

definition sx_bind :: "('s, 'a) sx \<Rightarrow> ('a \<Rightarrow> ('s, 'b) sx) \<Rightarrow> ('s, 'b) sx" where
  "sx_bind m f s = (case m s of (Inl e, s') \<Rightarrow> (Inl e, s') | (Inr x, s') \<Rightarrow> f x s')"

definition sx_get :: "('s \<Rightarrow> 'a) \<Rightarrow> ('s, 'a) sx" where
  "sx_get f s = (Inr (f s), s)"

definition sx_mod :: "('s \<Rightarrow> 's) \<Rightarrow> ('s, unit) sx" where
  "sx_mod f s = (Inr (), f s)"

definition sx_when :: "bool \<Rightarrow> ('s, unit) sx \<Rightarrow> ('s, unit) sx" where
  "sx_when b m = (if b then m else sx_return ())"

definition sx_seq :: "('s, 'a) sx \<Rightarrow> ('s, 'b) sx \<Rightarrow> ('s, 'b) sx" where
  "sx_seq m n = sx_bind m (\<lambda>_. n)"

fun sx_each :: "('a \<Rightarrow> ('s, unit) sx) \<Rightarrow> 'a list \<Rightarrow> ('s, unit) sx" where
  "sx_each f [] = sx_return ()"
| "sx_each f (x # xs) = sx_seq (f x) (sx_each f xs)"

definition sx_keeps :: "('s \<Rightarrow> bool) \<Rightarrow> ('s, 'a) sx \<Rightarrow> bool" where
  "sx_keeps I m \<longleftrightarrow> (\<forall>s. I s \<longrightarrow> I (snd (m s)))"

lemma sx_simps [simp]:
  "sx_return x s = (Inr x, s)"
  "sx_throw e s = (Inl e, s)"
  "sx_get f s = (Inr (f s), s)"
  "sx_mod g s = (Inr (), g s)"
  by (simp_all add: sx_return_def sx_throw_def sx_get_def sx_mod_def)

lemma sx_bind_run [simp]:
  "m s = (Inl e, s') \<Longrightarrow> sx_bind m f s = (Inl e, s')"
  "m s = (Inr x, s') \<Longrightarrow> sx_bind m f s = f x s'"
  by (simp_all add: sx_bind_def)

lemma sx_seq_run [simp]:
  "m s = (Inl e, s') \<Longrightarrow> sx_seq m n s = (Inl e, s')"
  "m s = (Inr x, s') \<Longrightarrow> sx_seq m n s = n s'"
  by (simp_all add: sx_seq_def)

lemma snd_sx_seq_return [simp]: "snd (sx_seq m (sx_return x) s) = snd (m s)"
  by (simp add: sx_seq_def sx_bind_def split: prod.splits sum.splits)

lemma sx_when_simps [simp]: "sx_when True m = m" "sx_when False m = sx_return ()"
  by (simp_all add: sx_when_def)

named_theorems sx_intros \<open>which computations keep an invariant\<close>

lemma sx_keeps_return [sx_intros]: "sx_keeps I (sx_return x)"
  and sx_keeps_throw [sx_intros]: "sx_keeps I (sx_throw e)"
  and sx_keeps_get [sx_intros]: "sx_keeps I (sx_get f)"
  by (simp_all add: sx_keeps_def)

lemma sx_keeps_mod [sx_intros]: "(\<And>s. I s \<Longrightarrow> I (g s)) \<Longrightarrow> sx_keeps I (sx_mod g)"
  by (simp add: sx_keeps_def)

lemma sx_keeps_bind [sx_intros]: "sx_keeps I m \<Longrightarrow> (\<And>x. sx_keeps I (f x)) \<Longrightarrow> sx_keeps I (sx_bind m f)"
  unfolding sx_keeps_def sx_bind_def by (auto split: prod.splits sum.splits)

lemma sx_keeps_seq [sx_intros]: "sx_keeps I m \<Longrightarrow> sx_keeps I n \<Longrightarrow> sx_keeps I (sx_seq m n)"
  unfolding sx_seq_def by (rule sx_keeps_bind)

lemma sx_keeps_when [sx_intros]: "sx_keeps I m \<Longrightarrow> sx_keeps I (sx_when b m)"
  by (cases b) (auto intro: sx_intros)

lemma sx_keeps_if [sx_intros]: "sx_keeps I m \<Longrightarrow> sx_keeps I n \<Longrightarrow> sx_keeps I (if b then m else n)"
  by simp

lemma sx_keeps_each [sx_intros]: "(\<And>x. sx_keeps I (f x)) \<Longrightarrow> sx_keeps I (sx_each f xs)"
  by (induction xs) (auto intro: sx_intros)

lemma sx_keeps_option [sx_intros]:
  "sx_keeps I n \<Longrightarrow> (\<And>x. sx_keeps I (f x)) \<Longrightarrow> sx_keeps I (case d of None \<Rightarrow> n | Some x \<Rightarrow> f x)"
  by (cases d) auto

lemma sx_keepsD: "sx_keeps I m \<Longrightarrow> I s \<Longrightarrow> I (snd (m s))"
  by (simp add: sx_keeps_def)

text \<open>Like \<open>sx_bind\<close>, for reading a part of the state into the computation that follows.\<close>

definition sx_let :: "('s \<Rightarrow> 'a) \<Rightarrow> ('a \<Rightarrow> ('s, 'b) sx) \<Rightarrow> ('s, 'b) sx" where
  "sx_let f g s = g (f s) s"

lemma sx_keeps_let [sx_intros]: "(\<And>x. sx_keeps I (g x)) \<Longrightarrow> sx_keeps I (sx_let f g)"
  by (simp add: sx_keeps_def sx_let_def)

end
