(* ===== verification/JsNumber.thy ===== *)
theory JsNumber
  imports Prelude
begin

text \<open>
  JavaScript numbers. A number is an IEEE 754 binary64 value: not-a-number, a signed infinity,
  the negative zero, or a finite value held as an exact rational (\<open>Fin 0\<close> is the positive zero).
  Arithmetic computes the exact rational result and rounds it to the nearest representable
  value, ties to even, with gradual underflow and overflow to infinity; the same rounding at 24
  bits of precision is the store into a \<open>Float32Array\<close>. Everything is executable.

  The lemmas give the facts the components rest on: the error bound and the monotonicity of
  rounding, and that sums, differences and products of integers below 2 to the power 53 are exact.
\<close>

subsection \<open>Rounding to nearest, ties to even\<close>

definition ilog2 :: "rat \<Rightarrow> int" where
  "ilog2 x = (case quotient_of x of (p, q) \<Rightarrow>
     let k = bitlen p - bitlen q in if (2::rat) powi k \<le> x then k else k - 1)"

definition rne :: "rat \<Rightarrow> int" where
  "rne x = (let f = \<lfloor>x\<rfloor>; d = x - of_int f in
     if d < 1/2 then f else if 1/2 < d then f + 1 else if even f then f else f + 1)"

text \<open>The exponent of the last place of \<open>x\<close> at \<open>p\<close> bits of precision with least exponent \<open>m\<close>,
  and the rounded value.\<close>

definition ulp_exp :: "int \<Rightarrow> int \<Rightarrow> rat \<Rightarrow> int" where
  "ulp_exp p m x = max (ilog2 \<bar>x\<bar> - p + 1) m"

definition rnd :: "int \<Rightarrow> int \<Rightarrow> rat \<Rightarrow> rat" where
  "rnd p m x = (if x = 0 then 0
     else let e = ulp_exp p m x in of_int (rne (x / 2 powi e)) * 2 powi e)"

text \<open>The values a format can hold, its exponent range upwards apart.\<close>

definition representable :: "int \<Rightarrow> int \<Rightarrow> rat \<Rightarrow> bool" where
  "representable p m x \<longleftrightarrow> (\<exists>n e. x = of_int n * 2 powi e \<and> \<bar>n\<bar> \<le> 2 ^ nat p \<and> m \<le> e)"

lemma powi2_pos [simp]: "0 < (2::rat) powi k"
  by (simp add: zero_less_power_int)

lemma powi2_neq0 [simp]: "(2::rat) powi k \<noteq> 0"
  by simp

lemma powi2_less: "a < b \<Longrightarrow> (2::rat) powi a < 2 powi b"
  by (rule power_int_strict_increasing) auto

lemma powi2_le_iff [simp]: "(2::rat) powi a \<le> 2 powi b \<longleftrightarrow> a \<le> b"
  using powi2_less [of a b] powi2_less [of b a] by (cases a b rule: linorder_cases) auto

lemma powi2_less_iff [simp]: "(2::rat) powi a < 2 powi b \<longleftrightarrow> a < b"
  by (simp add: linorder_not_le [symmetric])

lemma powi2_split: "(2::rat) powi (a + b) = 2 powi a * 2 powi b"
  by (simp add: power_int_add)

lemma powi2_diff: "(2::rat) powi (a - b) = 2 powi a / 2 powi b"
  by (simp add: power_int_diff)

lemma powi2_nonneg_int: "0 \<le> k \<Longrightarrow> (2::rat) powi k = of_int (2 ^ nat k)"
  by (simp add: power_int_def)

lemma bitlen_lower: "0 < (p::int) \<Longrightarrow> (2::rat) powi (bitlen p - 1) \<le> of_int p"
proof -
  assume p: "0 < p"
  then have 1: "2 ^ nat (bitlen p - 1) \<le> p" and 2: "0 \<le> bitlen p - 1"
    using bitlen_bounds [OF p] bitlen_nonneg [of p] bitlen_eq_zero_iff [of p] by auto
  show ?thesis unfolding powi2_nonneg_int [OF 2] using 1 by (simp del: of_int_power)
qed

lemma bitlen_upper: "0 < (p::int) \<Longrightarrow> of_int p < (2::rat) powi bitlen p"
proof -
  assume p: "0 < p"
  then have 1: "p < 2 ^ nat (bitlen p)" and 2: "0 \<le> bitlen p"
    using bitlen_bounds [OF p] bitlen_nonneg [of p] bitlen_eq_zero_iff [of p] by auto
  show ?thesis unfolding powi2_nonneg_int [OF 2] using 1 by (simp del: of_int_power)
qed

lemma ilog2_bounds:
  assumes "0 < x"
  shows "2 powi ilog2 x \<le> x" and "x < 2 powi (ilog2 x + 1)"
proof -
  obtain p q where pq: "quotient_of x = (p, q)" by force
  have q: "0 < q" using pq by (rule quotient_of_denom_pos)
  have x: "x = of_int p / of_int q" using pq by (rule quotient_of_div)
  have p: "0 < p" using assms q x by (simp add: zero_less_divide_iff)
  let ?k = "bitlen p - bitlen q"
  have "x < 2 powi bitlen p / 2 powi (bitlen q - 1)"
    unfolding x using bitlen_upper [OF p] bitlen_lower [OF q] p q
    by (intro frac_less) auto
  then have up: "x < 2 powi (?k + 1)" by (simp add: powi2_diff [symmetric] algebra_simps)
  have "2 powi (bitlen p - 1) / 2 powi bitlen q < x"
    unfolding x using bitlen_upper [OF q] bitlen_lower [OF p] p q
    by (intro frac_less2) auto
  then have lo: "2 powi (?k - 1) < x" by (simp add: powi2_diff [symmetric] algebra_simps)
  show "2 powi ilog2 x \<le> x" and "x < 2 powi (ilog2 x + 1)"
    using up lo by (auto simp: ilog2_def pq Let_def)
qed

lemma ilog2_less: "0 < x \<Longrightarrow> x < 2 powi k \<Longrightarrow> ilog2 x < k"
  using ilog2_bounds(1) [of x] order_le_less_trans powi2_less_iff by blast

lemma ilog2_ge: "0 < x \<Longrightarrow> 2 powi k \<le> x \<Longrightarrow> k \<le> ilog2 x"
  using ilog2_bounds(2) [of x] order_le_less_trans powi2_less_iff [of k "ilog2 x + 1"] by fastforce

subsubsection \<open>Rounding to an integer\<close>

lemma floor_frac_bounds: "of_int \<lfloor>x\<rfloor> \<le> (x::rat)" "x < of_int \<lfloor>x\<rfloor> + 1"
  by linarith+

lemma rne_cases: "rne x = \<lfloor>x\<rfloor> \<and> x - of_int \<lfloor>x\<rfloor> \<le> 1/2 \<or> rne x = \<lfloor>x\<rfloor> + 1 \<and> 1/2 \<le> x - of_int \<lfloor>x\<rfloor>"
  unfolding rne_def Let_def by (cases "x - of_int \<lfloor>x\<rfloor>" "1/2 :: rat" rule: linorder_cases) auto

lemma rne_error: "\<bar>of_int (rne x) - x\<bar> \<le> 1/2"
  using rne_cases [of x] floor_frac_bounds [of x] by (auto simp: abs_le_iff)

lemma rne_of_int [simp]: "rne (of_int n) = n"
  by (simp add: rne_def)

lemma rne_le: "x \<le> of_int n \<Longrightarrow> rne x \<le> n"
  using rne_cases [of x] floor_frac_bounds [of x] by (cases "x = of_int n") (auto simp: floor_less_iff, linarith)

lemma rne_ge: "of_int n \<le> x \<Longrightarrow> n \<le> rne x"
  using rne_cases [of x] le_floor_iff [of n x] by auto

lemma rne_near: "\<bar>x - of_int n\<bar> < 1/2 \<Longrightarrow> rne x = n"
  using rne_error [of x] by linarith

subsubsection \<open>Rounding at a precision\<close>

lemma representableI: "x = of_int n * 2 powi e \<Longrightarrow> \<bar>n\<bar> \<le> 2 ^ nat p \<Longrightarrow> m \<le> e \<Longrightarrow> representable p m x"
  by (auto simp: representable_def)

lemma representable_abs: "representable p m x \<Longrightarrow> representable p m \<bar>x\<bar>"
proof -
  assume "representable p m x"
  then obtain n e where "x = of_int n * 2 powi e" "\<bar>n\<bar> \<le> 2 ^ nat p" "m \<le> e"
    by (auto simp: representable_def)
  then show ?thesis by (intro representableI [of _ "\<bar>n\<bar>" e]) (auto simp: abs_mult)
qed

text \<open>A nonzero representable value is an integer multiple of its own last place.\<close>

lemma representable_canonical:
  assumes "representable p m x" and "x \<noteq> 0" and "0 < p"
  obtains k where "x = of_int k * 2 powi ulp_exp p m x"
proof -
  from assms(1) obtain n e where x: "x = of_int n * 2 powi e" and n: "\<bar>n\<bar> \<le> 2 ^ nat p" and e: "m \<le> e"
    by (auto simp: representable_def)
  let ?u = "ulp_exp p m x"
  have ax: "\<bar>x\<bar> = of_int \<bar>n\<bar> * 2 powi e" by (simp add: x abs_mult)
  have pp: "(2::rat) powi p = of_int (2 ^ nat p)" using \<open>0 < p\<close> by (simp add: powi2_nonneg_int)
  have "(of_int \<bar>n\<bar> :: rat) \<le> of_int (2 ^ nat p)" using n by (subst of_int_le_iff)
  then have le: "\<bar>x\<bar> \<le> 2 powi (p + e)"
    unfolding ax powi2_split pp by (rule mult_right_mono) (simp add: less_imp_le)
  show ?thesis
  proof (cases "?u \<le> e")
    case True
    have "x = of_int (n * 2 ^ nat (e - ?u)) * 2 powi ?u"
      using True powi2_split [of "e - ?u" ?u] by (simp add: x powi2_nonneg_int)
    then show ?thesis by (rule that)
  next
    case False
    then have "p + e \<le> ilog2 \<bar>x\<bar>" using e by (simp add: ulp_exp_def split: if_splits)
    moreover have "ilog2 \<bar>x\<bar> \<le> p + e"
    proof -
      have "(2::rat) powi ilog2 \<bar>x\<bar> \<le> 2 powi (p + e)"
        by (rule order_trans [OF ilog2_bounds(1) le]) (simp add: \<open>x \<noteq> 0\<close>)
      then show ?thesis by simp
    qed
    ultimately have lg: "ilog2 \<bar>x\<bar> = p + e" by simp
    then have "\<bar>x\<bar> = 2 powi (p + e)"
      using ilog2_bounds(1) [of "\<bar>x\<bar>"] le \<open>x \<noteq> 0\<close> by simp
    moreover have u: "?u = e + 1" using lg e by (simp add: ulp_exp_def)
    ultimately have "\<bar>x\<bar> = of_int (2 ^ nat (p - 1)) * 2 powi ?u"
      using \<open>0 < p\<close> powi2_split [of "p - 1" "e + 1"] by (simp add: powi2_nonneg_int)
    then have "x = of_int ((if x < 0 then - 1 else 1) * 2 ^ nat (p - 1)) * 2 powi ?u"
      by (auto simp: abs_if split: if_splits)
    then show ?thesis by (rule that)
  qed
qed

lemma rnd_0 [simp]: "rnd p m 0 = 0"
  by (simp add: rnd_def)

lemma rnd_error: "x \<noteq> 0 \<Longrightarrow> \<bar>rnd p m x - x\<bar> \<le> 2 powi ulp_exp p m x / 2"
proof -
  assume x: "x \<noteq> 0"
  let ?u = "(2::rat) powi ulp_exp p m x"
  have "rnd p m x - x = (of_int (rne (x / ?u)) - x / ?u) * ?u"
    using x by (simp add: rnd_def Let_def algebra_simps)
  then have "\<bar>rnd p m x - x\<bar> = \<bar>of_int (rne (x / ?u)) - x / ?u\<bar> * ?u"
    by (simp add: abs_mult)
  also have "\<dots> \<le> 1/2 * ?u" by (rule mult_right_mono [OF rne_error]) (simp add: less_imp_le)
  finally show ?thesis by simp
qed

lemma rnd_representable: "representable p m x \<Longrightarrow> 0 < p \<Longrightarrow> rnd p m x = x"
proof (cases "x = 0")
  case False
  assume r: "representable p m x" "0 < p"
  from representable_canonical [OF r(1) False r(2)] obtain k where
    k: "x = of_int k * 2 powi ulp_exp p m x" .
  then have "x / 2 powi ulp_exp p m x = of_int k" by (simp add: field_simps)
  with k False show ?thesis by (simp add: rnd_def Let_def)
qed simp

lemma rnd_near:
  assumes "\<bar>x - of_int n * 2 powi ulp_exp p m x\<bar> < 2 powi ulp_exp p m x / 2" and "x \<noteq> 0"
  shows "rnd p m x = of_int n * 2 powi ulp_exp p m x"
proof -
  let ?u = "(2::rat) powi ulp_exp p m x"
  have "x / ?u - of_int n = (x - of_int n * ?u) / ?u" by (simp add: diff_divide_distrib)
  then have "\<bar>x / ?u - of_int n\<bar> = \<bar>x - of_int n * ?u\<bar> / ?u" by simp
  also have "\<dots> < 1/2" using assms(1) by (simp add: divide_less_eq)
  finally have "rne (x / ?u) = n" by (rule rne_near)
  with assms(2) show ?thesis by (simp add: rnd_def Let_def)
qed

text \<open>Rounding never crosses a representable value: it is monotone against all of them.\<close>

lemma ulp_exp_lower: "x \<noteq> 0 \<Longrightarrow> ulp_exp p m x > m \<Longrightarrow> 2 powi (ulp_exp p m x + p - 1) \<le> \<bar>x\<bar>"
  using ilog2_bounds(1) [of "\<bar>x\<bar>"] by (simp add: ulp_exp_def split: if_splits)

lemma ulp_exp_upper: "x \<noteq> 0 \<Longrightarrow> \<bar>x\<bar> < 2 powi (ulp_exp p m x + p)"
proof -
  assume "x \<noteq> 0"
  then have "\<bar>x\<bar> < 2 powi (ilog2 \<bar>x\<bar> + 1)" by (intro ilog2_bounds) simp
  also have "\<dots> \<le> 2 powi (ulp_exp p m x + p)" by (simp add: ulp_exp_def)
  finally show ?thesis .
qed

lemma rnd_le_multiple:
  assumes "x \<le> of_int k * 2 powi ulp_exp p m x" and "x \<noteq> 0"
  shows "rnd p m x \<le> of_int k * 2 powi ulp_exp p m x"
  using assms rne_le [of "x / 2 powi ulp_exp p m x" k]
  by (simp add: rnd_def Let_def divide_le_eq)

lemma rnd_ge_multiple:
  assumes "of_int k * 2 powi ulp_exp p m x \<le> x" and "x \<noteq> 0"
  shows "of_int k * 2 powi ulp_exp p m x \<le> rnd p m x"
  using assms rne_ge [of k "x / 2 powi ulp_exp p m x"]
  by (simp add: rnd_def Let_def le_divide_eq)

lemma multiple_of_smaller_ulp:
  assumes "representable p m r" and "r \<noteq> 0" and "0 < p" and "u \<le> ulp_exp p m r"
  obtains k where "r = of_int k * 2 powi u"
proof -
  from representable_canonical [OF assms(1-3)] obtain k where
    k: "r = of_int k * 2 powi ulp_exp p m r" .
  have "r = of_int (k * 2 ^ nat (ulp_exp p m r - u)) * 2 powi u"
    using assms(4) powi2_split [of "ulp_exp p m r - u" u] by (subst k) (simp add: powi2_nonneg_int)
  then show ?thesis by (rule that)
qed

lemma small_ulp_less:
  assumes "x \<noteq> 0" and "r \<noteq> 0" and "ulp_exp p m r < ulp_exp p m x"
  shows "\<bar>r\<bar> < 2 powi (ulp_exp p m x + p - 1)" and "2 powi (ulp_exp p m x + p - 1) \<le> \<bar>x\<bar>"
proof -
  have "\<bar>r\<bar> < 2 powi (ulp_exp p m r + p)" using assms(2) by (rule ulp_exp_upper)
  also have "\<dots> \<le> 2 powi (ulp_exp p m x + p - 1)" using assms(3) by simp
  finally show "\<bar>r\<bar> < 2 powi (ulp_exp p m x + p - 1)" .
  have "m < ulp_exp p m x" using assms(3) by (simp add: ulp_exp_def)
  with assms(1) show "2 powi (ulp_exp p m x + p - 1) \<le> \<bar>x\<bar>" by (rule ulp_exp_lower)
qed

lemma rnd_le_representable:
  assumes r: "representable p m r" "0 < p" and le: "x \<le> r"
  shows "rnd p m x \<le> r"
proof (cases "x = 0 \<or> r = 0")
  case True
  then show ?thesis
    using le rnd_le_multiple [of x 0 p m] by (cases "x = 0") auto
next
  case False
  then have x: "x \<noteq> 0" and r0: "r \<noteq> 0" by auto
  show ?thesis
  proof (cases "ulp_exp p m x \<le> ulp_exp p m r")
    case True
    with multiple_of_smaller_ulp [OF r(1) r0 r(2)] obtain k where "r = of_int k * 2 powi ulp_exp p m x" .
    with le x show ?thesis using rnd_le_multiple by simp
  next
    case False
    let ?b = "2 powi (ulp_exp p m x + p - 1) :: rat"
    have b: "\<bar>r\<bar> < ?b" "?b \<le> \<bar>x\<bar>" using small_ulp_less [OF x r0] False by auto
    with le have "x \<le> - ?b" by (auto simp: abs_if split: if_splits)
    moreover have "- ?b = of_int (- (2 ^ nat (p - 1))) * 2 powi ulp_exp p m x"
      using r(2) powi2_split [of "p - 1" "ulp_exp p m x"] by (simp add: powi2_nonneg_int algebra_simps)
    ultimately have "rnd p m x \<le> - ?b" using rnd_le_multiple x by metis
    with b show ?thesis by (auto simp: abs_if split: if_splits)
  qed
qed

lemma rnd_ge_representable:
  assumes r: "representable p m r" "0 < p" and le: "r \<le> x"
  shows "r \<le> rnd p m x"
proof (cases "x = 0 \<or> r = 0")
  case True
  then show ?thesis
    using le rnd_ge_multiple [of 0 p m x] by (cases "x = 0") auto
next
  case False
  then have x: "x \<noteq> 0" and r0: "r \<noteq> 0" by auto
  show ?thesis
  proof (cases "ulp_exp p m x \<le> ulp_exp p m r")
    case True
    with multiple_of_smaller_ulp [OF r(1) r0 r(2)] obtain k where "r = of_int k * 2 powi ulp_exp p m x" .
    with le x show ?thesis using rnd_ge_multiple by simp
  next
    case False
    let ?b = "2 powi (ulp_exp p m x + p - 1) :: rat"
    have b: "\<bar>r\<bar> < ?b" "?b \<le> \<bar>x\<bar>" using small_ulp_less [OF x r0] False by auto
    with le have "?b \<le> x" by (auto simp: abs_if split: if_splits)
    moreover have "?b = of_int (2 ^ nat (p - 1)) * 2 powi ulp_exp p m x"
      using r(2) powi2_split [of "p - 1" "ulp_exp p m x"] by (simp add: powi2_nonneg_int algebra_simps)
    ultimately have "?b \<le> rnd p m x" using rnd_ge_multiple x by metis
    with b show ?thesis by (auto simp: abs_if split: if_splits)
  qed
qed

lemma rnd_is_representable:
  assumes "0 < p"
  shows "representable p m (rnd p m x)"
proof (cases "x = 0")
  case True
  then show ?thesis by (auto simp: representable_def intro!: exI [of _ 0] exI [of _ m])
next
  case False
  let ?e = "ulp_exp p m x"
  let ?n = "rne (x / 2 powi ?e)"
  have p2: "(2::rat) powi p = of_int (2 ^ nat p)" using assms by (simp add: powi2_nonneg_int)
  have "\<bar>x / 2 powi ?e\<bar> \<le> of_int (2 ^ nat p)"
    using ulp_exp_upper [OF False, of p m] unfolding p2 [symmetric]
    by (simp add: powi2_split divide_le_eq mult.commute)
  then have "x / 2 powi ?e \<le> of_int (2 ^ nat p)" "- (x / 2 powi ?e) \<le> of_int (2 ^ nat p)"
    unfolding abs_le_iff by blast+
  then have "x / 2 powi ?e \<le> of_int (2 ^ nat p)" "of_int (- (2 ^ nat p)) \<le> x / 2 powi ?e"
    unfolding of_int_minus by (blast, linarith)
  then have "?n \<le> 2 ^ nat p" "- (2 ^ nat p) \<le> ?n" 
    using rne_le rne_ge by blast+
  then show ?thesis
    using False by (intro representableI [of _ ?n ?e]) (auto simp: rnd_def Let_def ulp_exp_def abs_le_iff)
qed

subsection \<open>Numbers and their arithmetic\<close>

text \<open>\<open>Infinity True\<close> is the negative infinity.\<close>

datatype jsnum = NaN | Infinity bool | NegZero | Fin rat

definition rnd64 :: "rat \<Rightarrow> rat" where
  "rnd64 = rnd 53 (- 1074)"

definition rnd32 :: "rat \<Rightarrow> rat" where
  "rnd32 = rnd 24 (- 149)"

text \<open>The number nearest to an exact result; \<open>s\<close> is the sign of a zero.\<close>

definition to_num :: "bool \<Rightarrow> rat \<Rightarrow> jsnum" where
  "to_num s x = (let r = rnd64 x in
     if r = 0 then (if s then NegZero else Fin 0)
     else if 2 ^ 1024 \<le> \<bar>r\<bar> then Infinity (r < 0) else Fin r)"

lemma ilog2_ge_iff: "0 < x \<Longrightarrow> 0 \<le> k \<Longrightarrow> k \<le> ilog2 x \<longleftrightarrow> 2 ^ nat k \<le> x"
  using ilog2_ge [of x k] ilog2_bounds(1) [of x] powi2_le_iff [of k "ilog2 x"]
  by (auto simp: powi2_nonneg_int dest: order_trans)

lemma to_num_code [code]:
  "to_num s x = (let r = rnd64 x in
     if r = 0 then (if s then NegZero else Fin 0)
     else if 1024 \<le> ilog2 \<bar>r\<bar> then Infinity (r < 0) else Fin r)"
  by (simp add: to_num_def Let_def ilog2_ge_iff)

fun num_val :: "jsnum \<Rightarrow> rat" where
  "num_val (Fin x) = x"
| "num_val _ = 0"

fun num_neg :: "jsnum \<Rightarrow> bool" where
  "num_neg (Fin x) = (x < 0)"
| "num_neg NegZero = True"
| "num_neg (Infinity s) = s"
| "num_neg NaN = False"

fun is_fin :: "jsnum \<Rightarrow> bool" where
  "is_fin (Fin _) = True"
| "is_fin NegZero = True"
| "is_fin _ = False"

fun js_neg :: "jsnum \<Rightarrow> jsnum" where
  "js_neg NaN = NaN"
| "js_neg (Infinity s) = Infinity (\<not> s)"
| "js_neg NegZero = Fin 0"
| "js_neg (Fin x) = (if x = 0 then NegZero else Fin (- x))"

fun js_add :: "jsnum \<Rightarrow> jsnum \<Rightarrow> jsnum" where
  "js_add NaN y = NaN"
| "js_add x NaN = NaN"
| "js_add (Infinity s) (Infinity t) = (if s = t then Infinity s else NaN)"
| "js_add (Infinity s) y = Infinity s"
| "js_add x (Infinity t) = Infinity t"
| "js_add NegZero NegZero = NegZero"
| "js_add x y = to_num (num_val x + num_val y < 0) (num_val x + num_val y)"

definition js_sub :: "jsnum \<Rightarrow> jsnum \<Rightarrow> jsnum" where
  "js_sub x y = js_add x (js_neg y)"

fun js_mul :: "jsnum \<Rightarrow> jsnum \<Rightarrow> jsnum" where
  "js_mul NaN y = NaN"
| "js_mul x NaN = NaN"
| "js_mul (Infinity s) y = (if is_fin y \<and> num_val y = 0 then NaN else Infinity (s \<noteq> num_neg y))"
| "js_mul x (Infinity t) = (if num_val x = 0 then NaN else Infinity (num_neg x \<noteq> t))"
| "js_mul x y = to_num (num_neg x \<noteq> num_neg y) (num_val x * num_val y)"

fun js_div :: "jsnum \<Rightarrow> jsnum \<Rightarrow> jsnum" where
  "js_div NaN y = NaN"
| "js_div x NaN = NaN"
| "js_div (Infinity s) (Infinity t) = NaN"
| "js_div (Infinity s) y = Infinity (s \<noteq> num_neg y)"
| "js_div x (Infinity t) = (if num_neg x \<noteq> t then NegZero else Fin 0)"
| "js_div x y = (if num_val y = 0 then (if num_val x = 0 then NaN else Infinity (num_neg x \<noteq> num_neg y))
     else to_num (num_neg x \<noteq> num_neg y) (num_val x / num_val y))"

text \<open>The remainder has the sign of the dividend and is exact.\<close>

definition rat_trunc :: "rat \<Rightarrow> int" where
  "rat_trunc x = (if x < 0 then \<lceil>x\<rceil> else \<lfloor>x\<rfloor>)"

fun js_mod :: "jsnum \<Rightarrow> jsnum \<Rightarrow> jsnum" where
  "js_mod NaN y = NaN"
| "js_mod x NaN = NaN"
| "js_mod (Infinity s) y = NaN"
| "js_mod x (Infinity t) = x"
| "js_mod x y = (if num_val y = 0 then NaN
     else let r = num_val x - of_int (rat_trunc (num_val x / num_val y)) * num_val y
          in if r = 0 then (if num_neg x then NegZero else Fin 0) else Fin r)"

subsection \<open>Comparison\<close>

fun js_less :: "jsnum \<Rightarrow> jsnum \<Rightarrow> bool" where
  "js_less NaN y = False"
| "js_less x NaN = False"
| "js_less (Infinity s) (Infinity t) = (s \<and> \<not> t)"
| "js_less (Infinity s) y = s"
| "js_less x (Infinity t) = (\<not> t)"
| "js_less x y = (num_val x < num_val y)"

fun js_eq :: "jsnum \<Rightarrow> jsnum \<Rightarrow> bool" where
  "js_eq NaN y = False"
| "js_eq x NaN = False"
| "js_eq (Infinity s) (Infinity t) = (s = t)"
| "js_eq (Infinity s) y = False"
| "js_eq x (Infinity t) = False"
| "js_eq x y = (num_val x = num_val y)"

definition js_le :: "jsnum \<Rightarrow> jsnum \<Rightarrow> bool" where
  "js_le x y \<longleftrightarrow> js_less x y \<or> js_eq x y"

text \<open>\<open>Math.max\<close> and \<open>Math.min\<close> of two arguments.\<close>

definition js_max :: "jsnum \<Rightarrow> jsnum \<Rightarrow> jsnum" where
  "js_max x y = (if x = NaN \<or> y = NaN then NaN
     else if js_less x y then y else if js_less y x then x
     else if num_neg x then y else x)"

definition js_min :: "jsnum \<Rightarrow> jsnum \<Rightarrow> jsnum" where
  "js_min x y = (if x = NaN \<or> y = NaN then NaN
     else if js_less x y then x else if js_less y x then y
     else if num_neg x then x else y)"

fun js_abs :: "jsnum \<Rightarrow> jsnum" where
  "js_abs NaN = NaN"
| "js_abs (Infinity s) = Infinity False"
| "js_abs NegZero = Fin 0"
| "js_abs (Fin x) = Fin \<bar>x\<bar>"

text \<open>\<open>Math.floor\<close>; \<open>Math.round\<close> rounds halves upwards.\<close>

fun js_floor :: "jsnum \<Rightarrow> jsnum" where
  "js_floor (Fin x) = Fin (of_int \<lfloor>x\<rfloor>)"
| "js_floor x = x"

fun js_round :: "jsnum \<Rightarrow> jsnum" where
  "js_round (Fin x) = (let r = \<lfloor>x + 1/2\<rfloor> in if r = 0 \<and> x < 0 then NegZero else Fin (of_int r))"
| "js_round x = x"

text \<open>Truth value of a number in a condition.\<close>

definition js_truthy :: "jsnum \<Rightarrow> bool" where
  "js_truthy x \<longleftrightarrow> x \<noteq> NaN \<and> x \<noteq> NegZero \<and> x \<noteq> Fin 0"

text \<open>The modular conversion to an unsigned integer of \<open>w\<close> bits (\<open>ToUint32\<close> and the stores of a
  \<open>DataView\<close>).\<close>

fun to_uint :: "nat \<Rightarrow> jsnum \<Rightarrow> nat" where
  "to_uint w (Fin x) = nat (rat_trunc x mod 2 ^ w)"
| "to_uint w _ = 0"

abbreviation jnat :: "nat \<Rightarrow> jsnum" where
  "jnat n \<equiv> Fin (of_nat n)"

abbreviation jint :: "int \<Rightarrow> jsnum" where
  "jint n \<equiv> Fin (of_int n)"

subsection \<open>Exact results\<close>

lemma representable_int: "\<bar>n\<bar> \<le> 2 ^ 53 \<Longrightarrow> representable 53 (- 1074) (of_int n)"
  by (rule representableI [of _ n 0]) auto

lemma rnd64_int: "\<bar>n\<bar> \<le> 2 ^ 53 \<Longrightarrow> rnd64 (of_int n) = of_int n"
  unfolding rnd64_def by (rule rnd_representable [OF representable_int]) auto

lemma rnd64_ge_int: "of_int n \<le> x \<Longrightarrow> \<bar>n\<bar> \<le> 2 ^ 53 \<Longrightarrow> of_int n \<le> rnd64 x"
  unfolding rnd64_def by (rule rnd_ge_representable [OF representable_int]) auto

lemma rnd64_le_int: "x \<le> of_int n \<Longrightarrow> \<bar>n\<bar> \<le> 2 ^ 53 \<Longrightarrow> rnd64 x \<le> of_int n"
  unfolding rnd64_def by (rule rnd_le_representable [OF representable_int]) auto

lemma two_53_le: "(2::rat) ^ 53 < 2 ^ 1024"
  by (rule power_strict_increasing) auto

lemma abs_int_less_2_1024: "\<bar>n\<bar> \<le> 2 ^ 53 \<Longrightarrow> \<bar>of_int n :: rat\<bar> < 2 ^ 1024"
proof -
  assume "\<bar>n\<bar> \<le> 2 ^ 53"
  then have "(of_int \<bar>n\<bar> :: rat) \<le> of_int (2 ^ 53)" by (subst of_int_le_iff)
  then show ?thesis using two_53_le by simp
qed

lemma to_num_int [js_num]:
  "\<bar>n\<bar> \<le> 2 ^ 53 \<Longrightarrow> to_num s (of_int n) = (if n = 0 then if s then NegZero else Fin 0 else jint n)"
  using abs_int_less_2_1024 [of n] by (simp add: to_num_def rnd64_int Let_def)

lemma js_add_int [js_num]:
  "\<bar>a + b\<bar> \<le> 2 ^ 53 \<Longrightarrow> js_add (jint a) (jint b) = jint (a + b)"
  using to_num_int [of "a + b" "a + b < 0"] by (simp add: of_int_add [symmetric] del: of_int_add)

lemma js_sub_int [js_num]:
  "\<bar>a - b\<bar> \<le> 2 ^ 53 \<Longrightarrow> js_sub (jint a) (jint b) = jint (a - b)"
proof (cases "b = 0")
  case True
  assume "\<bar>a - b\<bar> \<le> 2 ^ 53"
  with True have "to_num (a < 0) (of_int a) = jint a" by (subst to_num_int) auto
  with True show ?thesis by (simp add: js_sub_def)
next
  case False
  assume "\<bar>a - b\<bar> \<le> 2 ^ 53"
  then show ?thesis
    using False js_add_int [of a "- b"] by (simp add: js_sub_def)
qed

lemma js_mul_int [js_num]:
  "\<bar>a * b\<bar> \<le> 2 ^ 53 \<Longrightarrow> 0 \<le> a \<Longrightarrow> 0 \<le> b \<Longrightarrow> js_mul (jint a) (jint b) = jint (a * b)"
  using to_num_int [of "a * b" False] by (simp add: of_int_mult [symmetric] del: of_int_mult)

lemma js_less_int [simp]: "js_less (jint a) (jint b) \<longleftrightarrow> a < b"
  by simp

lemma js_eq_int [simp]: "js_eq (jint a) (jint b) \<longleftrightarrow> a = b"
  by simp

lemma js_le_int [simp]: "js_le (jint a) (jint b) \<longleftrightarrow> a \<le> b"
  by (auto simp: js_le_def)

lemma js_le_Fin [simp]: "js_le (Fin a) (Fin b) \<longleftrightarrow> a \<le> b"
  by (auto simp: js_le_def)

lemma js_floor_int [simp]: "js_floor (jint n) = jint n"
  by simp

lemma rat_trunc_of_int [simp]: "rat_trunc (of_int n) = n"
  by (simp add: rat_trunc_def)

lemma rat_trunc_of_nat [simp]: "rat_trunc (of_nat n) = int n"
  by (simp add: rat_trunc_def)

lemma to_uint_nat [simp]: "to_uint w (jnat n) = n mod 2 ^ w"
  by (simp add: nat_mod_distrib nat_power_eq)

lemma to_uint_bound: "to_uint w x < 2 ^ w"
proof (cases x)
  case (Fin q)
  have "rat_trunc q mod 2 ^ w < 2 ^ w" by simp
  then have "nat (rat_trunc q mod 2 ^ w) < nat (2 ^ w)" by (subst nat_less_eq_zless) auto
  then show ?thesis using Fin by (simp add: nat_power_eq)
qed auto

text \<open>A value off an integer by less than one part in 2 to the power 54 rounds to it.\<close>

lemma rnd64_near_int:
  assumes "0 < n" and "n < 2 ^ 53" and "\<bar>x - of_int n\<bar> < of_int n / 2 ^ 54"
  shows "rnd64 x = of_int n"
proof -
  have sm: "(of_int n :: rat) / 2 ^ 54 < of_int n" using assms(1) by (simp add: divide_less_eq)
  have xpos: "0 < x" using assms(3) sm unfolding abs_less_iff by linarith
  have nn: "(of_int n :: rat) / 2 ^ 54 < 1/2"
  proof -
    have "(of_int n :: rat) < of_int (2 ^ 53)" using assms(2) by (subst of_int_less_iff)
    then show ?thesis by (simp add: field_simps)
  qed
  let ?u = "ulp_exp 53 (- 1074) x"
  let ?l = "ilog2 x"
  have nbig: "(1::rat) \<le> of_int n" using assms(1) by simp
  have xhalf: "(1/2::rat) \<le> x" using assms(3) nbig nn unfolding abs_less_iff by linarith
  have lneg: "- 1 \<le> ?l" using xhalf xpos by (intro ilog2_ge) (auto simp: power_int_minus)
  then have u: "?u = ?l - 52" using xpos by (simp add: ulp_exp_def)
  have l1: "(2::rat) powi (?l + 1) = of_int (2 ^ nat (?l + 1))" using lneg by (intro powi2_nonneg_int) simp
  have nl: "n \<le> 2 ^ nat (?l + 1)"
  proof (rule ccontr)
    assume "\<not> ?thesis"
    then have "2 ^ nat (?l + 1) + 1 \<le> n" by simp
    then have "(of_int (2 ^ nat (?l + 1) + 1) :: rat) \<le> of_int n" by (subst of_int_le_iff)
    moreover have "x < of_int (2 ^ nat (?l + 1))" using ilog2_bounds(2) [OF xpos] by (simp only: l1)
    ultimately show False using assms(3) nn unfolding abs_less_iff of_int_add of_int_1 by linarith
  qed
  have "?l < 53"
  proof (rule ilog2_less [OF xpos])
    have "(of_int (n + 1) :: rat) \<le> of_int (2 ^ 53)" using assms(2) by (subst of_int_le_iff) simp
    then show "x < 2 powi 53" using assms(3) nn unfolding abs_less_iff of_int_add of_int_1 by simp
  qed
  then have u0: "?u \<le> 0" by (simp add: u)
  have n_mult: "(of_int n :: rat) = of_int (n * 2 ^ nat (- ?u)) * 2 powi ?u"
    using u0 powi2_split [of "- ?u" ?u] by (simp add: powi2_nonneg_int mult.assoc)
  have "of_int n / 2 ^ 54 \<le> (2::rat) powi (?l + 1) / 2 ^ 54"
    unfolding l1 using nl by (simp add: divide_right_mono del: of_int_power)
  also have "\<dots> = 2 powi ?u / 2" using powi2_split [of "?l - 52" 53] by (simp add: u add.commute)
  finally have "\<bar>x - of_int n\<bar> < 2 powi ?u / 2" using assms(3) by simp
  then show ?thesis
    using rnd_near [of x "n * 2 ^ nat (- ?u)" 53 "- 1074"] xpos unfolding rnd64_def n_mult [symmetric] by simp
qed

end
