(* ===== verification/Float32.thy ===== *)
theory Float32
  imports JsNumber
begin

text \<open>
  The payload of a message: IEEE 754 binary32 values as bit patterns of 32 bits. A store into a
  \<open>Float32Array\<close> (and the C++ conversion from double to float) rounds a number to 24 bits and
  keeps its pattern; a load reads the pattern back, which is exact. The last lemmas say that
  loading what was stored gives the rounded number.
\<close>

fun to_f32 :: "jsnum \<Rightarrow> jsnum" where
  "to_f32 (Fin x) = (let r = rnd32 x in
     if r = 0 then (if x < 0 then NegZero else Fin 0)
     else if 2 ^ 128 \<le> \<bar>r\<bar> then Infinity (r < 0) else Fin r)"
| "to_f32 x = x"

definition f32_sign :: "bool \<Rightarrow> nat" where
  "f32_sign s = (if s then 2 ^ 31 else 0)"

text \<open>The 31 low bits of a positive value that binary32 holds exactly.\<close>

definition f32_mag :: "rat \<Rightarrow> nat" where
  "f32_mag r = (let e = ilog2 r in
     if e < - 126 then nat \<lfloor>r / 2 powi (- 149)\<rfloor>
     else nat (e + 127) * 2 ^ 23 + (nat \<lfloor>r / 2 powi (e - 23)\<rfloor> - 2 ^ 23))"

fun f32_encode_exact :: "jsnum \<Rightarrow> nat" where
  "f32_encode_exact NaN = 0x7FC00000"
| "f32_encode_exact (Infinity s) = f32_sign s + 0x7F800000"
| "f32_encode_exact NegZero = f32_sign True"
| "f32_encode_exact (Fin x) = (if x = 0 then 0 else f32_sign (x < 0) + f32_mag \<bar>x\<bar>)"

definition f32_encode :: "jsnum \<Rightarrow> nat" where
  "f32_encode x = f32_encode_exact (to_f32 x)"

definition f32_value :: "bool \<Rightarrow> nat \<Rightarrow> nat \<Rightarrow> jsnum" where
  "f32_value s ex fr =
     (let mag = (if ex = 0 then of_nat fr * 2 powi (- 149)
                 else of_nat (2 ^ 23 + fr) * 2 powi (int ex - 150)) :: rat
      in if ex = 255 then (if fr = 0 then Infinity s else NaN)
         else if mag = 0 then (if s then NegZero else Fin 0)
         else Fin (if s then - mag else mag))"

definition f32_decode :: "nat \<Rightarrow> jsnum" where
  "f32_decode b = f32_value (odd (b div 2 ^ 31)) ((b div 2 ^ 23) mod 256) (b mod 2 ^ 23)"

text \<open>The numbers a binary32 value can be.\<close>

definition is_f32 :: "jsnum \<Rightarrow> bool" where
  "is_f32 x \<longleftrightarrow> to_f32 x = x"

lemma to_f32_cases:
  obtains "to_f32 x = NaN" | s where "to_f32 x = Infinity s" | "to_f32 x = NegZero"
  | "to_f32 x = Fin 0" | r where "to_f32 x = Fin r" "r \<noteq> 0" "\<bar>r\<bar> < 2 ^ 128" "representable 24 (- 149) \<bar>r\<bar>"
proof (cases x)
  case (Fin q)
  have r: "representable 24 (- 149) \<bar>rnd32 q\<bar>"
    unfolding rnd32_def by (rule representable_abs [OF rnd_is_representable]) simp
  consider "rnd32 q = 0" | "rnd32 q \<noteq> 0" "2 ^ 128 \<le> \<bar>rnd32 q\<bar>" | "rnd32 q \<noteq> 0" "\<bar>rnd32 q\<bar> < 2 ^ 128"
    by linarith
  then show ?thesis
  proof cases
    case 1
    with Fin that(3,4) show ?thesis by (cases "q < 0") simp_all
  next
    case 2
    with Fin that(2) show ?thesis by (simp add: Let_def)
  next
    case 3
    with Fin r that(5) show ?thesis by (simp add: Let_def)
  qed
qed (use that in auto)

lemma split_high_field:
  fixes m b c :: nat
  assumes "m < c * b"
  shows "(m + c * b) div b mod c = m div b" and "(m + c * b) mod b = m mod b" and "(m + c * b) div (c * b) = 1"
proof -
  have b: "b \<noteq> 0" using assms by (cases b) auto
  have "m div b < c" using assms by (simp add: less_mult_imp_div_less)
  with b show "(m + c * b) div b mod c = m div b" by simp
  show "(m + c * b) mod b = m mod b" by simp
  show "(m + c * b) div (c * b) = 1" using assms by (simp add: div_nat_eqI)
qed

lemma f32_fields:
  assumes "m < 2 ^ 31"
  shows "odd ((f32_sign s + m) div 2 ^ 31) = s" and "(f32_sign s + m) div 2 ^ 23 mod 256 = m div 2 ^ 23"
    and "(f32_sign s + m) mod 2 ^ 23 = m mod 2 ^ 23"
proof -
  have m: "m < 256 * 2 ^ 23" using assms by simp
  note h = split_high_field [OF m]
  have T: "f32_sign True + m = m + 256 * 2 ^ 23" and p: "(2 ^ 31 :: nat) = 256 * 2 ^ 23" by (simp_all add: f32_sign_def)
  have d: "m div 2 ^ 23 < 256" using m by (simp add: less_mult_imp_div_less)
  show "odd ((f32_sign s + m) div 2 ^ 31) = s"
    using h(3) assms unfolding p [symmetric] by (cases s) (simp_all add: f32_sign_def add.commute)
  show "(f32_sign s + m) div 2 ^ 23 mod 256 = m div 2 ^ 23"
    using h(1) d by (cases s) (simp_all only: T, simp add: f32_sign_def)
  show "(f32_sign s + m) mod 2 ^ 23 = m mod 2 ^ 23"
    using h(2) by (cases s) (simp_all only: T, simp add: f32_sign_def)
qed

lemma f32_mag_cases:
  assumes "representable 24 (- 149) r" and "0 < r" and "r < 2 ^ 128"
  obtains k where "f32_mag r = k" "k < 2 ^ 23" "0 < k" "r = of_nat k * 2 powi (- 149)"
  | k e where "f32_mag r = e * 2 ^ 23 + k" "k < 2 ^ 23" "1 \<le> e" "e < 255"
      "r = of_nat (2 ^ 23 + k) * 2 powi (int e - 150)"
proof -
  let ?l = "ilog2 r"
  let ?u = "ulp_exp 24 (- 149) r"
  from representable_canonical [OF assms(1)] assms(2) obtain k where k: "r = of_int k * 2 powi ?u" by auto
  with assms(2) have "0 < of_int k * (2::rat) powi ?u" by (simp only:)
  then have kpos: "0 < k" 
    using powi2_pos [of ?u] by (simp add: zero_less_mult_iff not_less less_imp_le)
  have u: "?u = max (?l - 23) (- 149)" using assms(2) by (simp add: ulp_exp_def)
  have quot: "r / 2 powi ?u = of_int k" using k by (simp add: divide_eq_eq)
  show thesis
  proof (cases "?l < - 126")
    case True
    then have u: "?u = - 149" using u by simp
    have ku: "of_int k * 2 powi (- 149) = r" using k unfolding u by (rule sym)
    have "r < 2 powi (- 126)" using ilog2_bounds(2) [OF assms(2)] True powi2_le_iff [of "?l + 1" "- 126"]
      by (simp del: powi2_le_iff)
    also have "(2::rat) powi (- 126) = 2 ^ 23 * 2 powi (- 149)" using powi2_split [of 23 "- 149"] by simp
    finally have "(of_int k :: rat) < of_int (2 ^ 23)" unfolding ku [symmetric] by simp
    then have "k < 2 ^ 23" by (subst (asm) of_int_less_iff)
    moreover have "f32_mag r = nat k" using True quot by (simp add: f32_mag_def Let_def u)
    moreover have "r = of_nat (nat k) * 2 powi (- 149)" using kpos by (simp only: of_nat_nat less_imp_le ku)
    ultimately show thesis using that(1) [of "nat k"] kpos by (simp only: nat_less_iff less_imp_le zero_less_nat_eq) simp
  next
    case False
    then have u: "?u = ?l - 23" using u by simp
    have ku: "of_int k * 2 powi (?l - 23) = r" using k unfolding u by (rule sym)
    have "?l < 128" using assms(2,3) by (intro ilog2_less) auto
    have lo: "2 ^ 23 \<le> k" and hi: "k < 2 ^ 24"
    proof -
      have "(2::rat) ^ 23 * 2 powi (?l - 23) \<le> of_int k * 2 powi (?l - 23)"
        using ilog2_bounds(1) [OF assms(2)] powi2_split [of 23 "?l - 23"] unfolding ku by simp
      then have "(of_int (2 ^ 23) :: rat) \<le> of_int k" by simp
      then show "2 ^ 23 \<le> k" by (subst (asm) of_int_le_iff)
      have "of_int k * 2 powi (?l - 23) < (2::rat) ^ 24 * 2 powi (?l - 23)"
        using ilog2_bounds(2) [OF assms(2)] powi2_split [of 24 "?l - 23"] unfolding ku by (simp add: add.commute)
      then have "(of_int k :: rat) < of_int (2 ^ 24)" by simp
      then show "k < 2 ^ 24" by (subst (asm) of_int_less_iff)
    qed
    let ?e = "nat (?l + 127)"
    let ?k = "nat k - 2 ^ 23"
    have "f32_mag r = ?e * 2 ^ 23 + ?k" using False quot by (simp add: f32_mag_def Let_def u)
    moreover have "?k < 2 ^ 23" "1 \<le> ?e" "?e < 255" using lo hi False \<open>?l < 128\<close> by auto
    moreover have "r = of_nat (2 ^ 23 + ?k) * 2 powi (int ?e - 150)"
    proof -
      have "2 ^ 23 + ?k = nat k" using lo by simp
      moreover have "int ?e - 150 = ?l - 23" using False by simp
      moreover have "(of_nat (nat k) :: rat) = of_int k" using kpos by simp
      ultimately show ?thesis using ku by simp
    qed
    ultimately show thesis using that(2) by blast
  qed
qed

lemma f32_mag_bound: "representable 24 (- 149) r \<Longrightarrow> 0 < r \<Longrightarrow> r < 2 ^ 128 \<Longrightarrow> f32_mag r < 2 ^ 31"
  by (erule (2) f32_mag_cases) (simp_all only: power_numeral Num.pow.simps Num.sqr.simps, simp_all)

lemma f32_encode_bound: "f32_encode x < 2 ^ 32"
proof (rule to_f32_cases [of x])
  fix r assume "to_f32 x = Fin r" "r \<noteq> 0" "\<bar>r\<bar> < 2 ^ 128" "representable 24 (- 149) \<bar>r\<bar>"
  then have "f32_mag \<bar>r\<bar> < 2 ^ 31" by (intro f32_mag_bound) auto
  with \<open>to_f32 x = Fin r\<close> \<open>r \<noteq> 0\<close> show ?thesis by (cases "r < 0") (simp_all add: f32_encode_def f32_sign_def)
qed (auto simp: f32_encode_def f32_sign_def)

lemma f32_decode_mag:
  assumes "representable 24 (- 149) r" and "0 < r" and "r < 2 ^ 128"
  shows "f32_decode (f32_sign s + f32_mag r) = Fin (if s then - r else r)"
proof -
  have d: "f32_decode (f32_sign s + f32_mag r) = f32_value s (f32_mag r div 2 ^ 23) (f32_mag r mod 2 ^ 23)"
    by (simp only: f32_decode_def f32_fields [OF f32_mag_bound [OF assms]])
  show ?thesis
  proof (rule f32_mag_cases [OF assms])
    fix k assume k: "f32_mag r = k" "k < 2 ^ 23" "0 < k" "r = of_nat k * 2 powi (- 149)"
    from k(1,2) have "f32_mag r div 2 ^ 23 = 0" "f32_mag r mod 2 ^ 23 = k" by simp_all
    then show ?thesis unfolding d using assms(2) k(4) [symmetric] by (simp add: f32_value_def del: power_int_minus)
  next
    fix k e assume k: "f32_mag r = e * 2 ^ 23 + k" "k < 2 ^ 23" "1 \<le> e" "e < 255"
      "r = of_nat (2 ^ 23 + k) * 2 powi (int e - 150)"
    from k(1,2) have "f32_mag r div 2 ^ 23 = e" "f32_mag r mod 2 ^ 23 = k" by simp_all
    then show ?thesis unfolding d using assms(2) k(3,4) k(5) [symmetric] by (simp add: f32_value_def)
  qed
qed

theorem f32_decode_encode: "f32_decode (f32_encode x) = to_f32 x"
proof (rule to_f32_cases [of x])
  fix r assume "to_f32 x = Fin r" "r \<noteq> 0" "\<bar>r\<bar> < 2 ^ 128" "representable 24 (- 149) \<bar>r\<bar>"
  with f32_decode_mag [of "\<bar>r\<bar>" "r < 0"] show ?thesis by (simp add: f32_encode_def)
qed (auto simp: f32_encode_def f32_decode_def f32_value_def f32_sign_def)

text \<open>Integers of up to 24 bits are values of binary32.\<close>

lemma to_f32_int: "\<bar>n\<bar> \<le> 2 ^ 24 \<Longrightarrow> to_f32 (jint n) = jint n"
proof -
  assume n: "\<bar>n\<bar> \<le> 2 ^ 24"
  then have "representable 24 (- 149) (of_int n)" by (intro representableI [of _ n 0]) auto
  then have r: "rnd32 (of_int n) = of_int n" unfolding rnd32_def by (rule rnd_representable) simp
  have "\<bar>n\<bar> < 2 ^ 128" using n by simp
  then have "\<bar>of_int n :: rat\<bar> < 2 ^ 128" by (metis of_int_abs of_int_less_iff of_int_numeral of_int_power)
  with r show ?thesis by (simp add: Let_def)
qed

text \<open>A pattern of 32 bits decodes to a value of binary32.\<close>

lemma f32_decode_is_f32: "is_f32 (f32_decode b)"
proof -
  define ex fr where "ex = (b div 2 ^ 23) mod 256" and "fr = b mod 2 ^ 23"
  have ex: "ex < 256" and fr: "fr < 2 ^ 23" by (simp_all add: ex_def fr_def)
  define mag :: rat where "mag = (if ex = 0 then of_nat fr * 2 powi (- 149) else of_nat (2 ^ 23 + fr) * 2 powi (int ex - 150))"
  have rep: "representable 24 (- 149) mag"
  proof (cases "ex = 0")
    case True
    then show ?thesis using fr by (intro representableI [of _ "int fr" "- 149"]) (auto simp: mag_def)
  next
    case False
    then show ?thesis using fr by (intro representableI [of _ "int (2 ^ 23 + fr)" "int ex - 150"]) (auto simp: mag_def)
  qed
  then have r: "rnd32 mag = mag" "rnd32 (- mag) = - mag"
  proof -
    from rep obtain n e where "mag = of_int n * 2 powi e" "\<bar>n\<bar> \<le> 2 ^ nat 24" "- 149 \<le> e" by (auto simp: representable_def)
    then have "representable 24 (- 149) (- mag)" by (intro representableI [of _ "- n" e]) auto
    then show "rnd32 (- mag) = - mag" unfolding rnd32_def by (rule rnd_representable) simp
    show "rnd32 mag = mag" unfolding rnd32_def using rep by (rule rnd_representable) simp
  qed
  have "mag < 2 ^ 128" if "ex \<noteq> 255"
  proof -
    have e: "(2::rat) powi (int ex - 150) \<le> 2 powi 104" using ex that by (intro power_int_increasing) auto
    have "(of_nat (2 ^ 23 + fr) :: rat) < 2 ^ 24" using fr of_nat_less_iff [of "2 ^ 23 + fr" "2 ^ 24", where 'a = rat] by simp
    then have "of_nat (2 ^ 23 + fr) * 2 powi (int ex - 150) < (2 ^ 24 :: rat) * 2 powi 104" using e by (intro mult_less_le_imp_less) auto
    moreover have "(2 ^ 24 :: rat) * 2 powi 104 = 2 ^ 128" by simp
    moreover have "of_nat fr * 2 powi (- 149) < (2 ^ 128 :: rat)"
    proof -
      have "(2::rat) powi (- 149) \<le> 2 powi 0" by (intro power_int_increasing) auto
      then have "of_nat fr * 2 powi (- 149) \<le> (of_nat fr :: rat)" by (simp add: mult_left_le)
      moreover have "(of_nat fr :: rat) < 2 ^ 23" using fr of_nat_less_iff [of fr "2 ^ 23", where 'a = rat] by simp
      ultimately show ?thesis by simp
    qed
    ultimately show ?thesis by (simp add: mag_def)
  qed
  moreover have "0 \<le> mag" by (simp add: mag_def)
  moreover have "f32_decode b = (if ex = 255 then (if fr = 0 then Infinity (odd (b div 2 ^ 31)) else NaN)
      else if mag = 0 then (if odd (b div 2 ^ 31) then NegZero else Fin 0) else Fin (if odd (b div 2 ^ 31) then - mag else mag))"
    by (simp only: f32_decode_def f32_value_def Let_def ex_def fr_def mag_def)
  moreover have "to_f32 (Fin mag) = Fin mag" "to_f32 (Fin (- mag)) = Fin (- mag)" if "mag \<noteq> 0" "0 \<le> mag" "mag < 2 ^ 128"
    using r that by (simp_all add: Let_def)
  moreover have "to_f32 (Fin 0) = Fin 0" by (simp add: rnd32_def)
  ultimately show ?thesis unfolding is_f32_def by (simp del: to_f32.simps(1))
qed

end
