(* ===== verification/Msg.thy ===== *)
theory Msg
  imports Float32
begin

text \<open>
  The message class of the browser client, \<open>web/socket/msg.js\<close>: the constructor, the size of a
  message, the decoder of one message and of a vector of messages, and the encoder, over
  \<open>ArrayBuffer\<close>s as byte lists. The typed array of the payload has the byte order of the platform,
  which is little endian on every browser the client runs on.

  The lemmas give the layout of an encoded message, that timestamps in whole milliseconds pass
  through the two 32-bit fields unchanged although they are computed in floating point, and that
  the vector decoder stops on every input and reads back a concatenation of encoded messages.
\<close>

unbundle bit_operations_syntax

subsection \<open>Messages\<close>

text \<open>The argument of the constructor: an object in which every property may be missing. An
  \<open>id\<close> property is passed by the decoder but never read.\<close>

record msg_args =
  c_sequence :: "nat option"
  c_length :: "nat option"
  c_version :: "nat option"
  c_type :: "nat option"
  c_timestamp :: "jsnum option"
  c_data :: "jsnum list option"
  c_id :: "nat option"

definition no_args :: msg_args where
  "no_args = \<lparr>c_sequence = None, c_length = None, c_version = None, c_type = None,
     c_timestamp = None, c_data = None, c_id = None\<rparr>"

text \<open>A message. The blob is a view, held as its offset in the buffer and its length in bytes.\<close>

record msg =
  m_sequence :: nat
  m_length :: nat
  m_version :: nat
  m_type :: nat
  m_timestamp :: jsnum
  m_data :: "jsnum list option"
  m_blob :: "(nat \<times> nat) option"

definition VERSION :: nat where "VERSION = 2"
definition TYPE_DATA :: nat where "TYPE_DATA = 0"
definition OFFSET_TYPE :: nat where "OFFSET_TYPE = 2"
definition OFFSET_VERSION :: nat where "OFFSET_VERSION = 4"

lemmas msg_consts [simp] = VERSION_def TYPE_DATA_def OFFSET_TYPE_def OFFSET_VERSION_def

definition with_default :: "'a \<Rightarrow> 'a option \<Rightarrow> 'a" where
  "with_default d c = (case c of None \<Rightarrow> d | Some x \<Rightarrow> x)"

text \<open>\<open>new Msg(c)\<close>, with the clock reading \<open>now\<close>; \<open>None\<close> is a call without argument.\<close>

definition Msg :: "jsnum \<Rightarrow> msg_args option \<Rightarrow> msg js" where
  "Msg now arg = (case arg of
     None \<Rightarrow> Inl TypeError
   | Some c \<Rightarrow>
      (let m = \<lparr>m_sequence = with_default 0 (c_sequence c),
                m_length = with_default 0 (c_length c),
                m_version = with_default VERSION (c_version c),
                m_type = with_default TYPE_DATA (c_type c),
                m_timestamp = with_default now (c_timestamp c),
                m_data = None, m_blob = None\<rparr>
       in case c_data c of
            None \<Rightarrow> Inr m
          | Some d \<Rightarrow> Inr (m\<lparr>m_length := length d, m_data := Some d\<rparr>)))"

definition Msg_bytes :: "nat \<Rightarrow> nat" where
  "Msg_bytes len = len * 4 + 16"

subsection \<open>Views of a buffer\<close>

record data_view =
  dv_buffer :: "byte list"
  dv_offset :: nat
  dv_length :: nat

definition DataView :: "byte list \<Rightarrow> nat \<Rightarrow> nat option \<Rightarrow> data_view js" where
  "DataView buf off len =
     (if length buf < off then Inl RangeError
      else case len of
             None \<Rightarrow> Inr \<lparr>dv_buffer = buf, dv_offset = off, dv_length = length buf - off\<rparr>
           | Some l \<Rightarrow> if off + l \<le> length buf
                       then Inr \<lparr>dv_buffer = buf, dv_offset = off, dv_length = l\<rparr>
                       else Inl RangeError)"

definition dv_get :: "nat \<Rightarrow> data_view \<Rightarrow> nat \<Rightarrow> nat js" where
  "dv_get n v i = (if i + n \<le> dv_length v then get_le n (dv_buffer v) (dv_offset v + i) else Inl RangeError)"

text \<open>\<open>new Float32Array(buffer, offset, n)\<close> read as an array of numbers.\<close>

fun f32_list :: "byte list \<Rightarrow> nat \<Rightarrow> nat \<Rightarrow> jsnum list" where
  "f32_list buf off 0 = []"
| "f32_list buf off (Suc n) = f32_decode (le_val (take 4 (drop off buf))) # f32_list buf (off + 4) n"

definition Float32Array :: "byte list \<Rightarrow> nat \<Rightarrow> nat \<Rightarrow> jsnum list js" where
  "Float32Array buf off n =
     (if off mod 4 = 0 \<and> off + 4 * n \<le> length buf then Inr (f32_list buf off n) else Inl RangeError)"

subsection \<open>Decoding\<close>

definition lit_1em6 :: jsnum where
  "lit_1em6 = to_num False (1 / 10 ^ 6)"

definition decode_timestamp :: "nat \<Rightarrow> nat \<Rightarrow> jsnum" where
  "decode_timestamp sec nsec =
     js_add (js_mul (jnat sec) (Fin 1000)) (js_mul (jnat nsec) lit_1em6)"

definition fromArrayBuffer :: "jsnum \<Rightarrow> data_view \<Rightarrow> msg js" where
  "fromArrayBuffer now data =
     js_bind (dv_get 1 data 0) (\<lambda>bits.
     js_bind (dv_get 1 data 0x01) (\<lambda>id.
     js_bind (dv_get 2 data 0x02) (\<lambda>len.
     js_bind (dv_get 4 data 0x04) (\<lambda>seq.
     js_bind (dv_get 4 data 0x08) (\<lambda>sec.
     js_bind (dv_get 4 data 0x0C) (\<lambda>nsec.
     js_bind (Msg now (Some (no_args\<lparr>
         c_version := Some (drop_bit OFFSET_VERSION bits AND 0xF),
         c_type := Some (drop_bit OFFSET_TYPE bits AND 0x3),
         c_id := Some id,
         c_length := Some len,
         c_sequence := Some seq,
         c_timestamp := Some (decode_timestamp sec nsec)\<rparr>))) (\<lambda>m.
     js_bind (DataView (dv_buffer data) (dv_offset data + 0x00) (Some (Msg_bytes (m_length m)))) (\<lambda>blob.
     js_bind (Float32Array (dv_buffer data) (dv_offset data + 0x10) (m_length m)) (\<lambda>vals.
     Inr (m\<lparr>m_blob := Some (dv_offset blob, dv_length blob), m_data := Some vals\<rparr>))))))))))"

definition blob_byteLength :: "msg \<Rightarrow> nat" where
  "blob_byteLength m = (case m_blob m of None \<Rightarrow> 0 | Some (off, len) \<Rightarrow> len)"

lemma fromArrayBuffer_blob:
  "fromArrayBuffer now v = Inr m \<Longrightarrow> blob_byteLength m = Msg_bytes (m_length m)"
  by (auto simp: fromArrayBuffer_def js_bind_eq_Inr DataView_def blob_byteLength_def split: if_splits)

text \<open>The loop over a received blob. The test \<open>msg != undefined\<close> of the source always holds, since
  the decoder returns an object or throws.\<close>

function vector_loop :: "jsnum \<Rightarrow> byte list \<Rightarrow> nat \<Rightarrow> msg list js" where
  "vector_loop now blob offset =
     (if offset < length blob then
        (case js_bind (DataView blob offset None) (fromArrayBuffer now) of
           Inl e \<Rightarrow> Inl e
         | Inr m \<Rightarrow> js_bind (vector_loop now blob (offset + blob_byteLength m)) (\<lambda>ms. Inr (m # ms)))
      else Inr [])"
  by pat_completeness auto
termination
  by (relation "measure (\<lambda>(now, blob, offset). length blob - offset)")
    (auto simp: js_bind_eq_Inr Msg_bytes_def dest!: fromArrayBuffer_blob)

declare vector_loop.simps [simp del]

definition fromArrayBufferVector :: "jsnum \<Rightarrow> byte list \<Rightarrow> msg list js" where
  "fromArrayBufferVector now blob = vector_loop now blob 0"

subsection \<open>Encoding\<close>

definition ts_sec :: "jsnum \<Rightarrow> jsnum" where
  "ts_sec t = js_floor (js_div t (Fin 1000))"

definition ts_nsec :: "jsnum \<Rightarrow> jsnum" where
  "ts_nsec t = js_mul (js_sub t (js_mul (ts_sec t) (Fin 1000))) (Fin 1000000)"

text \<open>\<open>data.set(this.data)\<close> on the typed array of \<open>n\<close> elements at \<open>off\<close>.\<close>

fun f32_store :: "byte list \<Rightarrow> nat \<Rightarrow> jsnum list \<Rightarrow> byte list" where
  "f32_store buf off [] = buf"
| "f32_store buf off (x # xs) =
     f32_store (take off buf @ le_bytes 4 (f32_encode x) @ drop (off + 4) buf) (off + 4) xs"

definition f32_set :: "byte list \<Rightarrow> nat \<Rightarrow> nat \<Rightarrow> jsnum list option \<Rightarrow> byte list js" where
  "f32_set buf off n d = (case d of
     None \<Rightarrow> Inl TypeError
   | Some xs \<Rightarrow> if length xs \<le> n then Inr (f32_store buf off xs) else Inl RangeError)"

definition toArrayBuffer :: "msg \<Rightarrow> byte list js" where
  "toArrayBuffer m =
     (let buffer = replicate (Msg_bytes (m_length m)) 0;
          bits = push_bit OFFSET_VERSION (m_version m AND 0xF);
          bits = bits OR push_bit OFFSET_TYPE (m_type m AND 0x3)
      in js_bind (set_le 1 0x00 bits buffer) (\<lambda>buffer.
         js_bind (set_le 2 0x02 (m_length m) buffer) (\<lambda>buffer.
         js_bind (set_le 4 0x04 (m_sequence m) buffer) (\<lambda>buffer.
         js_bind (set_le 4 0x08 (to_uint 32 (ts_sec (m_timestamp m))) buffer) (\<lambda>buffer.
         js_bind (set_le 4 0x0C (to_uint 32 (ts_nsec (m_timestamp m))) buffer) (\<lambda>buffer.
         f32_set buffer 0x10 (m_length m) (m_data m)))))))"

subsection \<open>The bit fields of the first byte\<close>

definition head_bits :: "nat \<Rightarrow> nat \<Rightarrow> nat" where
  "head_bits v t = push_bit OFFSET_VERSION (v AND 0xF) OR push_bit OFFSET_TYPE (t AND 0x3)"

lemma and_15: "(x::nat) AND 0xF = x mod 16" and and_3: "(x::nat) AND 0x3 = x mod 4"
  using take_bit_eq_mask [of 4 x] take_bit_eq_mask [of 2 x]
  by (simp_all add: mask_eq_exp_minus_1 take_bit_eq_mod)

lemma head_bits_sum: "head_bits v t = (v mod 16) * 16 + (t mod 4) * 4"
proof -
  have "push_bit 4 a AND push_bit 2 (take_bit 2 b) = 0" for a b :: nat
    by (rule bit_eqI) (auto simp: bit_simps)
  from disjunctive_add_eq_or [OF this, of "v mod 16" t] show ?thesis
    by (simp add: head_bits_def and_15 and_3 push_bit_eq_mult take_bit_eq_mod)
qed

lemma head_bits_fields:
  "drop_bit OFFSET_VERSION (head_bits v t) AND 0xF = v mod 16"
  "drop_bit OFFSET_TYPE (head_bits v t) AND 0x3 = t mod 4"
  "head_bits v t < 256"
proof -
  have v: "v mod 16 < 16" and t: "t mod 4 < 4" by auto
  show "drop_bit OFFSET_VERSION (head_bits v t) AND 0xF = v mod 16"
    using t by (simp add: head_bits_sum and_15 drop_bit_eq_div)
  have "((v mod 16) * 16 + (t mod 4) * 4) div 4 = (v mod 16) * 4 + t mod 4" by simp
  then show "drop_bit OFFSET_TYPE (head_bits v t) AND 0x3 = t mod 4"
    by (simp add: head_bits_sum and_3 drop_bit_eq_div)
  show "head_bits v t < 256" using v t by (simp add: head_bits_sum)
qed

subsection \<open>Timestamps\<close>

lemma lit_1em6_val: "lit_1em6 = Fin (4722366482869645 / 4722366482869645213696)"
  by code_simp

lemma floor_rnd64_div1000:
  assumes "t < 2 ^ 32 * 1000"
  shows "\<lfloor>rnd64 (of_nat t / 1000)\<rfloor> = int (t div 1000)"
proof (cases "t = 0")
  case True
  then show ?thesis by (simp add: rnd64_def)
next
  case False
  let ?q = "of_nat t / 1000 :: rat"
  let ?n = "int (t div 1000)"
  have t: "t = (t div 1000) * 1000 + t mod 1000" by simp
  then have tq: "(of_nat t :: rat) = of_nat (t div 1000) * 1000 + of_nat (t mod 1000)"
    by (metis of_nat_add of_nat_mult of_nat_numeral)
  have md: "(of_nat (t mod 1000) :: rat) \<le> 999"
    using of_nat_le_iff [of "t mod 1000" 999, where ?'a = rat] by simp
  have lo: "of_int ?n \<le> ?q" and hi: "?q \<le> of_int ?n + 999 / 1000"
    using tq md by (simp_all add: field_simps)
  have "t div 1000 < 2 ^ 32" using assms by (simp add: less_mult_imp_div_less mult.commute)
  then have ge: "of_int ?n \<le> rnd64 ?q" by (intro rnd64_ge_int lo) simp
  have q0: "0 < ?q" using False by simp
  have "?q < 2 powi 32"
    using assms of_nat_less_iff [of t "2 ^ 32 * 1000", where ?'a = rat] by simp
  then have "ilog2 ?q < 32" using q0 by (intro ilog2_less)
  then have "ulp_exp 53 (- 1074) ?q \<le> - 21" using q0 by (simp add: ulp_exp_def)
  then have "(2::rat) powi ulp_exp 53 (- 1074) ?q \<le> 2 powi (- 21)" by (subst powi2_le_iff)
  moreover have "\<bar>rnd64 ?q - ?q\<bar> \<le> 2 powi ulp_exp 53 (- 1074) ?q / 2"
    unfolding rnd64_def using q0 by (intro rnd_error) simp
  ultimately have "\<bar>rnd64 ?q - ?q\<bar> \<le> 2 powi (- 21) / 2" by linarith
  moreover have "(2::rat) powi (- 21) / 2 < 1 / 1000" by (simp add: power_int_minus)
  ultimately have "rnd64 ?q < of_int ?n + 1" using hi unfolding abs_le_iff by linarith
  with ge show ?thesis by (simp add: floor_eq_iff)
qed

lemma js_floor_to_num:
  "\<bar>rnd64 q\<bar> < 2 ^ 1024 \<Longrightarrow> js_floor (to_num False q) = Fin (of_int \<lfloor>rnd64 q\<rfloor>)"
  by (simp add: to_num_def Let_def)

lemma rnd64_abs_bound: "\<bar>rnd64 q\<bar> \<le> 2 ^ 53 \<Longrightarrow> \<bar>rnd64 q\<bar> < 2 ^ 1024"
  using two_53_le by linarith

lemma ts_sec_exact:
  assumes "t < 2 ^ 32 * 1000"
  shows "ts_sec (jnat t) = jnat (t div 1000)"
proof -
  have q: "of_int 0 \<le> (of_nat t / 1000 :: rat)" "(of_nat t / 1000 :: rat) \<le> of_int (2 ^ 53)"
    using assms of_nat_less_iff [of t "2 ^ 32 * 1000", where ?'a = rat] by simp_all
  have "\<bar>rnd64 (of_nat t / 1000)\<bar> \<le> 2 ^ 53"
    using rnd64_ge_int [OF q(1)] rnd64_le_int [OF q(2)] by simp
  from js_floor_to_num [OF rnd64_abs_bound [OF this]] show ?thesis
    by (simp add: ts_sec_def floor_rnd64_div1000 [OF assms])
qed

lemma ts_nsec_exact:
  assumes "t < 2 ^ 32 * 1000"
  shows "ts_nsec (jnat t) = jnat (t mod 1000 * 1000000)"
proof -
  have b: "t div 1000 * 1000 \<le> 2 ^ 53" "t mod 1000 \<le> 999" using assms by auto
  have 1: "js_mul (jnat (t div 1000)) (Fin 1000) = jnat (t div 1000 * 1000)"
    using js_mul_int [of "int (t div 1000)" 1000] assms by simp
  have 2: "js_sub (jnat t) (jnat (t div 1000 * 1000)) = jnat (t mod 1000)"
  proof -
    have e: "int t - int (t div 1000 * 1000) = int (t mod 1000)"
      by (simp add: minus_div_mult_eq_mod [symmetric] zdiv_int)
    have "\<bar>int t - int (t div 1000 * 1000)\<bar> \<le> 2 ^ 53" unfolding e using b(2) by simp
    from js_sub_int [OF this] show ?thesis unfolding e by (simp only: of_int_of_nat_eq)
  qed
  have 3: "js_mul (jnat (t mod 1000)) (Fin 1000000) = jnat (t mod 1000 * 1000000)"
    using js_mul_int [of "int (t mod 1000)" 1000000] b(2) by simp
  show ?thesis by (simp only: ts_nsec_def ts_sec_exact [OF assms] 1 2 3)
qed

lemma rnd64_nsec:
  assumes "k < 1000"
  shows "rnd64 (of_nat (k * 1000000) * (4722366482869645 / 4722366482869645213696)) = of_nat k"
proof (cases "k = 0")
  case False
  have "(of_nat (k * 1000000) * (4722366482869645 / 4722366482869645213696) :: rat) - of_nat k
      = of_nat k * (4722366482869645000000 / 4722366482869645213696 - 1)" by (simp add: algebra_simps)
  then have "\<bar>(of_nat (k * 1000000) * (4722366482869645 / 4722366482869645213696) :: rat) - of_int (int k)\<bar>
      < of_int (int k) / 2 ^ 54"
    using False by (simp add: abs_mult)
  from rnd64_near_int [OF _ _ this] assms False show ?thesis by simp
qed (simp add: rnd64_def)

lemma encoded_timestamp_fields:
  assumes "t < 2 ^ 32 * 1000"
  shows "to_uint 32 (ts_sec (jnat t)) = t div 1000" and "to_uint 32 (ts_nsec (jnat t)) = t mod 1000 * 1000000"
proof -
  have "t div 1000 < 2 ^ 32" using assms by (simp add: less_mult_imp_div_less mult.commute)
  then show "to_uint 32 (ts_sec (jnat t)) = t div 1000" by (simp add: ts_sec_exact [OF assms])
  have "t mod 1000 * 1000000 < 2 ^ 32" by (rule le_less_trans [of _ "999 * 1000000"]) auto
  then show "to_uint 32 (ts_nsec (jnat t)) = t mod 1000 * 1000000"
    by (simp only: ts_nsec_exact [OF assms] to_uint_nat mod_less)
qed

lemma decode_encode_timestamp:
  assumes "t < 2 ^ 32 * 1000"
  shows "decode_timestamp (to_uint 32 (ts_sec (jnat t))) (to_uint 32 (ts_nsec (jnat t))) = jnat t"
proof -
  let ?s = "t div 1000" and ?k = "t mod 1000"
  have s: "?s < 2 ^ 32" using assms by (simp add: less_mult_imp_div_less mult.commute)
  have k: "?k < 1000" by simp
  have 1: "js_mul (jnat ?s) (Fin 1000) = jnat (?s * 1000)"
    using js_mul_int [of "int ?s" 1000] s by simp
  have 2: "js_mul (jnat (?k * 1000000)) lit_1em6 = jnat ?k"
    using k abs_int_less_2_1024 [of "int ?k"]
    by (simp add: lit_1em6_val to_num_def Let_def rnd64_nsec [OF k, simplified])
  have 3: "js_add (jnat (?s * 1000)) (jnat ?k) = jnat t"
  proof -
    have "\<bar>int (?s * 1000) + int ?k\<bar> \<le> 2 ^ 53" using assms by simp
    from js_add_int [OF this] show ?thesis by (simp only: of_nat_add [symmetric] of_int_of_nat_eq div_mult_mod_eq)
  qed
  note u1 = encoded_timestamp_fields(1) [OF assms] and u2 = encoded_timestamp_fields(2) [OF assms]
  show ?thesis unfolding decode_timestamp_def u1 u2 1 2 3 ..
qed

subsection \<open>The layout of a message\<close>

definition header_bytes :: "nat \<Rightarrow> nat \<Rightarrow> nat \<Rightarrow> nat \<Rightarrow> nat \<Rightarrow> nat \<Rightarrow> byte list" where
  "header_bytes bits i len seq sec nsec =
     le_bytes 1 bits @ le_bytes 1 i @ le_bytes 2 len @ le_bytes 4 seq @ le_bytes 4 sec @ le_bytes 4 nsec"

definition payload_bytes :: "nat list \<Rightarrow> byte list" where
  "payload_bytes ws = concat (map (le_bytes 4) ws)"

lemma length_header_bytes [simp, wire]: "length (header_bytes b i l q s n) = 16"
  by (simp add: header_bytes_def)

lemma length_payload_bytes [simp, wire]: "length (payload_bytes ws) = 4 * length ws"
  by (induction ws) (auto simp: payload_bytes_def)

lemma payload_Cons: "payload_bytes (w # ws) = le_bytes 4 w @ payload_bytes ws"
  by (simp add: payload_bytes_def)

lemma set_le_middle:
  "length a = off \<Longrightarrow> length b = n \<Longrightarrow> set_le n off v (a @ b @ c) = Inr (a @ le_bytes n v @ c)"
  by (simp add: set_le_def)

lemma get_le_middle:
  "length a = off \<Longrightarrow> v < 256 ^ n \<Longrightarrow> get_le n (a @ le_bytes n v @ c) off = Inr v"
  by (simp add: get_le_def le_val_le_bytes_id)

lemma f32_store_payload:
  "length a = off \<Longrightarrow> length b = 4 * length xs \<Longrightarrow>
   f32_store (a @ b @ c) off xs = a @ payload_bytes (map f32_encode xs) @ c"
proof (induction xs arbitrary: a b off)
  case (Cons x xs)
  let ?a = "a @ le_bytes 4 (f32_encode x)"
  have "take off (a @ b @ c) @ le_bytes 4 (f32_encode x) @ drop (off + 4) (a @ b @ c) = ?a @ drop 4 b @ c"
    using Cons.prems by simp
  then show ?case
    using Cons.IH [of ?a "off + 4" "drop 4 b"] Cons.prems by (simp add: payload_Cons)
qed (simp add: payload_bytes_def)

lemma f32_list_payload:
  "length a = off \<Longrightarrow> list_all (\<lambda>w. w < 2 ^ 32) ws \<Longrightarrow>
   f32_list (a @ payload_bytes ws @ c) off (length ws) = map f32_decode ws"
proof (induction ws arbitrary: a off)
  case (Cons w ws)
  then have "le_val (le_bytes 4 w) = w" by (intro le_val_le_bytes_id) simp
  then show ?case
    using Cons.IH [of "a @ le_bytes 4 w" "off + 4"] Cons.prems by (simp add: payload_Cons)
qed simp

text \<open>A header followed by its payload, anywhere in a buffer at a multiple of four, decodes to its
  fields.\<close>

lemma fromArrayBuffer_layout:
  assumes pre: "length pre mod 4 = 0"
    and b: "bits < 256" "i < 256" "length ws < 2 ^ 16" "seq < 2 ^ 32" "sec < 2 ^ 32" "nsec < 2 ^ 32"
    and ws: "list_all (\<lambda>w. w < 2 ^ 32) ws"
  shows "js_bind (DataView (pre @ header_bytes bits i (length ws) seq sec nsec @ payload_bytes ws @ post)
             (length pre) None) (fromArrayBuffer now) =
     Inr \<lparr>m_sequence = seq, m_length = length ws,
       m_version = drop_bit OFFSET_VERSION bits AND 0xF, m_type = drop_bit OFFSET_TYPE bits AND 0x3,
       m_timestamp = decode_timestamp sec nsec, m_data = Some (map f32_decode ws),
       m_blob = Some (length pre, Msg_bytes (length ws))\<rparr>"
proof -
  let ?f = "le_bytes 1 bits @ le_bytes 1 i @ le_bytes 2 (length ws) @ le_bytes 4 seq @ le_bytes 4 sec
     @ le_bytes 4 nsec @ payload_bytes ws @ post"
  let ?buf = "pre @ ?f"
  let ?n = "length pre"
  have g: "get_le 1 ?buf ?n = Inr bits" "get_le 1 ?buf (?n + 1) = Inr i"
    "get_le 2 ?buf (?n + 2) = Inr (length ws)" "get_le 4 ?buf (?n + 4) = Inr seq"
    "get_le 4 ?buf (?n + 8) = Inr sec" "get_le 4 ?buf (?n + 12) = Inr nsec"
    using get_le_middle [of pre ?n bits 1] b
      get_le_middle [of "pre @ le_bytes 1 bits" "?n + 1" i 1]
      get_le_middle [of "pre @ le_bytes 1 bits @ le_bytes 1 i" "?n + 2" "length ws" 2]
      get_le_middle [of "pre @ le_bytes 1 bits @ le_bytes 1 i @ le_bytes 2 (length ws)" "?n + 4" seq 4]
      get_le_middle [of "pre @ le_bytes 1 bits @ le_bytes 1 i @ le_bytes 2 (length ws) @ le_bytes 4 seq" "?n + 8" sec 4]
      get_le_middle [of "pre @ le_bytes 1 bits @ le_bytes 1 i @ le_bytes 2 (length ws) @ le_bytes 4 seq @ le_bytes 4 sec" "?n + 12" nsec 4]
    by (simp_all only: append_assoc length_append length_le_bytes) simp_all
  have p: "f32_list ?buf (?n + 16) (length ws) = map f32_decode ws"
    using f32_list_payload [of "pre @ header_bytes bits i (length ws) seq sec nsec" "?n + 16" ws post] ws
    by (simp only: header_bytes_def append_assoc length_append length_le_bytes)
  have "(?n + 16) mod 4 = 0" using pre by (simp add: mod_add_eq [symmetric])
  then show ?thesis
    by (simp add: header_bytes_def DataView_def fromArrayBuffer_def dv_get_def g p Msg_def no_args_def
        with_default_def Float32Array_def Msg_bytes_def 
        del: msg_consts le_bytes.simps One_nat_def add_2_eq_Suc add_2_eq_Suc')
qed

lemma toArrayBuffer_layout:
  assumes "m_data m = Some xs" and "m_length m = length xs"
  shows "toArrayBuffer m = Inr (header_bytes (head_bits (m_version m) (m_type m)) 0 (m_length m) (m_sequence m)
     (to_uint 32 (ts_sec (m_timestamp m))) (to_uint 32 (ts_nsec (m_timestamp m)))
     @ payload_bytes (map f32_encode xs))"
proof -
  let ?z = "\<lambda>n. replicate n (0::byte)"
  let ?sec = "to_uint 32 (ts_sec (m_timestamp m))" and ?nsec = "to_uint 32 (ts_nsec (m_timestamp m))"
  let ?b = "le_bytes 1 (head_bits (m_version m) (m_type m))"
  let ?l = "le_bytes 2 (m_length m)" and ?q = "le_bytes 4 (m_sequence m)"
  have z: "?z (Msg_bytes (m_length m)) = [] @ ?z 1 @ (?z 1 @ ?z 2 @ ?z 4 @ ?z 4 @ ?z 4 @ ?z (4 * length xs))"
    by (simp add: Msg_bytes_def assms(2) replicate_add [symmetric] add.commute del: replicate.simps One_nat_def)
  note set = set_le_middle [of _ _ "?z 1" 1] set_le_middle [of _ _ "?z 2" 2] set_le_middle [of _ _ "?z 4" 4]
  have 1: "set_le 1 0 (head_bits (m_version m) (m_type m)) (?z (Msg_bytes (m_length m)))
      = Inr ((?b @ ?z 1) @ ?z 2 @ (?z 4 @ ?z 4 @ ?z 4 @ ?z (4 * length xs)))"
    unfolding z by (subst set) simp_all
  have 2: "set_le 2 2 (m_length m) ((?b @ ?z 1) @ ?z 2 @ (?z 4 @ ?z 4 @ ?z 4 @ ?z (4 * length xs)))
      = Inr ((?b @ ?z 1 @ ?l) @ ?z 4 @ (?z 4 @ ?z 4 @ ?z (4 * length xs)))"
    by (subst set) simp_all
  have 3: "set_le 4 4 (m_sequence m) ((?b @ ?z 1 @ ?l) @ ?z 4 @ (?z 4 @ ?z 4 @ ?z (4 * length xs)))
      = Inr ((?b @ ?z 1 @ ?l @ ?q) @ ?z 4 @ (?z 4 @ ?z (4 * length xs)))"
    by (subst set) simp_all
  have 4: "set_le 4 8 ?sec ((?b @ ?z 1 @ ?l @ ?q) @ ?z 4 @ (?z 4 @ ?z (4 * length xs)))
      = Inr ((?b @ ?z 1 @ ?l @ ?q @ le_bytes 4 ?sec) @ ?z 4 @ ?z (4 * length xs))"
    by (subst set) simp_all
  have 5: "set_le 4 12 ?nsec ((?b @ ?z 1 @ ?l @ ?q @ le_bytes 4 ?sec) @ ?z 4 @ ?z (4 * length xs))
      = Inr ((?b @ ?z 1 @ ?l @ ?q @ le_bytes 4 ?sec @ le_bytes 4 ?nsec) @ ?z (4 * length xs) @ [])"
    by (subst set) simp_all
  have 6: "f32_set ((?b @ ?z 1 @ ?l @ ?q @ le_bytes 4 ?sec @ le_bytes 4 ?nsec) @ ?z (4 * length xs) @ []) 16
        (m_length m) (m_data m)
      = Inr ((?b @ ?z 1 @ ?l @ ?q @ le_bytes 4 ?sec @ le_bytes 4 ?nsec) @ payload_bytes (map f32_encode xs) @ [])"
    using f32_store_payload [of "?b @ ?z 1 @ ?l @ ?q @ le_bytes 4 ?sec @ le_bytes 4 ?nsec" 16 "?z (4 * length xs)" xs "[]"]
    by (simp add: f32_set_def assms)
  have "le_bytes 1 0 = ?z 1" by simp
  then show ?thesis
    unfolding toArrayBuffer_def Let_def head_bits_def [symmetric] header_bytes_def
    by (simp only: 1 2 3 4 5 6 js_bind_simps) (simp only: append_assoc append_Nil2)
qed

subsection \<open>Streams of messages\<close>

text \<open>
  Several writers produce messages for the decoder: the browser's encoder and the server's
  \<open>villas.web\<close> format. What the vector decoder needs of a writer is the contract of this locale: it
  emits whole aligned messages, and one of them, at an aligned place of a buffer, decodes to its
  view. Under the contract the decoder reads back every concatenation of messages.
\<close>

fun placed :: "('m \<Rightarrow> byte list) \<Rightarrow> (nat \<Rightarrow> 'm \<Rightarrow> msg) \<Rightarrow> nat \<Rightarrow> 'm list \<Rightarrow> msg list" where
  "placed enc view off [] = []"
| "placed enc view off (m # ms) = view off m # placed enc view (off + length (enc m)) ms"

definition forget_blob :: "msg \<Rightarrow> msg" where
  "forget_blob m = m\<lparr>m_blob := None\<rparr>"

locale framed_writer =
  fixes now :: jsnum
    and enc :: "'m \<Rightarrow> byte list"
    and view :: "nat \<Rightarrow> 'm \<Rightarrow> msg"
    and ok :: "'m \<Rightarrow> bool"
  assumes aligned: "ok m \<Longrightarrow> length (enc m) mod 4 = 0"
    and decodes: "ok m \<Longrightarrow> length pre mod 4 = 0 \<Longrightarrow>
      js_bind (DataView (pre @ enc m @ post) (length pre) None) (fromArrayBuffer now) = Inr (view (length pre) m)"
    and advances: "ok m \<Longrightarrow> blob_byteLength (view off m) = length (enc m)"
begin

lemma enc_nonempty: "ok m \<Longrightarrow> 0 < length (enc m)"
proof -
  assume ok: "ok m"
  with decodes [of m "[]" "[]"] obtain v where "fromArrayBuffer now v = Inr (view 0 m)"
    by (auto simp: js_bind_eq_Inr)
  then have "blob_byteLength (view 0 m) = Msg_bytes (m_length (view 0 m))" by (rule fromArrayBuffer_blob)
  with advances [OF ok, of 0] show ?thesis unfolding Msg_bytes_def by linarith
qed

lemma vector_loop_stream:
  "list_all ok ms \<Longrightarrow> length pre mod 4 = 0 \<Longrightarrow>
   vector_loop now (pre @ concat (map enc ms)) (length pre) = Inr (placed enc view (length pre) ms)"
proof (induction ms arbitrary: pre)
  case Nil
  then show ?case by (simp add: vector_loop.simps)
next
  case (Cons m ms)
  then have m: "ok m" by simp
  have al: "length (pre @ enc m) mod 4 = 0" using Cons.prems(2) aligned [OF m] by (simp add: mod_add_eq [symmetric])
  have "vector_loop now ((pre @ enc m) @ concat (map enc ms)) (length (pre @ enc m))
      = Inr (placed enc view (length (pre @ enc m)) ms)"
    using Cons.prems al by (intro Cons.IH) auto
  then show ?case
    using enc_nonempty [OF m] decodes [OF m Cons.prems(2), of "concat (map enc ms)"]
    by (subst vector_loop.simps) (simp add: advances [OF m])
qed

theorem vector_stream:
  "list_all ok ms \<Longrightarrow> fromArrayBufferVector now (concat (map enc ms)) = Inr (placed enc view 0 ms)"
  using vector_loop_stream [of ms "[]"] by (simp add: fromArrayBufferVector_def)

end

subsection \<open>The browser's own encoder as a writer\<close>

definition whole_ms :: "jsnum \<Rightarrow> bool" where
  "whole_ms t = (case t of Fin q \<Rightarrow> 0 \<le> q \<and> of_int \<lfloor>q\<rfloor> = q \<and> q < 2 ^ 32 * 1000 | _ \<Rightarrow> False)"

text \<open>A message that the format can carry: the fields fit, the data are there.\<close>

definition wf_msg :: "msg \<Rightarrow> bool" where
  "wf_msg m \<longleftrightarrow> m_version m < 16 \<and> m_type m < 4 \<and> m_sequence m < 2 ^ 32 \<and> m_length m < 2 ^ 16 \<and>
     whole_ms (m_timestamp m) \<and> (case m_data m of None \<Rightarrow> False | Some xs \<Rightarrow> length xs = m_length m)"

definition encoded :: "msg \<Rightarrow> byte list" where
  "encoded m = (case toArrayBuffer m of Inl e \<Rightarrow> [] | Inr bs \<Rightarrow> bs)"

definition received :: "nat \<Rightarrow> msg \<Rightarrow> msg" where
  "received off m = m\<lparr>m_data := map_option (map to_f32) (m_data m), m_blob := Some (off, Msg_bytes (m_length m))\<rparr>"

lemma whole_msE:
  assumes "whole_ms t"
  obtains n where "t = jnat n" "n < 2 ^ 32 * 1000"
proof -
  from assms obtain q where q: "t = Fin q" "0 \<le> q" "of_int \<lfloor>q\<rfloor> = q" "q < 2 ^ 32 * 1000"
    by (cases t) (auto simp: whole_ms_def)
  let ?n = "nat \<lfloor>q\<rfloor>"
  have n: "of_nat ?n = q" using q(2,3) by simp
  moreover have "?n < 2 ^ 32 * 1000"
  proof -
    have "(of_nat ?n :: rat) < of_nat (2 ^ 32 * 1000)" unfolding n using q(4) by simp
    then show ?thesis by (subst (asm) of_nat_less_iff)
  qed
  ultimately show thesis using that [of ?n] q(1) by simp
qed

lemma encoded_layout:
  assumes "wf_msg m"
  obtains xs where "m_data m = Some xs" "length xs = m_length m" "toArrayBuffer m = Inr (encoded m)"
    "encoded m = header_bytes (head_bits (m_version m) (m_type m)) 0 (length xs) (m_sequence m)
     (to_uint 32 (ts_sec (m_timestamp m))) (to_uint 32 (ts_nsec (m_timestamp m))) @ payload_bytes (map f32_encode xs)"
proof -
  from assms obtain xs where xs: "m_data m = Some xs" "length xs = m_length m"
    by (auto simp: wf_msg_def split: option.splits)
  from toArrayBuffer_layout [OF xs(1)] xs that [of xs] show thesis by (simp add: encoded_def)
qed

interpretation browser: framed_writer now encoded received wf_msg for now
proof
  fix m :: msg and pre post :: "byte list" and off :: nat
  assume wf: "wf_msg m"
  then obtain xs where xs: "m_data m = Some xs" "length xs = m_length m"
    and e: "encoded m = header_bytes (head_bits (m_version m) (m_type m)) 0 (length xs) (m_sequence m)
     (to_uint 32 (ts_sec (m_timestamp m))) (to_uint 32 (ts_nsec (m_timestamp m))) @ payload_bytes (map f32_encode xs)"
    by (rule encoded_layout)
  show "length (encoded m) mod 4 = 0" by (simp add: e)
  show "blob_byteLength (received off m) = length (encoded m)"
    by (simp add: e received_def blob_byteLength_def Msg_bytes_def xs)
  from wf obtain t where t: "m_timestamp m = jnat t" "t < 2 ^ 32 * 1000"
    by (auto simp: wf_msg_def elim: whole_msE)
  have ws: "list_all (\<lambda>w. w < 2 ^ 32) (map f32_encode xs)" by (simp add: list_all_iff f32_encode_bound [simplified])
  assume pre: "length pre mod 4 = 0"
  show "js_bind (DataView (pre @ encoded m @ post) (length pre) None) (fromArrayBuffer now) = Inr (received (length pre) m)"
    using fromArrayBuffer_layout [OF pre head_bits_fields(3) _ _ _ to_uint_bound to_uint_bound ws,
        of 0 "m_sequence m" "m_version m" "m_type m" "ts_sec (m_timestamp m)" "ts_nsec (m_timestamp m)" post now]
      wf xs decode_encode_timestamp [OF t(2)]
    by (simp add: e wf_msg_def head_bits_fields received_def t f32_decode_encode o_def del: msg_consts)
qed

subsection \<open>Properties\<close>

lemma forget_placed: "(\<And>off m. forget_blob (view off m) = forget_blob (view 0 m)) \<Longrightarrow>
    map forget_blob (placed enc view off ms) = map (\<lambda>m. forget_blob (view 0 m)) ms"
  by (induction ms arbitrary: off) auto

lemma forget_received: "forget_blob (received off m) = forget_blob (received 0 m)"
  by (simp add: received_def forget_blob_def)

text \<open>
  C3. A vector of messages survives the trip through the browser's own codec: decoding the
  concatenation of the encodings of any well-formed messages gives the same messages in the same
  order, every field unchanged and the values rounded to single precision.
\<close>

theorem msg_vector_roundtrip:
  assumes "list_all wf_msg ms"
  shows "\<exists>ms'. fromArrayBufferVector now (concat (map encoded ms)) = Inr ms' \<and>
     map forget_blob ms' = map (\<lambda>m. m\<lparr>m_data := map_option (map to_f32) (m_data m), m_blob := None\<rparr>) ms"
proof -
  have "map forget_blob (placed encoded received 0 ms) = map (\<lambda>m. forget_blob (received 0 m)) ms"
    by (rule forget_placed) (rule forget_received)
  also have "\<dots> = map (\<lambda>m. m\<lparr>m_data := map_option (map to_f32) (m_data m), m_blob := None\<rparr>) ms"
    by (simp add: received_def forget_blob_def)
  finally show ?thesis using browser.vector_stream [OF assms, of now] by blast
qed

definition sample_msg :: msg where
  "sample_msg = \<lparr>m_sequence = 7, m_length = 2, m_version = 2, m_type = 0, m_timestamp = Fin 1600000000123,
     m_data = Some [Fin (1/2), Fin (- 3)], m_blob = None\<rparr>"

lemma sample_msg_wf: "wf_msg sample_msg"
  by (simp add: wf_msg_def sample_msg_def whole_ms_def)

theorem msg_vector_roundtrip_witness:
  "wf_msg sample_msg \<and> (\<exists>ms'. fromArrayBufferVector (Fin 0) (encoded sample_msg @ encoded sample_msg) = Inr ms' \<and>
     map forget_blob ms' = map (\<lambda>m. m\<lparr>m_data := map_option (map to_f32) (m_data m), m_blob := None\<rparr>) [sample_msg, sample_msg])"
  using msg_vector_roundtrip [of "[sample_msg, sample_msg]" "Fin 0"] sample_msg_wf by simp

text \<open>
  C12. The timestamp arithmetic of the codec is exact: a time in whole milliseconds, split by the
  encoder into the seconds and nanoseconds fields with floating-point division, subtraction and
  multiplication, is put together by the decoder (which multiplies with the inexact constant 1e-6)
  to exactly the same number, for every time the seconds field can hold.
\<close>

theorem timestamp_roundtrip:
  assumes "t < 2 ^ 32 * 1000"
  shows "to_uint 32 (ts_sec (jnat t)) = t div 1000 \<and> to_uint 32 (ts_nsec (jnat t)) = t mod 1000 * 1000000 \<and>
    decode_timestamp (t div 1000) (t mod 1000 * 1000000) = jnat t"
  using decode_encode_timestamp [OF assms] encoded_timestamp_fields [OF assms] by simp

theorem timestamp_roundtrip_witness:
  "decode_timestamp 1600000000 123000000 = jnat 1600000000123"
  using timestamp_roundtrip [of 1600000000123] by simp

lemma fromArrayBuffer_error: "fromArrayBuffer now v = Inl e \<Longrightarrow> e = RangeError"
  by (auto simp: fromArrayBuffer_def js_bind_eq_Inl dv_get_def get_le_def Msg_def DataView_def Float32Array_def
      no_args_def Let_def split: if_splits)

lemma fromArrayBuffer_place:
  "js_bind (DataView buf off None) (fromArrayBuffer now) = Inr m \<Longrightarrow>
   m_blob m = Some (off, blob_byteLength m) \<and> off + blob_byteLength m \<le> length buf"
  by (auto simp: js_bind_eq_Inr DataView_def fromArrayBuffer_def blob_byteLength_def split: if_splits)

fun tiles :: "nat \<Rightarrow> nat \<Rightarrow> msg list \<Rightarrow> bool" where
  "tiles off end [] = (off = end)"
| "tiles off end (m # ms) = (m_blob m = Some (off, blob_byteLength m) \<and> 16 \<le> blob_byteLength m \<and>
     tiles (off + blob_byteLength m) end ms)"

lemma vector_loop_total:
  "off \<le> length blob \<Longrightarrow> (case vector_loop now blob off of Inl e \<Rightarrow> e = RangeError | Inr ms \<Rightarrow> tiles off (length blob) ms)"
proof (induction now blob off rule: vector_loop.induct)
  case (1 now blob off)
  show ?case
  proof (cases "off < length blob")
    case True
    show ?thesis
    proof (cases "js_bind (DataView blob off None) (fromArrayBuffer now)")
      case (Inl e)
      then have "e = RangeError"
        using True by (auto simp: js_bind_eq_Inl DataView_def dest: fromArrayBuffer_error)
      then show ?thesis using True Inl by (subst vector_loop.simps) simp
    next
      case (Inr m)
      note p = fromArrayBuffer_place [OF Inr]
      have "16 \<le> blob_byteLength m"
        using Inr by (auto simp: js_bind_eq_Inr Msg_bytes_def dest: fromArrayBuffer_blob)
      moreover have "case vector_loop now blob (off + blob_byteLength m) of Inl e \<Rightarrow> e = RangeError
          | Inr ms \<Rightarrow> tiles (off + blob_byteLength m) (length blob) ms"
        using "1.IH" [OF True Inr] p by simp
      ultimately show ?thesis
        using True Inr p by (subst vector_loop.simps) (auto split: sum.splits)
    qed
  next
    case False
    then show ?thesis using "1.prems" by (subst vector_loop.simps) simp
  qed
qed

text \<open>
  C10. The vector decoder is total and safe: on any received bytes it stops; either it throws a
  RangeError (and nothing else), or the decoded messages tile the buffer exactly: their blobs lie one after
  the other from the first to the last byte.
\<close>

theorem vector_decoder_total:
  "(\<exists>ms. fromArrayBufferVector now blob = Inr ms \<and> tiles 0 (length blob) ms) \<or>
   fromArrayBufferVector now blob = Inl RangeError"
  using vector_loop_total [of 0 blob now] by (auto simp: fromArrayBufferVector_def split: sum.splits)

text \<open>
  The length field has 16 bits and the encoder does not check it: a message of 65536 values is
  encoded, all of its values included, under a header that announces none, so that the receiver
  takes the payload for further messages.
\<close>

theorem long_message_header_wraps:
  assumes "length xs = 65536" and "m_data m = Some xs" and "m_length m = 65536"
  shows "\<exists>bs. toArrayBuffer m = Inr bs \<and> length bs = 16 + 4 * 65536 \<and> get_le 2 bs 2 = Inr 0"
proof -
  have "le_bytes 2 65536 = le_bytes 2 0" by (simp add: numeral_2_eq_2)
  then have h: "header_bytes b i 65536 q s n = header_bytes b i 0 q s n" for b i q s n
    by (simp add: header_bytes_def)
  let ?h = "header_bytes (head_bits (m_version m) (m_type m)) 0 0 (m_sequence m)
     (to_uint 32 (ts_sec (m_timestamp m))) (to_uint 32 (ts_nsec (m_timestamp m)))"
  have "toArrayBuffer m = Inr (?h @ payload_bytes (map f32_encode xs))"
    using toArrayBuffer_layout [OF assms(2)] assms by (simp add: h)
  moreover have "get_le 2 (?h @ payload_bytes (map f32_encode xs)) 2 = Inr 0"
    using get_le_middle [of "le_bytes 1 (head_bits (m_version m) (m_type m)) @ le_bytes 1 0" 2 0 2]
    by (simp only: header_bytes_def append_assoc length_append length_le_bytes) simp
  ultimately show ?thesis using assms(1) by simp
qed

theorem long_message_header_wraps_witness:
  "\<exists>bs. toArrayBuffer (sample_msg\<lparr>m_data := Some (replicate 65536 (Fin 0)), m_length := 65536\<rparr>) = Inr bs \<and>
     length bs = 16 + 4 * 65536 \<and> get_le 2 bs 2 = Inr 0"
  by (rule long_message_header_wraps [of "replicate 65536 (Fin 0)"]) simp_all

end
