(* ===== verification/VillasBinary.thy ===== *)
theory VillasBinary
  imports Msg
begin

text \<open>
  The server's side of the message format: \<open>struct msg\<close> of \<open>include/villas/formats/msg_format.hpp\<close>, its
  conversion from and to samples in \<open>lib/formats/msg.cpp\<close>, and the printer and scanner of
  \<open>lib/formats/villas_binary.cpp\<close> in both byte orders (\<open>villas.web\<close> is little endian and is what the
  browser client speaks, \<open>villas.binary\<close> is network order), for a little-endian host.

  The list of signals of a sample is a \<open>vlist\<close> of the common library, which is not part of the
  sources: it is a parameter, its accessor and its length, and what the code relies on is the
  predicate \<open>vlist_ok\<close>. A \<open>union signal_data\<close> is a record of its two members that the format reads,
  which is faithful as long as the member that is read is the one that was written.
\<close>

subsection \<open>Data\<close>

datatype signal_type = INVALID | FLOAT | INTEGER | BOOLEAN | COMPLEX

record signal_data =
  sd_f :: jsnum
  sd_i :: "64 word"

record vlist =
  vlist_at_safe :: "nat \<Rightarrow> signal_type option"
  vlist_length :: nat

definition vlist_ok :: "vlist \<Rightarrow> bool" where
  "vlist_ok l \<longleftrightarrow> (\<forall>i. vlist_at_safe l i \<noteq> None \<longleftrightarrow> i < vlist_length l)"

definition vlist_of :: "signal_type list \<Rightarrow> vlist" where
  "vlist_of ts = \<lparr>vlist_at_safe = (\<lambda>i. if i < length ts then Some (ts ! i) else None), vlist_length = length ts\<rparr>"

record sample =
  smp_sequence :: nat
  smp_length :: nat
  smp_capacity :: nat
  smp_flags :: nat
  smp_sec :: int
  smp_nsec :: int
  smp_signals :: vlist
  smp_data :: "signal_data list"

record cmsg =
  cm_reserved1 :: nat
  cm_type :: nat
  cm_version :: nat
  cm_id :: nat
  cm_length :: nat
  cm_sequence :: nat
  cm_sec :: nat
  cm_nsec :: nat
  cm_data :: "nat list"

definition MSG_VERSION :: nat where "MSG_VERSION = 2"
definition MSG_TYPE_DATA :: nat where "MSG_TYPE_DATA = 0"

text \<open>\<open>SampleFlags\<close>: origin timestamp, sequence number and data.\<close>

definition HAS_TS_ORIGIN :: nat where "HAS_TS_ORIGIN = 1"
definition HAS_SEQUENCE :: nat where "HAS_SEQUENCE = 8"
definition HAS_DATA :: nat where "HAS_DATA = 16"

definition MSG_LEN :: "nat \<Rightarrow> nat" where
  "MSG_LEN values = 16 + 4 * values"

subsection \<open>The structure in memory\<close>

text \<open>The bit fields of the first byte, from the least significant bit of a little-endian host.\<close>

definition store_msg :: "cmsg \<Rightarrow> byte list" where
  "store_msg m = header_bytes (cm_reserved1 m mod 4 + (cm_type m mod 4) * 4 + (cm_version m mod 16) * 16)
     (cm_id m) (cm_length m) (cm_sequence m) (cm_sec m) (cm_nsec m) @ payload_bytes (cm_data m)"

fun load_words :: "byte list \<Rightarrow> nat \<Rightarrow> nat \<Rightarrow> nat list" where
  "load_words buf off 0 = []"
| "load_words buf off (Suc n) = le_val (take 4 (drop off buf)) # load_words buf (off + 4) n"

definition load_field :: "nat \<Rightarrow> byte list \<Rightarrow> nat \<Rightarrow> nat" where
  "load_field n buf off = le_val (take n (drop off buf))"

definition load_msg :: "byte list \<Rightarrow> nat \<Rightarrow> nat \<Rightarrow> cmsg" where
  "load_msg buf off values =
     (let b = load_field 1 buf off
      in \<lparr>cm_reserved1 = b mod 4, cm_type = b div 4 mod 4, cm_version = b div 16 mod 16,
          cm_id = load_field 1 buf (off + 1), cm_length = load_field 2 buf (off + 2),
          cm_sequence = load_field 4 buf (off + 4), cm_sec = load_field 4 buf (off + 8),
          cm_nsec = load_field 4 buf (off + 12), cm_data = load_words buf (off + 16) values\<rparr>)"

text \<open>\<open>htons\<close>, \<open>ntohs\<close>, \<open>htonl\<close> and \<open>ntohl\<close> on a little-endian host reverse the bytes of a value.\<close>

definition bswap :: "nat \<Rightarrow> nat \<Rightarrow> nat" where
  "bswap n v = le_val (rev (le_bytes n v))"

definition msg_hdr_hton :: "cmsg \<Rightarrow> cmsg" where
  "msg_hdr_hton m = m\<lparr>cm_length := bswap 2 (cm_length m), cm_sequence := bswap 4 (cm_sequence m),
     cm_sec := bswap 4 (cm_sec m), cm_nsec := bswap 4 (cm_nsec m)\<rparr>"

definition msg_hdr_ntoh :: "cmsg \<Rightarrow> cmsg" where
  "msg_hdr_ntoh m = m\<lparr>cm_length := bswap 2 (cm_length m), cm_sequence := bswap 4 (cm_sequence m),
     cm_sec := bswap 4 (cm_sec m), cm_nsec := bswap 4 (cm_nsec m)\<rparr>"

text \<open>The payload loops run to the length in host order.\<close>

definition swap_data :: "nat \<Rightarrow> nat list \<Rightarrow> nat list" where
  "swap_data n ws = map (bswap 4) (take n ws) @ drop n ws"

definition msg_hton :: "cmsg \<Rightarrow> cmsg" where
  "msg_hton m = msg_hdr_hton (m\<lparr>cm_data := swap_data (cm_length m) (cm_data m)\<rparr>)"

definition msg_ntoh :: "cmsg \<Rightarrow> cmsg" where
  "msg_ntoh m = (let m = msg_hdr_ntoh m in m\<lparr>cm_data := swap_data (cm_length m) (cm_data m)\<rparr>)"

subsection \<open>Messages and samples\<close>

definition msg_verify :: "cmsg \<Rightarrow> int" where
  "msg_verify m = (if cm_version m \<noteq> MSG_VERSION then - 1
     else if cm_type m \<noteq> MSG_TYPE_DATA then - 2
     else if cm_reserved1 m \<noteq> 0 then - 3 else 0)"

text \<open>One value from the wire, by the type of its signal: a float is widened, an integer of 32 bits
  is zero extended.\<close>

definition value_to_sample :: "signal_type option \<Rightarrow> nat \<Rightarrow> signal_data \<Rightarrow> signal_data option" where
  "value_to_sample ty w d = (case ty of
     None \<Rightarrow> None
   | Some FLOAT \<Rightarrow> Some (d\<lparr>sd_f := f32_decode w\<rparr>)
   | Some INTEGER \<Rightarrow> Some (d\<lparr>sd_i := word_of_nat w\<rparr>)
   | Some _ \<Rightarrow> None)"

fun to_sample_loop :: "vlist \<Rightarrow> nat list \<Rightarrow> nat \<Rightarrow> nat \<Rightarrow> signal_data list \<Rightarrow> signal_data list option" where
  "to_sample_loop sigs ws i 0 ds = Some ds"
| "to_sample_loop sigs ws i (Suc n) ds =
     (case value_to_sample (vlist_at_safe sigs i) (ws ! i) (ds ! i) of
        None \<Rightarrow> None
      | Some d \<Rightarrow> to_sample_loop sigs ws (Suc i) n (ds[i := d]))"

definition msg_to_sample :: "cmsg \<Rightarrow> sample \<Rightarrow> vlist \<Rightarrow> int + sample" where
  "msg_to_sample m smp sigs =
     (let ret = msg_verify m in
      if ret \<noteq> 0 then Inl ret
      else let len = min (cm_length m) (smp_capacity smp); n = min len (vlist_length sigs) in
        (case to_sample_loop sigs (cm_data m) 0 n (smp_data smp) of
           None \<Rightarrow> Inl (- 1)
         | Some ds \<Rightarrow> Inr (smp\<lparr>smp_flags := HAS_TS_ORIGIN OR HAS_SEQUENCE OR HAS_DATA, smp_length := n, smp_sequence := cm_sequence m,
             smp_sec := int (cm_sec m), smp_nsec := int (cm_nsec m), smp_data := ds\<rparr>)))"

definition value_from_sample :: "signal_type option \<Rightarrow> signal_data \<Rightarrow> nat option" where
  "value_from_sample ty d = (case ty of
     None \<Rightarrow> None
   | Some FLOAT \<Rightarrow> Some (f32_encode (sd_f d))
   | Some INTEGER \<Rightarrow> Some (unat (sd_i d) mod 2 ^ 32)
   | Some _ \<Rightarrow> None)"

fun from_sample_loop :: "vlist \<Rightarrow> nat \<Rightarrow> signal_data list \<Rightarrow> nat list option" where
  "from_sample_loop sigs i [] = Some []"
| "from_sample_loop sigs i (d # ds) =
     (case value_from_sample (vlist_at_safe sigs i) d of
        None \<Rightarrow> None
      | Some w \<Rightarrow> (case from_sample_loop sigs (Suc i) ds of None \<Rightarrow> None | Some ws \<Rightarrow> Some (w # ws)))"

definition msg_from_sample :: "sample \<Rightarrow> vlist \<Rightarrow> int + cmsg" where
  "msg_from_sample smp sigs =
     (case from_sample_loop sigs 0 (take (smp_length smp) (smp_data smp)) of
        None \<Rightarrow> Inl (- 1)
      | Some ws \<Rightarrow> Inr \<lparr>cm_reserved1 = 0, cm_type = MSG_TYPE_DATA, cm_version = MSG_VERSION, cm_id = 0,
          cm_length = smp_length smp mod 2 ^ 16, cm_sequence = smp_sequence smp mod 2 ^ 32,
          cm_sec = nat (smp_sec smp mod 2 ^ 32), cm_nsec = nat (smp_nsec smp mod 2 ^ 32), cm_data = ws\<rparr>)"

subsection \<open>The format\<close>

text \<open>\<open>sprint\<close>: the messages written into a buffer of \<open>len\<close> bytes, and their number.\<close>

fun sprint_loop :: "bool \<Rightarrow> nat \<Rightarrow> byte list \<Rightarrow> nat \<Rightarrow> sample list \<Rightarrow> int + (nat \<times> byte list)" where
  "sprint_loop web len out i [] = Inr (i, out)"
| "sprint_loop web len out i (smp # smps) =
     (if length out + MSG_LEN (smp_length smp) > len then Inr (i, out)
      else case msg_from_sample smp (smp_signals smp) of
             Inl ret \<Rightarrow> Inl ret
           | Inr m \<Rightarrow> sprint_loop web len (out @ store_msg (if web then m else msg_hton m)) (Suc i) smps)"

definition sprint :: "bool \<Rightarrow> nat \<Rightarrow> sample list \<Rightarrow> int + (nat \<times> byte list)" where
  "sprint web len smps = sprint_loop web len [] 0 smps"

text \<open>\<open>sscan\<close>: the number of samples read, the bytes consumed and the samples. In network order the
  message is converted in place, in the buffer.\<close>

fun sscan_loop :: "bool \<Rightarrow> vlist \<Rightarrow> byte list \<Rightarrow> nat \<Rightarrow> sample list \<Rightarrow> sample list \<Rightarrow> int + (nat \<times> nat \<times> sample list)" where
  "sscan_loop web sigs buf ptr done [] = Inr (length done, ptr, done)"
| "sscan_loop web sigs buf ptr done (smp # smps) =
     (let smp = smp\<lparr>smp_signals := sigs\<rparr> in
      if ptr = length buf then Inr (length done, ptr, done)
      else if ptr + 16 > length buf then Inl (- 2)
      else
        let values = (let l = load_field 2 buf (ptr + 2) in if web then l else bswap 2 l) in
        if ptr + MSG_LEN values > length buf then Inl (- 3)
        else
          let raw = load_msg buf ptr values;
              m = (if web then raw else msg_ntoh raw);
              buf = take ptr buf @ store_msg m @ drop (ptr + MSG_LEN values) buf
          in case msg_to_sample m smp sigs of
               Inl ret \<Rightarrow> Inl ret
             | Inr smp \<Rightarrow> sscan_loop web sigs buf (ptr + MSG_LEN (smp_length smp)) (done @ [smp]) smps)"

definition sscan :: "bool \<Rightarrow> vlist \<Rightarrow> byte list \<Rightarrow> sample list \<Rightarrow> int + (nat \<times> nat \<times> sample list)" where
  "sscan web sigs buf smps =
     (if length buf mod 4 \<noteq> 0 then Inl (- 1) else sscan_loop web sigs buf 0 [] smps)"

subsection \<open>Storing and loading\<close>

definition wf_cmsg :: "cmsg \<Rightarrow> bool" where
  "wf_cmsg m \<longleftrightarrow> cm_reserved1 m < 4 \<and> cm_type m < 4 \<and> cm_version m < 16 \<and> cm_id m < 256 \<and>
     cm_length m < 2 ^ 16 \<and> cm_sequence m < 2 ^ 32 \<and> cm_sec m < 2 ^ 32 \<and> cm_nsec m < 2 ^ 32 \<and>
     list_all (\<lambda>w. w < 2 ^ 32) (cm_data m)"

lemma length_store_msg [simp, wire]: "length (store_msg m) = MSG_LEN (length (cm_data m))"
  by (simp add: store_msg_def MSG_LEN_def)

lemma load_field_middle:
  "length a = off \<Longrightarrow> v < 256 ^ n \<Longrightarrow> load_field n (a @ le_bytes n v @ c) off = v"
  by (simp add: load_field_def le_val_le_bytes_id)

lemma load_words_payload:
  "length a = off \<Longrightarrow> list_all (\<lambda>w. w < 2 ^ 32) ws \<Longrightarrow> load_words (a @ payload_bytes ws @ c) off (length ws) = ws"
proof (induction ws arbitrary: a off)
  case (Cons w ws)
  then have "le_val (le_bytes 4 w) = w" by (intro le_val_le_bytes_id) simp
  then show ?case
    using Cons.IH [of "a @ le_bytes 4 w" "off + 4"] Cons.prems by (simp add: payload_Cons)
qed simp

lemma load_header:
  fixes pre rest :: "byte list"
  assumes b: "bits < 256" "i < 256" "l < 2 ^ 16" "q < 2 ^ 32" "s < 2 ^ 32" "n < 2 ^ 32"
  defines "buf \<equiv> pre @ header_bytes bits i l q s n @ rest"
  shows "load_field 1 buf (length pre) = bits" "load_field 1 buf (length pre + 1) = i"
    "load_field 2 buf (length pre + 2) = l" "load_field 4 buf (length pre + 4) = q"
    "load_field 4 buf (length pre + 8) = s" "load_field 4 buf (length pre + 12) = n"
  unfolding buf_def header_bytes_def
  using b load_field_middle [of pre "length pre" bits 1]
    load_field_middle [of "pre @ le_bytes 1 bits" "length pre + 1" i 1]
    load_field_middle [of "pre @ le_bytes 1 bits @ le_bytes 1 i" "length pre + 2" l 2]
    load_field_middle [of "pre @ le_bytes 1 bits @ le_bytes 1 i @ le_bytes 2 l" "length pre + 4" q 4]
    load_field_middle [of "pre @ le_bytes 1 bits @ le_bytes 1 i @ le_bytes 2 l @ le_bytes 4 q" "length pre + 8" s 4]
    load_field_middle [of "pre @ le_bytes 1 bits @ le_bytes 1 i @ le_bytes 2 l @ le_bytes 4 q @ le_bytes 4 s" "length pre + 12" n 4]
  by (simp_all only: append_assoc length_append length_le_bytes) simp_all

lemma flag_byte:
  "r < 4 \<Longrightarrow> t < 4 \<Longrightarrow> v < 16 \<Longrightarrow> (r + t * 4 + v * 16) mod 4 = r \<and>
   (r + t * 4 + v * 16) div 4 mod 4 = t \<and> (r + t * 4 + v * 16) div 16 mod 16 = v \<and> r + t * 4 + v * 16 < (256::nat)"
proof -
  assume a: "r < 4" "t < 4" "v < 16"
  have e: "r + t * 4 + v * 16 = r + 4 * (t + 4 * v)" by simp
  have d: "(r + 4 * (t + 4 * v)) div 4 = t + 4 * v" using a(1) by simp
  have "(r + t * 4 + v * 16) div 16 = (r + t * 4 + v * 16) div 4 div 4" by (simp add: div_mult2_eq [symmetric])
  moreover have "(r + t * 4 + v * 16) mod 4 = r" unfolding e using a(1) by (simp del: distrib_left_numeral)
  ultimately show ?thesis using a unfolding e d by (simp add: d)
qed

lemma load_store_msg:
  assumes "wf_cmsg m"
  shows "load_msg (pre @ store_msg m @ post) (length pre) (length (cm_data m)) = m"
    and "load_field 2 (pre @ store_msg m @ post) (length pre + 2) = cm_length m"
proof -
  define b where "b = cm_reserved1 m mod 4 + (cm_type m mod 4) * 4 + (cm_version m mod 16) * 16"
  have fb: "b mod 4 = cm_reserved1 m" "b div 4 mod 4 = cm_type m" "b div 16 mod 16 = cm_version m" "b < 256"
    using flag_byte [of "cm_reserved1 m" "cm_type m" "cm_version m"] assms by (simp_all add: wf_cmsg_def b_def)
  let ?hdr = "header_bytes b (cm_id m) (cm_length m) (cm_sequence m) (cm_sec m) (cm_nsec m)"
  have st: "pre @ store_msg m @ post = pre @ ?hdr @ payload_bytes (cm_data m) @ post"
    by (simp add: store_msg_def b_def)
  note h = load_header [OF fb(4), of "cm_id m" "cm_length m" "cm_sequence m" "cm_sec m" "cm_nsec m" pre
      "payload_bytes (cm_data m) @ post", folded st]
  have p: "load_words (pre @ store_msg m @ post) (length pre + 16) (length (cm_data m)) = cm_data m"
    using load_words_payload [of "pre @ ?hdr" "length pre + 16" "cm_data m" post] assms
    by (simp add: st wf_cmsg_def)
  show "load_field 2 (pre @ store_msg m @ post) (length pre + 2) = cm_length m"
    using assms by (intro h) (simp_all add: wf_cmsg_def)
  have "load_field 1 (pre @ store_msg m @ post) (length pre) = b"
    "load_field 1 (pre @ store_msg m @ post) (length pre + 1) = cm_id m"
    "load_field 2 (pre @ store_msg m @ post) (length pre + 2) = cm_length m"
    "load_field 4 (pre @ store_msg m @ post) (length pre + 4) = cm_sequence m"
    "load_field 4 (pre @ store_msg m @ post) (length pre + 8) = cm_sec m"
    "load_field 4 (pre @ store_msg m @ post) (length pre + 12) = cm_nsec m"
    using assms by (intro h; simp add: wf_cmsg_def)+
  then show "load_msg (pre @ store_msg m @ post) (length pre) (length (cm_data m)) = m"
    unfolding load_msg_def p Let_def by (simp only: fb) simp
qed

subsection \<open>Byte order\<close>

lemma bswap_bound: "bswap n v < 256 ^ n"
  using le_val_bound [of "rev (le_bytes n v)"] by (simp add: bswap_def)

lemma bswap_bswap: "v < 256 ^ n \<Longrightarrow> bswap n (bswap n v) = v"
proof -
  assume v: "v < 256 ^ n"
  have "le_bytes n (le_val (rev (le_bytes n v))) = rev (le_bytes n v)"
    using le_bytes_le_val [of "rev (le_bytes n v)"] by simp
  then show ?thesis using v by (simp add: bswap_def le_val_le_bytes_id)
qed

lemma swap_data_all: "swap_data (length ws) ws = map (bswap 4) ws"
  by (simp add: swap_data_def)

lemma wf_msg_hton: "wf_cmsg m \<Longrightarrow> cm_length m = length (cm_data m) \<Longrightarrow> wf_cmsg (msg_hton m)"
  using bswap_bound [of 2] bswap_bound [of 4]
  by (simp add: wf_cmsg_def msg_hton_def msg_hdr_hton_def swap_data_all list_all_iff)

lemma msg_ntoh_hton:
  assumes "wf_cmsg m" and "cm_length m = length (cm_data m)"
  shows "msg_ntoh (msg_hton m) = m"
proof -
  have "map (bswap 4) (map (bswap 4) (cm_data m)) = cm_data m"
    using assms(1) by (auto simp: wf_cmsg_def list_all_iff intro!: map_idI bswap_bswap)
  then show ?thesis
    using assms by (simp add: wf_cmsg_def msg_hton_def msg_ntoh_def msg_hdr_hton_def msg_hdr_ntoh_def Let_def
        bswap_bswap swap_data_all) (simp add: swap_data_def)
qed

subsection \<open>Scanning a stream\<close>

text \<open>A message on the wire, and the conditions under which the scanner takes it over in full: the
  header is valid, and the receiving sample and the list of signals have room for every value.\<close>

definition wire_msg :: "bool \<Rightarrow> cmsg \<Rightarrow> byte list" where
  "wire_msg web m = store_msg (if web then m else msg_hton m)"

definition numeric_signals :: "vlist \<Rightarrow> bool" where
  "numeric_signals sigs \<longleftrightarrow> (\<forall>i < vlist_length sigs. vlist_at_safe sigs i = Some FLOAT \<or> vlist_at_safe sigs i = Some INTEGER)"

definition accepts :: "vlist \<Rightarrow> cmsg \<Rightarrow> sample \<Rightarrow> bool" where
  "accepts sigs m smp \<longleftrightarrow> wf_cmsg m \<and> cm_length m = length (cm_data m) \<and> msg_verify m = 0 \<and>
     cm_length m \<le> smp_capacity smp \<and> cm_length m \<le> vlist_length sigs \<and> smp_capacity smp = length (smp_data smp)"

definition scanned_value :: "vlist \<Rightarrow> nat list \<Rightarrow> signal_data list \<Rightarrow> nat \<Rightarrow> signal_data" where
  "scanned_value sigs ws ds i =
     (if vlist_at_safe sigs i = Some FLOAT then (ds ! i)\<lparr>sd_f := f32_decode (ws ! i)\<rparr>
      else (ds ! i)\<lparr>sd_i := word_of_nat (ws ! i)\<rparr>)"

definition scanned :: "vlist \<Rightarrow> cmsg \<Rightarrow> sample \<Rightarrow> sample" where
  "scanned sigs m smp = smp\<lparr>smp_signals := sigs, smp_flags := HAS_TS_ORIGIN OR HAS_SEQUENCE OR HAS_DATA,
     smp_length := cm_length m, smp_sequence := cm_sequence m, smp_sec := int (cm_sec m), smp_nsec := int (cm_nsec m),
     smp_data := map (scanned_value sigs (cm_data m) (smp_data smp)) [0..<cm_length m] @ drop (cm_length m) (smp_data smp)\<rparr>"

lemma to_sample_loop_all:
  assumes "i + n \<le> vlist_length sigs" and "i + n \<le> length ds" and "numeric_signals sigs"
  shows "to_sample_loop sigs ws i n ds =
     Some (take i ds @ map (scanned_value sigs ws ds) [i..<i + n] @ drop (i + n) ds)"
  using assms(1,2)
proof (induction n arbitrary: i ds)
  case (Suc n)
  let ?d = "scanned_value sigs ws ds i"
  have v: "value_to_sample (vlist_at_safe sigs i) (ws ! i) (ds ! i) = Some ?d"
  proof -
    have "vlist_at_safe sigs i = Some FLOAT \<or> vlist_at_safe sigs i = Some INTEGER"
      using assms(3) Suc.prems(1) by (simp add: numeric_signals_def)
    then show ?thesis by (auto simp: value_to_sample_def scanned_value_def)
  qed
  have "to_sample_loop sigs ws (Suc i) n (ds[i := ?d]) =
      Some (take (Suc i) (ds[i := ?d]) @ map (scanned_value sigs ws (ds[i := ?d])) [Suc i..<Suc i + n] @ drop (Suc i + n) (ds[i := ?d]))"
    using Suc.prems by (intro Suc.IH) auto
  moreover have "map (scanned_value sigs ws (ds[i := ?d])) [Suc i..<Suc i + n] = map (scanned_value sigs ws ds) [Suc i..<Suc i + n]"
    by (auto simp: scanned_value_def)
  moreover have "take (Suc i) (ds[i := ?d]) = take i ds @ [?d]"
    using Suc.prems(2) by (simp add: take_Suc_conv_app_nth)
  moreover have "drop (Suc i + n) (ds[i := ?d]) = drop (Suc i + n) ds" by (simp add: drop_update_cancel)
  moreover have "[i..<i + Suc n] = i # [Suc i..<Suc i + n]" by (simp add: upt_conv_Cons del: upt_Suc)
  ultimately show ?case
    by (simp only: to_sample_loop.simps v option.case list.map append.simps append_assoc add_Suc_right add_Suc)
qed simp

lemma msg_to_sample_accepts:
  assumes "accepts sigs m smp" and "numeric_signals sigs"
  shows "msg_to_sample m (smp\<lparr>smp_signals := sigs\<rparr>) sigs = Inr (scanned sigs m smp)"
proof -
  have "to_sample_loop sigs (cm_data m) 0 (cm_length m) (smp_data smp) =
      Some (map (scanned_value sigs (cm_data m) (smp_data smp)) [0..<cm_length m] @ drop (cm_length m) (smp_data smp))"
    using to_sample_loop_all [of 0 "cm_length m" sigs "smp_data smp" "cm_data m"] assms by (simp add: accepts_def)
  then show ?thesis
    using assms(1) by (simp add: msg_to_sample_def accepts_def scanned_def Let_def)
qed

lemma msg_hton_simps [simp]:
  "cm_length (msg_hton m) = bswap 2 (cm_length m)" "length (cm_data (msg_hton m)) = length (cm_data m)"
  by (simp_all add: msg_hton_def msg_hdr_hton_def swap_data_def)

lemma sscan_loop_step:
  assumes ok: "accepts sigs m smp" and num: "numeric_signals sigs"
  shows "sscan_loop web sigs (pre @ wire_msg web m @ post) (length pre) acc (smp # smps) =
     sscan_loop web sigs ((pre @ store_msg m) @ post) (length (pre @ store_msg m)) (acc @ [scanned sigs m smp]) smps"
proof -
  let ?r = "if web then m else msg_hton m"
  let ?buf = "pre @ store_msg ?r @ post"
  have m: "wf_cmsg m" "cm_length m = length (cm_data m)" using ok by (auto simp: accepts_def)
  have r: "wf_cmsg ?r" using m wf_msg_hton by auto
  have len: "(let l = load_field 2 ?buf (length pre + 2) in if web then l else bswap 2 l) = length (cm_data m)"
    using load_store_msg(2) [OF r, of pre post] m by (auto simp: Let_def wf_cmsg_def bswap_bswap)
  have ld: "load_msg ?buf (length pre) (length (cm_data m)) = ?r"
    using load_store_msg(1) [OF r, of pre post] by (auto split: if_splits)
  have cv: "(if web then ?r else msg_ntoh ?r) = m" using msg_ntoh_hton [OF m] by simp
  have sz: "length ?buf = length pre + MSG_LEN (length (cm_data m)) + length post" by (simp add: MSG_LEN_def)
  have "take (length pre) ?buf @ store_msg m @ drop (length pre + MSG_LEN (length (cm_data m))) ?buf = pre @ store_msg m @ post"
    by simp
  moreover have "smp_length (scanned sigs m smp) = length (cm_data m)" using m by (simp add: scanned_def)
  ultimately show ?thesis
    unfolding wire_msg_def sscan_loop.simps(2) Let_def [of "smp\<lparr>smp_signals := sigs\<rparr>"] len
    unfolding Let_def [of "length (cm_data m)"] ld unfolding Let_def cv sz msg_to_sample_accepts [OF ok num]
    by (simp add: MSG_LEN_def)
qed

lemma sscan_loop_stream:
  assumes num: "numeric_signals sigs"
  shows "length ms \<le> length smps \<Longrightarrow> list_all (\<lambda>(m, smp). accepts sigs m smp) (zip ms smps) \<Longrightarrow>
    sscan_loop web sigs (pre @ concat (map (wire_msg web) ms)) (length pre) acc smps =
      Inr (length acc + length ms, length pre + length (concat (map (wire_msg web) ms)),
        acc @ map (\<lambda>(m, smp). scanned sigs m smp) (zip ms smps))"
proof (induction ms arbitrary: smps pre acc)
  case Nil
  then show ?case by (cases smps) (simp_all add: Let_def)
next
  case (Cons m ms)
  then obtain smp smps' where smps: "smps = smp # smps'" by (cases smps) auto
  then have ok: "accepts sigs m smp" using Cons.prems by simp
  have l: "length (wire_msg web m) = length (store_msg m)" by (simp add: wire_msg_def)
  have "sscan_loop web sigs ((pre @ store_msg m) @ concat (map (wire_msg web) ms)) (length (pre @ store_msg m))
      (acc @ [scanned sigs m smp]) smps' =
    Inr (length (acc @ [scanned sigs m smp]) + length ms,
      length (pre @ store_msg m) + length (concat (map (wire_msg web) ms)),
      (acc @ [scanned sigs m smp]) @ map (\<lambda>(m, smp). scanned sigs m smp) (zip ms smps'))"
    using Cons.prems smps by (intro Cons.IH) auto
  then show ?case
    using sscan_loop_step [OF ok num, of web pre "concat (map (wire_msg web) ms)" acc smps'] smps l by simp
qed

theorem sscan_stream:
  assumes "numeric_signals sigs" and "length ms \<le> length smps"
    and "list_all (\<lambda>(m, smp). accepts sigs m smp) (zip ms smps)"
  shows "sscan web sigs (concat (map (wire_msg web) ms)) smps =
    Inr (length ms, length (concat (map (wire_msg web) ms)), map (\<lambda>(m, smp). scanned sigs m smp) (zip ms smps))"
proof -
  have "length (concat (map (wire_msg web) ms)) mod 4 = 0"
  proof (induction ms)
    case (Cons m ms)
    have "length (wire_msg web m) mod 4 = 0" by (simp add: wire_msg_def MSG_LEN_def)
    with Cons show ?case by (simp add: mod_add_eq [symmetric])
  qed simp
  then show ?thesis using sscan_loop_stream [OF assms, of web "[]" "[]"] by (simp add: sscan_def)
qed

subsection \<open>Printing\<close>

lemma length_from_sample_loop: "from_sample_loop sigs i ds = Some ws \<Longrightarrow> length ws = length ds"
  by (induction ds arbitrary: i ws) (auto split: option.splits)

lemma from_sample_loop_bound: "from_sample_loop sigs i ds = Some ws \<Longrightarrow> list_all (\<lambda>w. w < 2 ^ 32) ws"
proof (induction ds arbitrary: i ws)
  case (Cons d ds)
  have "value_from_sample ty d = Some w \<Longrightarrow> w < 2 ^ 32" for ty w
    using f32_encode_bound [of "sd_f d"] by (auto simp: value_from_sample_def split: option.splits signal_type.splits)
  with Cons show ?case by (fastforce split: option.splits)
qed auto

lemma sprint_loop_out:
  assumes "sprint_loop web len out i smps = Inr (n, out')"
  shows "\<exists>ms. n = i + length ms \<and> length ms \<le> length smps \<and> out' = out @ concat (map (wire_msg web) ms) \<and>
     list_all2 (\<lambda>smp m. msg_from_sample smp (smp_signals smp) = Inr m) (take (length ms) smps) ms"
  using assms
proof (induction smps arbitrary: out i)
  case (Cons smp smps)
  show ?case
  proof (cases "length out + MSG_LEN (smp_length smp) > len")
    case True
    with Cons.prems show ?thesis by (intro exI [of _ "[]"]) auto
  next
    case False
    with Cons.prems obtain m where m: "msg_from_sample smp (smp_signals smp) = Inr m"
      and s: "sprint_loop web len (out @ wire_msg web m) (Suc i) smps = Inr (n, out')"
      by (auto simp: wire_msg_def split: sum.splits)
    from Cons.IH [OF s] obtain ms where "n = Suc i + length ms" "length ms \<le> length smps"
      "out' = (out @ wire_msg web m) @ concat (map (wire_msg web) ms)"
      "list_all2 (\<lambda>smp m. msg_from_sample smp (smp_signals smp) = Inr m) (take (length ms) smps) ms" by blast
    with m show ?thesis by (intro exI [of _ "m # ms"]) auto
  qed
qed auto

lemma sprint_out:
  assumes "sprint web len smps = Inr (n, out)"
  obtains ms where "n = length ms" "length ms \<le> length smps" "out = concat (map (wire_msg web) ms)"
    "list_all2 (\<lambda>smp m. msg_from_sample smp (smp_signals smp) = Inr m) (take n smps) ms"
  using sprint_loop_out [of web len "[]" 0 smps n out] assms by (auto simp: sprint_def)

text \<open>The samples the format can carry: at most 65535 values, all of them present.\<close>

definition wf_sample :: "sample \<Rightarrow> bool" where
  "wf_sample smp \<longleftrightarrow> smp_length smp < 2 ^ 16 \<and> smp_length smp \<le> length (smp_data smp)"

lemma nat_mod_2_32: "nat (x mod 2 ^ 32) < 2 ^ 32"
  by (simp add: nat_less_iff)

lemma msg_from_sample_wf:
  assumes "msg_from_sample smp sigs = Inr m" and "wf_sample smp"
  shows "wf_cmsg m" "cm_length m = length (cm_data m)" "msg_verify m = 0" "cm_length m = smp_length smp"
    "cm_reserved1 m = 0" "cm_type m = MSG_TYPE_DATA" "cm_version m = MSG_VERSION" "cm_id m = 0"
    "cm_sequence m = smp_sequence smp mod 2 ^ 32" "cm_sec m = nat (smp_sec smp mod 2 ^ 32)"
    "cm_nsec m = nat (smp_nsec smp mod 2 ^ 32)"
    "from_sample_loop sigs 0 (take (smp_length smp) (smp_data smp)) = Some (cm_data m)"
  using assms nat_mod_2_32 [of "smp_sec smp"] nat_mod_2_32 [of "smp_nsec smp"]
    length_from_sample_loop [of sigs 0 "take (smp_length smp) (smp_data smp)"]
    from_sample_loop_bound [of sigs 0 "take (smp_length smp) (smp_data smp)"]
  by (auto simp: msg_from_sample_def wf_cmsg_def wf_sample_def msg_verify_def MSG_VERSION_def MSG_TYPE_DATA_def
      split: option.splits)

subsection \<open>The server as a writer for the browser\<close>

definition server_bytes :: "sample \<Rightarrow> byte list" where
  "server_bytes smp = (case msg_from_sample smp (smp_signals smp) of Inl ret \<Rightarrow> [] | Inr m \<Rightarrow> store_msg m)"

text \<open>What the browser shows of a sample: every value is read as a float.\<close>

definition server_view :: "nat \<Rightarrow> sample \<Rightarrow> msg" where
  "server_view off smp = (case msg_from_sample smp (smp_signals smp) of
     Inl ret \<Rightarrow> \<lparr>m_sequence = 0, m_length = 0, m_version = 0, m_type = 0, m_timestamp = NaN, m_data = None, m_blob = None\<rparr>
   | Inr m \<Rightarrow> \<lparr>m_sequence = smp_sequence smp mod 2 ^ 32, m_length = smp_length smp, m_version = VERSION,
       m_type = TYPE_DATA,
       m_timestamp = decode_timestamp (nat (smp_sec smp mod 2 ^ 32)) (nat (smp_nsec smp mod 2 ^ 32)),
       m_data = Some (map f32_decode (cm_data m)), m_blob = Some (off, Msg_bytes (smp_length smp))\<rparr>)"

definition server_ok :: "sample \<Rightarrow> bool" where
  "server_ok smp \<longleftrightarrow> wf_sample smp \<and> (case msg_from_sample smp (smp_signals smp) of Inl ret \<Rightarrow> False | Inr m \<Rightarrow> True)"

lemma store_msg_header:
  "cm_reserved1 m = 0 \<Longrightarrow> cm_type m = MSG_TYPE_DATA \<Longrightarrow> cm_version m = MSG_VERSION \<Longrightarrow>
   store_msg m = header_bytes (head_bits VERSION TYPE_DATA) (cm_id m) (cm_length m) (cm_sequence m) (cm_sec m) (cm_nsec m)
     @ payload_bytes (cm_data m)"
  by (simp add: store_msg_def head_bits_sum MSG_TYPE_DATA_def MSG_VERSION_def)

interpretation server: framed_writer now server_bytes server_view server_ok for now
proof
  fix smp :: sample and pre post :: "byte list" and off :: nat
  assume "server_ok smp"
  then obtain m where m: "msg_from_sample smp (smp_signals smp) = Inr m" and wf: "wf_sample smp"
    by (auto simp: server_ok_def split: sum.splits)
  note w = msg_from_sample_wf [OF m wf]
  have b: "server_bytes smp = header_bytes (head_bits VERSION TYPE_DATA) 0 (length (cm_data m)) (cm_sequence m) (cm_sec m) (cm_nsec m)
     @ payload_bytes (cm_data m)"
    using store_msg_header [OF w(5-7)] w(2,8) by (simp add: server_bytes_def m)
  show "length (server_bytes smp) mod 4 = 0" by (simp add: b)
  show "blob_byteLength (server_view off smp) = length (server_bytes smp)"
    using w(2,4) by (simp add: b server_view_def m blob_byteLength_def Msg_bytes_def)
  assume pre: "length pre mod 4 = 0"
  have v: "server_view (length pre) smp = \<lparr>m_sequence = cm_sequence m, m_length = length (cm_data m),
       m_version = drop_bit OFFSET_VERSION (head_bits VERSION TYPE_DATA) AND 0xF,
       m_type = drop_bit OFFSET_TYPE (head_bits VERSION TYPE_DATA) AND 0x3,
       m_timestamp = decode_timestamp (cm_sec m) (cm_nsec m), m_data = Some (map f32_decode (cm_data m)),
       m_blob = Some (length pre, Msg_bytes (length (cm_data m)))\<rparr>"
    unfolding head_bits_fields using w(2,4,9,10,11) by (simp add: server_view_def m)
  have c: "length (cm_data m) < 2 ^ 16" "cm_sequence m < 2 ^ 32" "cm_sec m < 2 ^ 32" "cm_nsec m < 2 ^ 32"
    "list_all (\<lambda>w. w < 2 ^ 32) (cm_data m)" using w(1,2) by (simp_all add: wf_cmsg_def)
  show "js_bind (DataView (pre @ server_bytes smp @ post) (length pre) None) (fromArrayBuffer now) =
      Inr (server_view (length pre) smp)"
    using fromArrayBuffer_layout [OF pre head_bits_fields(3) _ c, of 0 VERSION TYPE_DATA post now]
    unfolding v b append_assoc by simp
qed

lemma sprint_web_bytes:
  assumes "sprint True len smps = Inr (n, out)" and "list_all wf_sample smps"
  shows "out = concat (map server_bytes (take n smps))" and "list_all server_ok (take n smps)"
proof -
  from sprint_out [OF assms(1)] obtain ms where out: "out = concat (map (wire_msg True) ms)"
    and l: "list_all2 (\<lambda>smp m. msg_from_sample smp (smp_signals smp) = Inr m) (take n smps) ms" .
  have wf: "list_all wf_sample (take n smps)" using assms(2) by (auto simp: list_all_iff dest: in_set_takeD)
  from l have "map server_bytes (take n smps) = map (wire_msg True) ms"
    by (induction rule: list_all2_induct) (auto simp: server_bytes_def wire_msg_def)
  then show "out = concat (map server_bytes (take n smps))" by (simp add: out)
  from l wf show "list_all server_ok (take n smps)"
    by (induction rule: list_all2_induct) (auto simp: server_ok_def)
qed

lemma forget_server_view: "forget_blob (server_view off smp) = forget_blob (server_view 0 smp)"
  by (simp add: server_view_def forget_blob_def split: sum.splits)

text \<open>All values of a sample are floats.\<close>

definition float_signals :: "vlist \<Rightarrow> nat \<Rightarrow> bool" where
  "float_signals sigs n \<longleftrightarrow> (\<forall>i < n. vlist_at_safe sigs i = Some FLOAT)"

lemma from_sample_loop_floats:
  "(\<forall>j < length ds. vlist_at_safe sigs (i + j) = Some FLOAT) \<Longrightarrow>
   from_sample_loop sigs i ds = Some (map (f32_encode \<circ> sd_f) ds)"
proof (induction ds arbitrary: i)
  case (Cons d ds)
  have "vlist_at_safe sigs i = Some FLOAT" using Cons.prems by force
  moreover have "from_sample_loop sigs (Suc i) ds = Some (map (f32_encode \<circ> sd_f) ds)"
    using Cons.prems by (intro Cons.IH) auto
  ultimately show ?case by (simp add: value_from_sample_def)
qed simp

end
