(* ===== verification/WebUtils.thy ===== *)
theory WebUtils
  imports JsNumber
begin

text \<open>
  The helpers of the browser client: \<open>web/socket/utils.js\<close> (the query parameter and the request
  identifiers) and the function \<open>wsUrl\<close> of \<open>web/socket/app.js\<close>. Texts are lists of UTF-16 code units;
  \<open>\<open>u ''abc''\<close>\<close> is a literal. The percent decoding is that of \<open>decodeURIComponent\<close>, with every malformed
  or overlong sequence a thrown error.
\<close>

type_synonym ustring = "nat list"

definition u :: "string \<Rightarrow> ustring" where
  "u s = map of_char s"

subsection \<open>Percent decoding\<close>

definition hex_digit :: "nat \<Rightarrow> nat option" where
  "hex_digit c = (if 48 \<le> c \<and> c \<le> 57 then Some (c - 48)
     else if 65 \<le> c \<and> c \<le> 70 then Some (c - 55)
     else if 97 \<le> c \<and> c \<le> 102 then Some (c - 87) else None)"

text \<open>One escape \<open>%XX\<close> at the head of a text.\<close>

fun escape :: "ustring \<Rightarrow> (nat \<times> ustring) option" where
  "escape (c # h # l # rest) =
     (if c = 37 then (case (hex_digit h, hex_digit l) of (Some a, Some b) \<Rightarrow> Some (16 * a + b, rest) | _ \<Rightarrow> None)
      else None)"
| "escape _ = None"

text \<open>\<open>n\<close> continuation octets, each an escape of the form 10xxxxxx.\<close>

fun continuation :: "nat \<Rightarrow> nat \<Rightarrow> ustring \<Rightarrow> (nat \<times> ustring) option" where
  "continuation 0 v s = Some (v, s)"
| "continuation (Suc n) v s = (case escape s of
     Some (b, rest) \<Rightarrow> if 128 \<le> b \<and> b < 192 then continuation n (64 * v + (b - 128)) rest else None
   | None \<Rightarrow> None)"

definition utf16 :: "nat \<Rightarrow> ustring" where
  "utf16 v = (if v < 65536 then [v] else [55296 + (v - 65536) div 1024, 56320 + (v - 65536) mod 1024])"

text \<open>The code point at the head of an escaped text.\<close>

definition escaped_point :: "ustring \<Rightarrow> (nat \<times> ustring) option" where
  "escaped_point s = (case escape s of
     None \<Rightarrow> None
   | Some (b, rest) \<Rightarrow>
       if b < 128 then Some (b, rest)
       else if 192 \<le> b \<and> b < 224 then
         (case continuation 1 (b - 192) rest of Some (v, r) \<Rightarrow> if 128 \<le> v then Some (v, r) else None | None \<Rightarrow> None)
       else if 224 \<le> b \<and> b < 240 then
         (case continuation 2 (b - 224) rest of
            Some (v, r) \<Rightarrow> if 2048 \<le> v \<and> \<not> (55296 \<le> v \<and> v < 57344) then Some (v, r) else None | None \<Rightarrow> None)
       else if 240 \<le> b \<and> b < 248 then
         (case continuation 3 (b - 240) rest of
            Some (v, r) \<Rightarrow> if 65536 \<le> v \<and> v < 1114112 then Some (v, r) else None | None \<Rightarrow> None)
       else None)"

lemma escape_shorter: "escape s = Some (b, r) \<Longrightarrow> length r < length s"
  by (cases s rule: escape.cases) (auto split: if_splits option.splits)

lemma continuation_shorter: "continuation n v s = Some (w, r) \<Longrightarrow> length r \<le> length s"
proof (induction n arbitrary: v s)
  case (Suc n)
  then show ?case
    by (fastforce split: option.splits if_splits dest!: escape_shorter)
qed simp

lemma escaped_point_shorter: "escaped_point s = Some (v, r) \<Longrightarrow> length r < length s"
  by (auto simp: escaped_point_def split: option.splits if_splits dest!: escape_shorter continuation_shorter)

function decodeURIComponent :: "ustring \<Rightarrow> ustring js" where
  "decodeURIComponent [] = Inr []"
| "decodeURIComponent (c # s) =
     (if c = 37 then
        (case escaped_point (c # s) of
           None \<Rightarrow> Inl URIError
         | Some (v, rest) \<Rightarrow> js_bind (decodeURIComponent rest) (\<lambda>t. Inr (utf16 v @ t)))
      else js_bind (decodeURIComponent s) (\<lambda>t. Inr (c # t)))"
  by pat_completeness auto
termination
  by (relation "measure length") (auto dest: escaped_point_shorter)

subsection \<open>Query parameters\<close>

text \<open>The match of \<open>[?&]name=([^&]*)\<close>: the first place where the pattern fits, and the longest run
  without an ampersand after it. The name is matched literally, as it is when it has no
  regular-expression operators; the client asks for \<open>node\<close> only.\<close>

fun strip_prefix :: "ustring \<Rightarrow> ustring \<Rightarrow> ustring option" where
  "strip_prefix [] s = Some s"
| "strip_prefix (p # ps) (c # s) = (if p = c then strip_prefix ps s else None)"
| "strip_prefix (p # ps) [] = None"

fun match_param :: "ustring \<Rightarrow> ustring \<Rightarrow> ustring option" where
  "match_param name [] = None"
| "match_param name (c # s) =
     (if c = 63 \<or> c = 38 then
        (case strip_prefix (name @ [61]) s of
           Some rest \<Rightarrow> Some (takeWhile (\<lambda>c. c \<noteq> 38) rest)
         | None \<Rightarrow> match_param name s)
      else match_param name s)"

definition plus_to_space :: "ustring \<Rightarrow> ustring" where
  "plus_to_space = map (\<lambda>c. if c = 43 then 32 else c)"

text \<open>\<open>None\<close> is \<open>null\<close>.\<close>

definition getParameterByName :: "ustring \<Rightarrow> ustring \<Rightarrow> ustring option js" where
  "getParameterByName search name =
     (case match_param name search of
        None \<Rightarrow> Inr None
      | Some v \<Rightarrow> js_bind (decodeURIComponent (plus_to_space v)) (\<lambda>t. Inr (Some t)))"

subsection \<open>Identifiers\<close>

definition hex_char :: "nat \<Rightarrow> char" where
  "hex_char d = ''0123456789abcdef'' ! d"

text \<open>\<open>Number.prototype.toString(16)\<close> of a natural number.\<close>

fun to_hex :: "nat \<Rightarrow> string" where
  "to_hex n = (if n < 16 then [hex_char n] else to_hex (n div 16) @ [hex_char (n mod 16)])"

declare to_hex.simps [simp del]

text \<open>\<open>s4\<close>, for a result \<open>r\<close> of \<open>Math.random\<close>: the first character of the hexadecimal text is dropped.\<close>

definition s4 :: "jsnum \<Rightarrow> string" where
  "s4 r = drop 1 (to_hex (nat \<lfloor>num_val (js_floor (js_mul (js_add (Fin 1) r) (Fin 0x10000)))\<rfloor>))"

definition guid :: "(nat \<Rightarrow> jsnum) \<Rightarrow> string" where
  "guid random = s4 (random 0) @ s4 (random 1) @ ''-'' @ s4 (random 2) @ ''-'' @ s4 (random 3) @ ''-''
     @ s4 (random 4) @ ''-'' @ s4 (random 5) @ s4 (random 6) @ s4 (random 7)"

subsection \<open>The address of a socket\<close>

text \<open>\<open>window.location\<close>: the port is the empty text or a decimal number.\<close>

record location =
  protocol :: ustring
  hostname :: ustring
  port :: ustring
  search :: ustring

fun port_number :: "ustring \<Rightarrow> nat \<Rightarrow> nat option" where
  "port_number [] n = Some n"
| "port_number (c # s) n = (if 48 \<le> c \<and> c \<le> 57 then port_number s (10 * n + (c - 48)) else None)"

definition wsUrl :: "location \<Rightarrow> ustring \<Rightarrow> ustring" where
  "wsUrl l endpoint =
     (let url = (if protocol l = u ''file:'' then u ''ws://localhost''
                 else (if protocol l = u ''https:'' then u ''wss://'' else u ''ws://'') @ hostname l);
          url = (if port l \<noteq> [] \<and> port_number (port l) 0 \<noteq> Some 80 \<and> port_number (port l) 0 \<noteq> Some 443
                 then url @ u '':'' @ port l else url)
      in url @ u ''/'' @ endpoint)"

subsection \<open>Lemmas on texts\<close>

lemma u_inject [simp]: "u s = u t \<longleftrightarrow> s = t"
proof
  assume "u s = u t"
  then have "map (of_char :: char \<Rightarrow> nat) s = map of_char t" by (simp add: u_def)
  then show "s = t" by (rule map_injective) (auto intro: injI)
qed simp

lemma decodeURIComponent_plain: "37 \<notin> set s \<Longrightarrow> decodeURIComponent s = Inr s"
  by (induction s) auto

lemma plus_to_space_id: "43 \<notin> set s \<Longrightarrow> plus_to_space s = s"
  unfolding plus_to_space_def by (rule map_idI) auto

lemma takeWhile_no_amp: "38 \<notin> set s \<Longrightarrow> takeWhile (\<lambda>c. c \<noteq> 38) s = s"
  by (auto simp: takeWhile_eq_all_conv)

lemma strip_prefix_append: "strip_prefix p (p @ s) = Some s"
  by (induction p) auto

lemma match_param_link: "38 \<notin> set v \<Longrightarrow> match_param name (63 # name @ 61 # v) = Some v"
  using strip_prefix_append [of "name @ [61]" v] by (simp add: takeWhile_no_amp)

lemma strip_prefix_Some: "strip_prefix p s = Some r \<Longrightarrow> s = p @ r"
  by (induction p s rule: strip_prefix.induct) (auto split: if_splits)

text \<open>The value that is found stands after the name in the query text.\<close>

lemma match_param_sound:
  "match_param name s = Some v \<Longrightarrow> \<exists>a c r. s = a @ c # name @ 61 # v @ r \<and> (c = 63 \<or> c = 38) \<and> 38 \<notin> set v"
proof (induction s)
  case (Cons c s)
  show ?case
  proof (cases "(c = 63 \<or> c = 38) \<and> strip_prefix (name @ [61]) s \<noteq> None")
    case True
    then obtain r where r: "strip_prefix (name @ [61]) s = Some r" by auto
    have s: "s = name @ 61 # r" using strip_prefix_Some [OF r] by simp
    have v: "v = takeWhile (\<lambda>c. c \<noteq> 38) r" using True r Cons.prems by (simp split: if_splits)
    have "c # s = [] @ c # name @ 61 # v @ dropWhile (\<lambda>c. c \<noteq> 38) r" unfolding s v by simp
    moreover have "38 \<notin> set v" unfolding v by (auto dest: set_takeWhileD)
    moreover have "c = 63 \<or> c = 38" using True by blast
    ultimately show ?thesis by (intro exI conjI)
  next
    case False
    then have "match_param name s = Some v"
      using Cons.prems by (cases "strip_prefix (name @ [61]) s") (simp_all split: if_splits)
    from Cons.IH [OF this] obtain a c' r where h: "s = a @ c' # name @ 61 # v @ r" "c' = 63 \<or> c' = 38" "38 \<notin> set v" by auto
    have "c # s = (c # a) @ c' # name @ 61 # v @ r" using h(1) by simp
    then show ?thesis using h(2,3) by (intro exI conjI)
  qed
qed simp

subsection \<open>Lemmas on identifiers\<close>

definition is_hex :: "char \<Rightarrow> bool" where
  "is_hex c \<longleftrightarrow> c \<in> set ''0123456789abcdef''"

lemma hex_char_is_hex: "d < 16 \<Longrightarrow> is_hex (hex_char d)"
  unfolding is_hex_def hex_char_def by (rule nth_mem) simp

lemma to_hex_chars: "list_all is_hex (to_hex n)"
proof (induction n rule: to_hex.induct)
  case (1 n)
  then show ?case by (subst to_hex.simps) (simp add: hex_char_is_hex)
qed

lemma length_to_hex_Suc: "16 ^ k \<le> n \<Longrightarrow> n < 16 ^ Suc k \<Longrightarrow> length (to_hex n) = Suc k"
proof (induction k arbitrary: n)
  case 0
  then show ?case by (subst to_hex.simps) simp
next
  case (Suc k)
  have "16 ^ k \<le> n div 16" using Suc.prems(1) by (simp add: less_eq_div_iff_mult_less_eq mult.commute)
  moreover have "n div 16 < 16 ^ Suc k" using Suc.prems(2) by (simp add: less_mult_imp_div_less mult.commute)
  ultimately have "length (to_hex (n div 16)) = Suc k" by (rule Suc.IH)
  moreover have "\<not> n < 16" using Suc.prems(1) by (metis One_nat_def Suc_leI le_less_trans less_numeral_extra(3) linorder_not_le mult_le_mono2 nat_mult_1_right one_le_power power_Suc zero_less_numeral not_less)
  ultimately show ?case by (subst to_hex.simps) simp
qed

lemma s4_number:
  assumes "0 \<le> q" and "q < 1"
  obtains n where "65536 \<le> n" "n \<le> 131072" "s4 (Fin q) = drop 1 (to_hex n)"
proof -
  have a: "1 \<le> rnd64 (1 + q)" "rnd64 (1 + q) \<le> 2"
    using rnd64_ge_int [of 1 "1 + q"] rnd64_le_int [of "1 + q" 2] assms by simp_all
  define r where "r = rnd64 (1 + q)"
  have r: "1 \<le> r" "r \<le> 2" using a by (simp_all add: r_def)
  have "\<bar>r\<bar> < 2 ^ 1024"
  proof -
    have "\<bar>r\<bar> \<le> 2 ^ 53" using r by simp
    then show ?thesis using two_53_le by linarith
  qed
  then have add: "js_add (Fin 1) (Fin q) = Fin r"
    using r by (simp add: to_num_def Let_def r_def [symmetric])
  define m where "m = rnd64 (r * 65536)"
  have m: "65536 \<le> m" "m \<le> 131072"
    using rnd64_ge_int [of 65536 "r * 65536"] rnd64_le_int [of "r * 65536" 131072] r by (simp_all add: m_def)
  have "\<bar>m\<bar> < 2 ^ 1024"
  proof -
    have "\<bar>m\<bar> \<le> 2 ^ 53" using m by simp
    then show ?thesis using two_53_le by linarith
  qed
  then have mul: "js_mul (Fin r) (Fin 0x10000) = Fin m"
    using m by (simp add: to_num_def Let_def m_def [symmetric])
  have "65536 \<le> \<lfloor>m\<rfloor>" "\<lfloor>m\<rfloor> \<le> 131072" using m by linarith+
  then have "65536 \<le> nat \<lfloor>m\<rfloor>" "nat \<lfloor>m\<rfloor> \<le> 131072" by linarith+
  then show thesis using that [of "nat \<lfloor>m\<rfloor>"] unfolding s4_def add mul by simp
qed

lemma s4_format:
  assumes "0 \<le> q" and "q < 1"
  shows "length (s4 (Fin q)) = 4" and "list_all is_hex (s4 (Fin q))"
proof -
  from s4_number [OF assms] obtain n where n: "65536 \<le> n" "n \<le> 131072" "s4 (Fin q) = drop 1 (to_hex n)" .
  have "length (to_hex n) = Suc 4" using n by (intro length_to_hex_Suc) simp_all
  then show "length (s4 (Fin q)) = 4" by (simp add: n(3))
  show "list_all is_hex (s4 (Fin q))" using to_hex_chars [of n] by (auto simp: n(3) list_all_iff dest: in_set_dropD)
qed

subsection \<open>Properties\<close>

text \<open>
  Every request identifier has the shape of a UUID: whatever the random generator returns in
  [0, 1), rounding in \<open>1 + Math.random()\<close> included, the eight groups have four lower-case hexadecimal
  digits each and the text has 36 characters with dashes at the places 8, 13, 18 and 23.
\<close>

theorem guid_format:
  assumes "\<forall>k < 8. \<exists>q. random k = Fin q \<and> 0 \<le> q \<and> q < 1"
  shows "length (guid random) = 36 \<and>
    (\<forall>i < 36. if i \<in> {8, 13, 18, 23} then guid random ! i = CHR ''-'' else is_hex (guid random ! i))"
proof -
  define g where "g k = s4 (random k)" for k
  have g: "length (g k) = 4 \<and> list_all is_hex (g k)" if "k < 8" for k
    using assms that s4_format unfolding g_def by metis
  have four: "\<exists>a b c d. g k = [a, b, c, d] \<and> is_hex a \<and> is_hex b \<and> is_hex c \<and> is_hex d" if "k < 8" for k
    using g [OF that] by (auto simp: length_Suc_conv numeral_eq_Suc)
  have k: "\<And>P. (\<And>k. k < (8::nat) \<Longrightarrow> P k) \<Longrightarrow> P 0 \<and> P 1 \<and> P 2 \<and> P 3 \<and> P 4 \<and> P 5 \<and> P 6 \<and> P 7" by simp
  have e: "guid random = g 0 @ g 1 @ ''-'' @ g 2 @ ''-'' @ g 3 @ ''-'' @ g 4 @ ''-'' @ g 5 @ g 6 @ g 7"
    by (simp add: guid_def g_def)
  have u: "{..<36} = set [0..<36::nat]" by auto
  have "\<forall>i \<in> set [0..<36]. if i \<in> {8, 13, 18, 23} then guid random ! i = CHR ''-'' else is_hex (guid random ! i)"
    using k [of "\<lambda>k. \<exists>a b c d. g k = [a, b, c, d] \<and> is_hex a \<and> is_hex b \<and> is_hex c \<and> is_hex d", OF four]
    by (auto simp: e upt_rec)
  moreover have "length (guid random) = 36"
    using k [of "\<lambda>k. length (g k) = 4"] g by (simp add: e)
  ultimately show ?thesis by simp
qed

theorem guid_format_witness:
  "length (guid (\<lambda>k. Fin (1/2))) = 36"
proof -
  have "\<forall>k < (8::nat). \<exists>q. Fin (1/2) = Fin q \<and> 0 \<le> q \<and> q < 1"
    by (intro allI impI exI [of _ "1/2"]) simp
  from guid_format [OF this] show ?thesis by blast
qed

text \<open>
  The links of the node list select their node: the page that the button of a node navigates to
  (\<open>?node=\<close> and the unescaped name) yields exactly that name as its parameter \<open>node\<close>, for every name
  without the characters \<open>%\<close>, \<open>&\<close> and \<open>+\<close>.
\<close>

theorem node_link_selects_node:
  assumes "37 \<notin> set name" and "38 \<notin> set name" and "43 \<notin> set name"
  shows "getParameterByName (u ''?node='' @ name) (u ''node'') = Inr (Some name)"
proof -
  have "u ''?node='' @ name = 63 # u ''node'' @ 61 # name" by (simp add: u_def)
  then show ?thesis
    using match_param_link [OF assms(2), of "u ''node''"] assms
    by (simp add: getParameterByName_def plus_to_space_id decodeURIComponent_plain del: match_param.simps)
qed

theorem node_link_selects_node_witness:
  "getParameterByName (u ''?node='' @ u ''ws_node'') (u ''node'') = Inr (Some (u ''ws_node''))"
  by (rule node_link_selects_node) (simp_all add: u_def)

text \<open>
  The names that C21 leaves out do fail: a node called \<open>a+b\<close> is looked up as \<open>a b\<close>, one called \<open>a&b\<close>
  as \<open>a\<close>, and one called \<open>100%\<close> makes the lookup throw a URIError.
\<close>

theorem node_link_unescaped:
  "getParameterByName (u ''?node='' @ u ''a+b'') (u ''node'') = Inr (Some (u ''a b'')) \<and>
   getParameterByName (u ''?node='' @ u ''a&b'') (u ''node'') = Inr (Some (u ''a'')) \<and>
   getParameterByName (u ''?node='' @ u ''100%'') (u ''node'') = Inl URIError"
  by (simp add: getParameterByName_def u_def plus_to_space_def escaped_point_def)

text \<open>
  The address of a socket names the server the page came from: its host, the endpoint, the secure
  scheme exactly for \<open>https:\<close>, and the page's port unless that port is 80 or 443.
\<close>

theorem wsUrl_shape:
  assumes "protocol l \<noteq> u ''file:''"
  shows "wsUrl l ep = (if protocol l = u ''https:'' then u ''wss://'' else u ''ws://'') @ hostname l @
     (if port l = [] \<or> port_number (port l) 0 \<in> {Some 80, Some 443} then [] else u '':'' @ port l) @ u ''/'' @ ep"
  using assms by (auto simp: wsUrl_def Let_def)

theorem wsUrl_shape_witness:
  "wsUrl \<lparr>protocol = u ''https:'', hostname = u ''host'', port = u ''8080'', search = []\<rparr> (u ''v1'') = u ''wss://host:8080/v1''"
  using wsUrl_shape [of "\<lparr>protocol = u ''https:'', hostname = u ''host'', port = u ''8080'', search = []\<rparr>" "u ''v1''"]
  by (simp add: u_def)

text \<open>
  Both well-known ports are dropped for both schemes, so a page served over TLS on port 80 opens its
  socket on port 443 of the host.
\<close>

theorem wsUrl_drops_port:
  "wsUrl \<lparr>protocol = u ''https:'', hostname = h, port = u ''80'', search = q\<rparr> ep = u ''wss://'' @ h @ u ''/'' @ ep"
  by (simp add: wsUrl_def u_def)

end
