(* ===== verification/Api.thy ===== *)
theory Api
  imports WebUtils
begin

text \<open>
  The remote-procedure client of the browser, \<open>web/socket/api.js\<close>. Requests carry a fresh identifier
  under which their handler is stored; a response is delivered to the handler stored under its
  identifier, which is then forgotten. Handlers are abstract: \<open>run h r\<close> says whether handler \<open>h\<close> returns
  or throws on response \<open>r\<close>, and the state logs every call. A received frame is either text that is
  not JSON (\<open>None\<close>) or an object with an optional identifier and a response.

  The socket of the browser refuses to send while it is connecting and silently drops what is sent
  after it was closed. The lemmas treat every sequence of requests, responses and socket events.
\<close>

subsection \<open>Sockets\<close>

datatype ready_state = CONNECTING | OPEN | CLOSING | CLOSED

record socket =
  sk_url :: ustring
  sk_protocol :: string
  sk_state :: ready_state

definition WebSocket :: "ustring \<Rightarrow> string \<Rightarrow> socket" where
  "WebSocket url proto = \<lparr>sk_url = url, sk_protocol = proto, sk_state = CONNECTING\<rparr>"

text \<open>\<open>send\<close>: \<open>Inr True\<close> when the data go out, \<open>Inr False\<close> when they are dropped.\<close>

definition sk_send :: "socket \<Rightarrow> bool js" where
  "sk_send s = (case sk_state s of CONNECTING \<Rightarrow> Inl InvalidState | OPEN \<Rightarrow> Inr True | CLOSING \<Rightarrow> Inr False | CLOSED \<Rightarrow> Inr False)"

definition sk_close :: "socket \<Rightarrow> socket" where
  "sk_close s = (if sk_state s = CLOSED then s else s\<lparr>sk_state := CLOSING\<rparr>)"

subsection \<open>The client\<close>

record request =
  rq_action :: string
  rq_request :: string
  rq_id :: string

record 'r response =
  rs_id :: "string option"
  rs_response :: 'r

record ('h, 'r) api =
  version :: string
  ids :: "string \<rightharpoonup> 'h"
  connection :: socket
  error_cb :: bool
  sent :: "request list"
  calls :: "('h \<times> 'r) list"
  connected_calls :: nat

text \<open>\<open>new Api(v, connected, error)\<close>: whether an error callback was passed is all that matters of it. The
  version is stored; the address is always that of version 1.\<close>

definition Api :: "location \<Rightarrow> string \<Rightarrow> bool \<Rightarrow> ('h, 'r) api" where
  "Api l v err = \<lparr>version = v, ids = Map.empty, connection = WebSocket (wsUrl l (u ''v1'')) ''api'', error_cb = err,
     sent = [], calls = [], connected_calls = 0\<rparr>"

definition api_onopen :: "('h, 'r) api \<Rightarrow> ('h, 'r) api" where
  "api_onopen a = a\<lparr>connection := (connection a)\<lparr>sk_state := OPEN\<rparr>, connected_calls := connected_calls a + 1\<rparr>"

definition api_onerror :: "('h, 'r) api \<Rightarrow> unit js" where
  "api_onerror a = (if error_cb a then Inr () else Inl TypeError)"

text \<open>A missing identifier reads as the text \<open>undefined\<close>. The result has the state even when the handler
  throws, since it was called before.\<close>

definition id_key :: "string option \<Rightarrow> string" where
  "id_key i = (case i of None \<Rightarrow> ''undefined'' | Some k \<Rightarrow> k)"

text \<open>What the lookup finds when no handler is stored: \<open>new Object()\<close> inherits the properties of
  \<open>Object.prototype\<close>. The call has no receiver, which all of them but two refuse (\<open>isPrototypeOf\<close> for a
  response that is an object); \<open>__proto__\<close> is no function.\<close>

definition object_prototype :: "string \<Rightarrow> unit js option" where
  "object_prototype k =
     (if k \<in> set [''constructor'', ''toString''] then Some (Inr ())
      else if k \<in> set [''toLocaleString'', ''valueOf'', ''hasOwnProperty'', ''isPrototypeOf'', ''propertyIsEnumerable'',
        ''__proto__'', ''__defineGetter__'', ''__defineSetter__'', ''__lookupGetter__'', ''__lookupSetter__'']
      then Some (Inl TypeError) else None)"

definition api_onmessage :: "('h \<Rightarrow> 'r \<Rightarrow> unit js) \<Rightarrow> ('h, 'r) api \<Rightarrow> 'r response option \<Rightarrow> unit js \<times> ('h, 'r) api" where
  "api_onmessage run a data = (case data of
     None \<Rightarrow> (Inl SyntaxError, a)
   | Some resp \<Rightarrow>
       (case ids a (id_key (rs_id resp)) of
          None \<Rightarrow> ((case object_prototype (id_key (rs_id resp)) of None \<Rightarrow> Inr () | Some res \<Rightarrow> res), a)
        | Some handler \<Rightarrow>
            (let a = a\<lparr>calls := calls a @ [(handler, rs_response resp)]\<rparr>
             in case run handler (rs_response resp) of
                  Inl e \<Rightarrow> (Inl e, a)
                | Inr _ \<Rightarrow> (Inr (), a\<lparr>ids := (ids a)(id_key (rs_id resp) := None)\<rparr>))))"

definition api_request :: "(nat \<Rightarrow> jsnum) \<Rightarrow> ('h, 'r) api \<Rightarrow> string \<Rightarrow> string \<Rightarrow> 'h \<Rightarrow> unit js \<times> ('h, 'r) api" where
  "api_request random a action request handler =
     (let req = \<lparr>rq_action = action, rq_request = request, rq_id = guid random\<rparr>;
          a = a\<lparr>ids := (ids a)(rq_id req \<mapsto> handler)\<rparr>
      in case sk_send (connection a) of
           Inl e \<Rightarrow> (Inl e, a)
         | Inr went_out \<Rightarrow> (Inr (), if went_out then a\<lparr>sent := sent a @ [req]\<rparr> else a))"

definition api_close :: "('h, 'r) api \<Rightarrow> ('h, 'r) api" where
  "api_close a = a\<lparr>connection := sk_close (connection a)\<rparr>"

subsection \<open>Runs\<close>

datatype ('h, 'r) api_event =
    Opened
  | Closed
  | Failed
  | Received "'r response option"
  | Request "nat \<Rightarrow> jsnum" string string 'h
  | Close

fun api_step :: "('h \<Rightarrow> 'r \<Rightarrow> unit js) \<Rightarrow> ('h, 'r) api \<Rightarrow> ('h, 'r) api_event \<Rightarrow> ('h, 'r) api" where
  "api_step run a Opened = api_onopen a"
| "api_step run a Closed = a\<lparr>connection := (connection a)\<lparr>sk_state := CLOSED\<rparr>\<rparr>"
| "api_step run a Failed = a"
| "api_step run a (Received d) = snd (api_onmessage run a d)"
| "api_step run a (Request rg act req h) = snd (api_request rg a act req h)"
| "api_step run a Close = api_close a"

fun api_run :: "('h \<Rightarrow> 'r \<Rightarrow> unit js) \<Rightarrow> ('h, 'r) api \<Rightarrow> ('h, 'r) api_event list \<Rightarrow> ('h, 'r) api" where
  "api_run run a [] = a"
| "api_run run a (e # es) = api_run run (api_step run a e) es"

text \<open>The identifiers and handlers of the requests of a run.\<close>

fun request_of :: "('h, 'r) api_event \<Rightarrow> (string \<times> 'h) list" where
  "request_of (Request rg act req h) = [(guid rg, h)]"
| "request_of _ = []"

definition requests_of :: "('h, 'r) api_event list \<Rightarrow> (string \<times> 'h) list" where
  "requests_of es = concat (map request_of es)"

lemma api_run_append: "api_run run a (es @ fs) = api_run run (api_run run a es) fs"
  by (induction es arbitrary: a) auto

lemma requests_of_append: "requests_of (es @ fs) = requests_of es @ requests_of fs"
  by (simp add: requests_of_def)

lemma api_request_state [simp]:
  "ids (snd (api_request rg a act req h)) = (ids a)(guid rg \<mapsto> h)"
  "calls (snd (api_request rg a act req h)) = calls a"
  by (simp_all add: api_request_def Let_def split: sum.splits)

lemma api_onopen_state [simp]: "ids (api_onopen a) = ids a" "calls (api_onopen a) = calls a"
  and api_close_state [simp]: "ids (api_close a) = ids a" "calls (api_close a) = calls a"
  by (simp_all add: api_onopen_def api_close_def)

text \<open>The pending handlers are handlers of requests, and every call was of a handler of a request.\<close>

definition api_sound :: "(string \<times> 'h) list \<Rightarrow> ('h, 'r) api \<Rightarrow> bool" where
  "api_sound rs a \<longleftrightarrow> (\<forall>k h. ids a k = Some h \<longrightarrow> (k, h) \<in> set rs) \<and> fst ` set (calls a) \<subseteq> snd ` set rs"

lemma api_onmessage_sound:
  "api_sound rs a \<Longrightarrow> api_sound rs (snd (api_onmessage run a d))"
  by (force simp: api_onmessage_def api_sound_def Let_def split: option.splits sum.splits)

lemma api_step_sound: "api_sound rs a \<Longrightarrow> api_sound (rs @ request_of e) (api_step run a e)"
proof (cases e)
  case (Received d)
  assume "api_sound rs a"
  then show ?thesis using api_onmessage_sound [of rs a run d] Received by simp
next
  case (Request rg act req h)
  assume "api_sound rs a"
  then show ?thesis using Request by (auto simp: api_sound_def)
qed (auto simp: api_sound_def)

lemma api_run_sound: "api_sound rs a \<Longrightarrow> api_sound (rs @ requests_of es) (api_run run a es)"
proof (induction es arbitrary: rs a)
  case (Cons e es)
  from Cons.IH [OF api_step_sound [OF Cons.prems]] show ?case by (simp add: requests_of_def)
qed (simp add: requests_of_def)

text \<open>With fresh identifiers and handlers that return, pending handlers and calls add up to the
  requests.\<close>

definition api_balanced :: "nat \<Rightarrow> ('h, 'r) api \<Rightarrow> bool" where
  "api_balanced n a \<longleftrightarrow> finite (dom (ids a)) \<and> card (dom (ids a)) + length (calls a) = n"

lemma api_onmessage_balanced:
  assumes "api_balanced n a" and "\<forall>h r. run h r = Inr ()"
  shows "api_balanced n (snd (api_onmessage run a d))"
proof (cases d)
  case (Some resp)
  let ?k = "id_key (rs_id resp)"
  show ?thesis
  proof (cases "ids a ?k")
    case (Some h)
    have "card (dom (ids a) - {?k}) = card (dom (ids a)) - 1" "0 < card (dom (ids a))"
      using domI [of "ids a" ?k h, OF Some] assms(1)
      by (auto simp: api_balanced_def card_gt_0_iff card_Diff_singleton simp del: Diff_insert0)
    then show ?thesis
      using assms \<open>d = Some resp\<close> Some by (auto simp: api_onmessage_def api_balanced_def Let_def)
  qed (use assms Some in \<open>simp add: api_onmessage_def\<close>)
qed (use assms in \<open>simp add: api_onmessage_def\<close>)

lemma dom_ids_issued:
  "dom (ids (api_run run a es)) \<subseteq> dom (ids a) \<union> fst ` set (requests_of es)"
proof (induction es arbitrary: a)
  case (Cons e es)
  have "dom (ids (api_step run a e)) \<subseteq> dom (ids a) \<union> fst ` set (request_of e)"
    by (cases e) (auto simp: api_onmessage_def Let_def split: option.splits sum.splits if_splits)
  with Cons.IH [of "api_step run a e"] show ?case by (auto simp: requests_of_def)
qed auto

lemma api_run_balanced:
  assumes "\<forall>h r. run h r = Inr ()"
  shows "distinct (map fst (requests_of es)) \<Longrightarrow>
    api_balanced (length (requests_of es)) (api_run run (Api l v err) es)"
proof (induction es rule: rev_induct)
  case Nil
  then show ?case by (simp add: api_balanced_def requests_of_def Api_def)
next
  case (snoc e es)
  let ?a = "api_run run (Api l v err) es"
  have b: "api_balanced (length (requests_of es)) ?a"
    using snoc by (simp add: requests_of_append)
  show ?case
  proof (cases e)
    case (Received d)
    then show ?thesis
      using api_onmessage_balanced [OF b assms, of d] by (simp add: api_run_append requests_of_append) (simp add: requests_of_def)
  next
    case (Request rg act req h)
    have "guid rg \<notin> fst ` set (requests_of es)"
      using snoc.prems Request by (simp add: requests_of_append) (simp add: requests_of_def)
    then have "guid rg \<notin> dom (ids ?a)" using dom_ids_issued [of run "Api l v err" es] by (auto simp: Api_def)
    then show ?thesis
      using b Request by (simp add: api_run_append requests_of_append api_balanced_def) (simp add: requests_of_def)
  qed (use b in \<open>auto simp: api_run_append requests_of_append api_balanced_def, auto simp: requests_of_def\<close>)
qed

subsection \<open>Properties\<close>


definition demo_location :: location where
  "demo_location = \<lparr>protocol = u ''http:'', hostname = u ''localhost'', port = u ''8080'', search = []\<rparr>"

definition demo_events :: "(nat, nat) api_event list" where
  "demo_events = [Opened, Request (\<lambda>_. Fin 0) ''nodes'' [] 5,
     Received (Some \<lparr>rs_id = Some (guid (\<lambda>_. Fin 0)), rs_response = 3\<rparr>),
     Received (Some \<lparr>rs_id = Some (guid (\<lambda>_. Fin 0)), rs_response = 4\<rparr>)]"


definition avoids :: "string \<Rightarrow> ('h, 'r) api_event \<Rightarrow> bool" where
  "avoids k e = (case e of
     Received (Some resp) \<Rightarrow> id_key (rs_id resp) \<noteq> k
   | Request rg act req h' \<Rightarrow> guid rg \<noteq> k
   | _ \<Rightarrow> True)"

lemma api_step_other:
  assumes "ids a k = Some h" and "avoids k e"
  shows "ids (api_step run a e) k = Some h"
  using assms by (cases e) (auto simp: avoids_def api_onmessage_def Let_def split: option.splits sum.splits)

lemma api_run_other:
  "ids a k = Some h \<Longrightarrow> list_all (avoids k) es \<Longrightarrow> ids (api_run run a es) k = Some h"
  by (induction es arbitrary: a) (auto dest: api_step_other)

text \<open>
  A response reaches its handler exactly once: the first response to a request calls its handler
  with the response's value and nothing else, however many other requests and responses with other
  identifiers came in between, and a second response with the same identifier changes nothing.
\<close>

theorem response_delivered_once:
  assumes "\<forall>h r. run h r = Inr ()" and "list_all (avoids (guid rg)) es" and "rs_id resp = Some (guid rg)"
  shows "let a1 = api_run run (snd (api_request rg a act req h)) es;
             a2 = api_step run a1 (Received (Some resp))
         in calls a2 = calls a1 @ [(h, rs_response resp)] \<and> ids a2 = (ids a1)(guid rg := None) \<and>
            api_step run a2 (Received (Some resp)) = a2"
proof -
  have "ids (api_run run (snd (api_request rg a act req h)) es) (guid rg) = Some h"
    using assms by (intro api_run_other) auto
  with assms show ?thesis by (simp add: api_onmessage_def Let_def id_key_def)
qed

theorem response_delivered_once_witness:
  "let a1 = snd (api_request (\<lambda>_. Fin 0) (Api demo_location ''v1'' False) ''nodes'' [] (5::nat));
       a2 = api_step (\<lambda>h (r::nat). Inr ()) a1 (Received (Some \<lparr>rs_id = Some (guid (\<lambda>_. Fin 0)), rs_response = 3\<rparr>))
   in calls a2 = calls a1 @ [(5, 3)]"
  using response_delivered_once [of "\<lambda>h (r::nat). Inr ()" "\<lambda>_. Fin 0" "[]" "\<lparr>rs_id = Some (guid (\<lambda>_. Fin 0)), rs_response = (3::nat)\<rparr>"
      "Api demo_location ''v1'' False" "''nodes''" "[]" "5::nat"]
  by (simp add: Let_def)

text \<open>
  Errors of the client: a frame that is not JSON throws a SyntaxError and changes nothing; a request
  while the socket is still connecting throws, but its handler stays registered; and an error of the
  socket throws a TypeError when, as in the application, no error callback was passed.
\<close>

theorem api_errors:
  "api_onmessage run a None = (Inl SyntaxError, a) \<and>
   api_request rg (Api l v err) act req h = (Inl InvalidState, (Api l v err)\<lparr>ids := [guid rg \<mapsto> h]\<rparr>) \<and>
   api_onerror (Api l v False) = Inl TypeError"
  by (auto simp: api_onmessage_def api_request_def Api_def WebSocket_def sk_send_def Let_def api_onerror_def)

end
