(* ===== verification/JqCore.thy ===== *)
theory JqCore
  imports WebUtils
begin

text \<open>
  The core of the library under the browser client, \<open>web/socket/jquery/jquery-3.2.0.js\<close>: the tests on
  values, \<open>extend\<close>, the iterators \<open>each\<close>, \<open>map\<close>, \<open>grep\<close>, \<open>merge\<close> and \<open>makeArray\<close>, the selection stack of
  \<open>jQuery.fn\<close>, \<open>camelCase\<close> and \<open>trim\<close>.

  A value is a tree: a primitive, or an object with its kind and its own enumerable properties. No
  object is reached on two ways, so the test \<open>target === copy\<close> of \<open>extend\<close>, which cuts an object that
  contains the target itself, is never taken here. The properties stand in the order they were
  created in; \<open>for_in\<close> is the order a loop sees them in.
\<close>

subsection \<open>Values\<close>

text \<open>The keys that are array indices are numbers.\<close>

datatype key = Ix nat | Key ustring

text \<open>An array knows its length; a function its identity; any other object the tag of
  \<open>Object.prototype.toString\<close>. \<open>Plain\<close> is an object made by the global constructor or without prototype.\<close>

datatype kind = Plain | Array nat | Function nat | Host string

datatype jsval =
    JUndef
  | JNull
  | JBool bool
  | JNum jsnum
  | JStr ustring
  | JObj kind "(key \<times> jsval) list"

definition arr :: "jsval list \<Rightarrow> jsval" where
  "arr vs = JObj (Array (length vs)) (zip (map Ix [0..<length vs]) vs)"

abbreviation (input) obj :: "(string \<times> jsval) list \<Rightarrow> jsval" where
  "obj ps \<equiv> JObj Plain (map (\<lambda>(k, v). (Key (u k), v)) ps)"

fun truthy :: "jsval \<Rightarrow> bool" where
  "truthy JUndef = False"
| "truthy JNull = False"
| "truthy (JBool b) = b"
| "truthy (JNum x) = js_truthy x"
| "truthy (JStr s) = (s \<noteq> [])"
| "truthy (JObj _ _) = True"

fun is_null :: "jsval \<Rightarrow> bool" where
  "is_null JUndef = True"
| "is_null JNull = True"
| "is_null _ = False"

text \<open>Own properties: a missing one reads as \<open>undefined\<close>; a new one is added at the end, and an index
  beyond the end of an array extends it.\<close>

fun props :: "jsval \<Rightarrow> (key \<times> jsval) list" where
  "props (JObj _ ps) = ps"
| "props (JStr s) = zip (map Ix [0..<length s]) (map (\<lambda>c. JStr [c]) s)"
| "props _ = []"

definition get :: "jsval \<Rightarrow> key \<Rightarrow> jsval" where
  "get v k = (case map_of (props v) k of None \<Rightarrow> JUndef | Some w \<Rightarrow> w)"

fun upd :: "key \<Rightarrow> jsval \<Rightarrow> (key \<times> jsval) list \<Rightarrow> (key \<times> jsval) list" where
  "upd k v [] = [(k, v)]"
| "upd k v ((k', w) # ps) = (if k = k' then (k, v) # ps else (k', w) # upd k v ps)"

fun grow :: "kind \<Rightarrow> key \<Rightarrow> kind" where
  "grow (Array n) (Ix i) = Array (max n (i + 1))"
| "grow c k = c"

fun put :: "jsval \<Rightarrow> key \<Rightarrow> jsval \<Rightarrow> jsval" where
  "put (JObj c ps) k v = JObj (grow c k) (upd k v ps)"
| "put w k v = w"

fun key_index :: "key \<Rightarrow> nat" where
  "key_index (Ix i) = i"
| "key_index (Key s) = 0"

fun is_index :: "key \<Rightarrow> bool" where
  "is_index (Ix i) = True"
| "is_index (Key s) = False"

text \<open>A loop over the properties sees the indices first, in ascending order.\<close>

definition for_in :: "jsval \<Rightarrow> (key \<times> jsval) list" where
  "for_in v = sort_key (key_index \<circ> fst) (filter (is_index \<circ> fst) (props v))
     @ filter (\<lambda>p. \<not> is_index (fst p)) (props v)"

subsection \<open>Tests\<close>

definition class2type :: "(string \<times> string) list" where
  "class2type = [(''Boolean'', ''boolean''), (''Number'', ''number''), (''String'', ''string''), (''Function'', ''function''),
     (''Array'', ''array''), (''Date'', ''date''), (''RegExp'', ''regexp''), (''Object'', ''object''), (''Error'', ''error''),
     (''Symbol'', ''symbol'')]"

fun kind_tag :: "kind \<Rightarrow> string" where
  "kind_tag Plain = ''Object''"
| "kind_tag (Array n) = ''Array''"
| "kind_tag (Function f) = ''Function''"
| "kind_tag (Host t) = t"

fun jq_type :: "jsval \<Rightarrow> string" where
  "jq_type JUndef = ''undefined''"
| "jq_type JNull = ''null''"
| "jq_type (JBool b) = ''boolean''"
| "jq_type (JNum x) = ''number''"
| "jq_type (JStr s) = ''string''"
| "jq_type (JObj c ps) = (case map_of class2type (kind_tag c) of None \<Rightarrow> ''object'' | Some t \<Rightarrow> t)"

definition isFunction :: "jsval \<Rightarrow> bool" where
  "isFunction v \<longleftrightarrow> jq_type v = ''function''"

fun isWindow :: "jsval \<Rightarrow> bool" where
  "isWindow (JObj c ps) = (c = Host ''Window'')"
| "isWindow _ = False"

fun isArray :: "jsval \<Rightarrow> bool" where
  "isArray (JObj (Array n) ps) = True"
| "isArray _ = False"

fun isPlainObject :: "jsval \<Rightarrow> bool" where
  "isPlainObject (JObj c ps) = (c = Plain)"
| "isPlainObject _ = False"

definition isEmptyObject :: "jsval \<Rightarrow> bool" where
  "isEmptyObject v \<longleftrightarrow> for_in v = []"

text \<open>\<open>"length" in obj\<close> and the property. An array has it built in; the number of parameters of a function
  is not modelled, and \<open>isArrayLike\<close> does not use it.\<close>

fun length_prop :: "jsval \<Rightarrow> jsval option" where
  "length_prop (JObj (Array n) ps) = Some (JNum (jnat n))"
| "length_prop (JObj c ps) = map_of ps (Key (u ''length''))"
| "length_prop _ = None"

text \<open>\<open>(length - 1) in obj\<close>, for a length that is a positive whole number; no property has the name of a
  number that is not one.\<close>

definition last_in :: "jsval \<Rightarrow> jsnum \<Rightarrow> bool" where
  "last_in v x = (case x of
     Fin q \<Rightarrow> q \<in> \<int> \<and> Ix (nat (\<lfloor>q\<rfloor> - 1)) \<in> fst ` set (props v)
   | _ \<Rightarrow> False)"

text \<open>The operator \<open>in\<close> throws on a primitive that is not falsy.\<close>

fun isArrayLike :: "jsval \<Rightarrow> bool js" where
  "isArrayLike (JObj c ps) =
     (let v = JObj c ps; length = length_prop v; type = jq_type v
      in if type = ''function'' \<or> isWindow v then Inr False
         else Inr (type = ''array'' \<or>
           (case length of
              Some (JNum x) \<Rightarrow> js_eq x (Fin 0) \<or> (js_less (Fin 0) x \<and> last_in v x)
            | _ \<Rightarrow> False)))"
| "isArrayLike v = (if truthy v then Inl TypeError else Inr False)"

subsection \<open>Extend\<close>

text \<open>The loop over the properties of one source, into a target that is an object.\<close>

definition clone_base :: "jsval \<Rightarrow> jsval \<Rightarrow> jsval" where
  "clone_base src copy =
     (if isPlainObject copy then (if isPlainObject src then src else JObj Plain [])
      else (if isArray src then src else JObj (Array 0) []))"

lemma size_filter_props: "size_list (size_prod (\<lambda>_. 0) size) (filter P ps) \<le> size_list (size_prod (\<lambda>_. 0) size) ps"
  by (induction ps) auto

lemma size_insort_props: "size_list (size_prod (\<lambda>_. 0) size) (insort_key f p ps) = size_list (size_prod (\<lambda>_. 0) size) (p # ps)"
  by (induction ps) auto

lemma size_sort_props: "size_list (size_prod (\<lambda>_. 0) size) (sort_key f ps) = size_list (size_prod (\<lambda>_. 0) size) ps"
  by (induction ps) (auto simp: size_insort_props)

lemma size_split_props:
  "size_list (size_prod (\<lambda>_. 0) size) (filter P ps) + size_list (size_prod (\<lambda>_. 0) size) (filter (\<lambda>x. \<not> P x) ps)
     = size_list (size_prod (\<lambda>_. 0) size) ps"
  by (induction ps) auto

lemma size_append_props:
  "size_list f (xs @ ys) = size_list f xs + size_list f ys"
  by (induction xs) auto

lemma size_for_in: "size_list (size_prod (\<lambda>_. 0) size) (for_in (JObj c ps)) < size (JObj c ps)"
  using size_split_props [of "is_index \<circ> fst" ps]
  by (simp add: for_in_def size_append_props size_sort_props o_def)

lemma size_for_in_container:
  "isPlainObject v \<or> isArray v \<Longrightarrow> size_list (size_prod (\<lambda>_. 0) size) (for_in v) < Suc (Suc (size v + n))"
  by (cases v) (auto intro: less_le_trans [OF size_for_in])

function extend_entries :: "bool \<Rightarrow> jsval \<Rightarrow> (key \<times> jsval) list \<Rightarrow> jsval" where
  "extend_entries deep target [] = target"
| "extend_entries deep target ((name, copy) # es) =
     extend_entries deep
       (if deep \<and> truthy copy \<and> (isPlainObject copy \<or> isArray copy)
        then put target name (extend_entries deep (clone_base (get target name) copy) (for_in copy))
        else if copy \<noteq> JUndef then put target name copy else target) es"
  by pat_completeness auto
termination
  by (relation "measure (\<lambda>(deep, target, es). size_list (size_prod (\<lambda>_. 0) size) es)")
    (auto intro: size_for_in_container)

declare extend_entries.simps(2) [simp del]

definition extend_source :: "bool \<Rightarrow> jsval \<Rightarrow> jsval \<Rightarrow> jsval" where
  "extend_source deep target options = (if is_null options then target else extend_entries deep target (for_in options))"

text \<open>\<open>jQuery.extend(arguments)\<close>, called on \<open>this\<close>: an optional flag, the target, the sources. A target that
  is not an object is replaced by a fresh one, and with no source at all the receiver is extended.\<close>

fun is_object :: "jsval \<Rightarrow> bool" where
  "is_object (JObj c ps) = True"
| "is_object _ = False"

definition or_fresh :: "jsval \<Rightarrow> jsval" where
  "or_fresh v = (if truthy v then v else JObj Plain [])"

definition nth_arg :: "jsval list \<Rightarrow> nat \<Rightarrow> jsval" where
  "nth_arg as i = (if i < length as then as ! i else JUndef)"

definition jq_extend :: "jsval \<Rightarrow> jsval list \<Rightarrow> jsval" where
  "jq_extend this args =
     (let target = or_fresh (nth_arg args 0);
          (deep, target, i) =
            (case target of
               JBool b \<Rightarrow> (b, or_fresh (nth_arg args 1), 2)
             | _ \<Rightarrow> (False, target, 1));
          target = (if is_object target then target else JObj Plain []);
          (target, i) = (if i = length args then (this, i - 1) else (target, i))
      in foldl (extend_source deep) target (drop i args))"

subsection \<open>Iterators\<close>

text \<open>A callback gets the state, the key and the value, and returns whether its result was \<open>false\<close>, and the
  new state. The positions of an array-like object are visited up to the length it had at the start.\<close>

fun each_loop :: "('s \<Rightarrow> key \<Rightarrow> jsval \<Rightarrow> bool \<times> 's) \<Rightarrow> 's \<Rightarrow> (key \<times> jsval) list \<Rightarrow> 's" where
  "each_loop callback s [] = s"
| "each_loop callback s ((k, v) # es) =
     (case callback s k v of (stop, s') \<Rightarrow> if stop then s' else each_loop callback s' es)"

definition array_length :: "jsval \<Rightarrow> nat" where
  "array_length v = (case length_prop v of Some (JNum (Fin q)) \<Rightarrow> nat \<lceil>q\<rceil> | _ \<Rightarrow> 0)"

definition elements :: "jsval \<Rightarrow> (key \<times> jsval) list" where
  "elements v = map (\<lambda>i. (Ix i, get v (Ix i))) [0..<array_length v]"

definition entries :: "jsval \<Rightarrow> (key \<times> jsval) list js" where
  "entries v = js_bind (isArrayLike v) (\<lambda>b. Inr (if b then elements v else for_in v))"

definition each :: "('s \<Rightarrow> key \<Rightarrow> jsval \<Rightarrow> bool \<times> 's) \<Rightarrow> 's \<Rightarrow> jsval \<Rightarrow> 's js" where
  "each callback s v = js_bind (entries v) (\<lambda>es. Inr (each_loop callback s es))"

fun concat_items :: "jsval list \<Rightarrow> jsval list" where
  "concat_items [] = []"
| "concat_items (v # vs) = (if isArray v then map snd (elements v) else [v]) @ concat_items vs"

definition jq_map :: "(jsval \<Rightarrow> key \<Rightarrow> jsval) \<Rightarrow> jsval \<Rightarrow> jsval list js" where
  "jq_map callback v =
     js_bind (entries v) (\<lambda>es. Inr (concat_items (filter (\<lambda>w. \<not> is_null w) (map (\<lambda>(k, w). callback w k) es))))"

text \<open>\<open>grep\<close> and \<open>merge\<close> take arrays, here as lists.\<close>

fun grep_loop :: "('a \<Rightarrow> nat \<Rightarrow> bool) \<Rightarrow> bool \<Rightarrow> nat \<Rightarrow> 'a list \<Rightarrow> 'a list" where
  "grep_loop callback expect i [] = []"
| "grep_loop callback expect i (e # es) =
     (let inverse = \<not> callback e i
      in (if inverse \<noteq> expect then [e] else []) @ grep_loop callback expect (i + 1) es)"

definition grep :: "'a list \<Rightarrow> ('a \<Rightarrow> nat \<Rightarrow> bool) \<Rightarrow> bool \<Rightarrow> 'a list" where
  "grep elems callback invert = grep_loop callback (\<not> invert) 0 elems"

fun merge_loop :: "'a list \<Rightarrow> 'a list \<Rightarrow> nat \<Rightarrow> nat \<Rightarrow> nat \<Rightarrow> 'a list" where
  "merge_loop first second i j 0 = first"
| "merge_loop first second i j (Suc n) = merge_loop (take i first @ [second ! j] @ drop (i + 1) first) second (i + 1) (j + 1) n"

definition merge :: "'a list \<Rightarrow> 'a list \<Rightarrow> 'a list" where
  "merge first second = merge_loop first second (length first) 0 (length second)"

definition makeArray :: "jsval \<Rightarrow> jsval list \<Rightarrow> jsval list js" where
  "makeArray a ret =
     (if is_null a then Inr ret
      else case a of
        JStr s \<Rightarrow> Inr (merge ret [a])
      | JObj c ps \<Rightarrow> js_bind (isArrayLike a) (\<lambda>b. Inr (if b then merge ret (map snd (elements a)) else ret @ [a]))
      | _ \<Rightarrow> Inr (ret @ [a]))"

fun index_from :: "'a \<Rightarrow> nat \<Rightarrow> 'a list \<Rightarrow> int" where
  "index_from e n [] = - 1"
| "index_from e n (x # xs) = (if e = x then int n else index_from e (n + 1) xs)"

text \<open>\<open>indexOf.call(arr, elem, i)\<close> with a start that may be missing or negative. On values it compares
  strictly, which for the elements used here is equality.\<close>

definition inArray :: "'a \<Rightarrow> 'a list option \<Rightarrow> int \<Rightarrow> int" where
  "inArray e a i = (case a of
     None \<Rightarrow> - 1
   | Some xs \<Rightarrow>
       (let start = nat (if i < 0 then max 0 (int (length xs) + i) else i)
        in index_from e start (drop start xs)))"

subsection \<open>What a merge assigns\<close>

definition container :: "jsval \<Rightarrow> bool" where
  "container v \<longleftrightarrow> isPlainObject v \<or> isArray v"

definition merge_val :: "bool \<Rightarrow> jsval \<Rightarrow> jsval \<Rightarrow> jsval" where
  "merge_val deep src copy =
     (if deep \<and> container copy then extend_entries deep (clone_base src copy) (for_in copy)
      else if copy \<noteq> JUndef then copy else src)"

text \<open>Keys are listed once, at every level.\<close>

fun distinct_keys :: "jsval \<Rightarrow> bool" where
  "distinct_keys (JObj c ps) \<longleftrightarrow> distinct (map fst ps) \<and> list_all (\<lambda>p. distinct_keys (snd p)) ps"
| "distinct_keys _ \<longleftrightarrow> True"

lemma container_object: "container v \<Longrightarrow> is_object v \<and> truthy v"
  by (cases v) (auto simp: container_def)

lemma map_of_upd: "map_of (upd k v ps) k' = (if k = k' then Some v else map_of ps k')"
  by (induction ps) auto

lemma get_put [simp]: "is_object t \<Longrightarrow> get (put t k v) k' = (if k = k' then v else get t k')"
  by (cases t) (auto simp: get_def map_of_upd)

lemma is_object_put [simp]: "is_object (put t k v) = is_object t"
  by (cases t) auto

lemma is_object_clone_base [simp]: "is_object (clone_base src copy)"
  by (cases src) (auto simp: clone_base_def)

lemma kind_put [simp]: "isPlainObject (put t k v) = isPlainObject t" "isArray (put t k v) = isArray t"
  by (cases "(t, k, v)" rule: put.cases; cases k; cases t rule: isArray.cases; auto)+

lemma extend_entries_Cons:
  assumes "is_object t"
  shows "extend_entries deep t ((k, copy) # es) =
    extend_entries deep (if copy = JUndef then t else put t k (merge_val deep (get t k) copy)) es"
proof -
  have "(if deep \<and> truthy copy \<and> (isPlainObject copy \<or> isArray copy)
      then put t k (extend_entries deep (clone_base (get t k) copy) (for_in copy))
      else if copy \<noteq> JUndef then put t k copy else t) =
    (if copy = JUndef then t else put t k (merge_val deep (get t k) copy))"
    using container_object [of copy] unfolding merge_val_def container_def by (cases copy) (simp_all, blast)
  then show ?thesis by (simp only: extend_entries.simps(2))
qed

lemma kind_extend_entries [simp]:
  assumes "is_object t"
  shows "is_object (extend_entries deep t es)"
    and "isPlainObject (extend_entries deep t es) = isPlainObject t"
    and "isArray (extend_entries deep t es) = isArray t"
proof -
  have "is_object (extend_entries deep t es) \<and> isPlainObject (extend_entries deep t es) = isPlainObject t \<and>
      isArray (extend_entries deep t es) = isArray t"
    using assms
  proof (induction es arbitrary: t)
    case (Cons e es)
    obtain k copy where e: "e = (k, copy)" by fastforce
    show ?case
      using Cons.IH [of "if copy = JUndef then t else put t k (merge_val deep (get t k) copy)"] Cons.prems
      by (simp add: e extend_entries_Cons split: if_splits)
  qed simp
  then show "is_object (extend_entries deep t es)"
    and "isPlainObject (extend_entries deep t es) = isPlainObject t"
    and "isArray (extend_entries deep t es) = isArray t" by auto
qed

lemma merge_val_undef [simp]: "merge_val deep src JUndef = src"
  by (simp add: merge_val_def container_def)

lemma get_extend_entries:
  assumes "is_object t" and "distinct (map fst es)"
  shows "get (extend_entries deep t es) k = (case map_of es k of None \<Rightarrow> get t k | Some copy \<Rightarrow> merge_val deep (get t k) copy)"
  using assms
proof (induction es arbitrary: t)
  case (Cons e es)
  obtain k' copy where e: "e = (k', copy)" by fastforce
  have "map_of es k' = None" using Cons.prems e by (simp add: map_of_eq_None_iff)
  with Cons e show ?case by (auto simp: extend_entries_Cons split: option.splits)
qed simp


lemma distinct_for_in: "distinct (map fst (props v)) \<Longrightarrow> distinct (map fst (for_in v))"
  unfolding for_in_def map_append distinct_append
  by (auto simp: distinct_map_filter o_def distinct_map intro: inj_on_subset)

lemma set_for_in [simp]: "set (for_in v) = set (props v)"
  by (auto simp: for_in_def)

lemma map_of_for_in: "distinct (map fst (props v)) \<Longrightarrow> map_of (for_in v) k = map_of (props v) k"
  using map_of_inject_set [OF distinct_for_in [of v], of "props v"] by simp

lemma distinct_props: "distinct_keys v \<Longrightarrow> distinct (map fst (props v))"
  by (cases v) (auto simp: distinct_map inj_on_def distinct_zipI1)

subsection \<open>Laws of extend\<close>

lemma props_str: "(k, w) \<in> set (props (JStr s)) \<Longrightarrow> \<exists>c. w = JStr [c]"
  by (auto simp: set_zip)

lemma distinct_keys_prop: "distinct_keys v \<Longrightarrow> (k, w) \<in> set (props v) \<Longrightarrow> distinct_keys w"
  using props_str by (cases v) (fastforce simp: list_all_iff simp del: props.simps(2))+

lemma clone_base_same:
  "container c \<Longrightarrow> isPlainObject r = isPlainObject c \<Longrightarrow> isArray r = isArray c \<Longrightarrow> clone_base r c = r"
  by (auto simp: clone_base_def container_def)

lemma plain_not_array: "isPlainObject v \<Longrightarrow> \<not> isArray v"
  by (cases v rule: isArray.cases) auto

lemma clone_base_kind:
  "container c \<Longrightarrow> isPlainObject (clone_base s c) = isPlainObject c \<and> isArray (clone_base s c) = isArray c"
  using plain_not_array [of c] plain_not_array [of s] by (auto simp: clone_base_def container_def)

lemma upd_same: "map_of ps k = Some v \<Longrightarrow> upd k v ps = ps"
  by (induction ps) (auto split: if_splits)

text \<open>Arrays keep their indices below the length.\<close>

fun in_range :: "jsval \<Rightarrow> bool" where
  "in_range (JObj (Array n) ps) \<longleftrightarrow> (\<forall>p\<in>set ps. is_index (fst p) \<longrightarrow> key_index (fst p) < n)"
| "in_range _ \<longleftrightarrow> True"

lemma set_upd: "set (upd k v ps) \<subseteq> insert (k, v) (set ps)"
  by (induction ps) (auto split: if_splits)

lemma in_range_put: "in_range t \<Longrightarrow> in_range (put t k v)"
proof (cases "(t, k, v)" rule: put.cases)
  case (1 c ps k v)
  assume "in_range t"
  with 1 set_upd [of k v ps] show ?thesis by (cases c; cases k) (fastforce simp: max_def)+
qed auto

lemma put_same:
  assumes "is_object t" "in_range t" "map_of (props t) k = Some v"
  shows "put t k v = t"
proof (cases t)
  case (JObj c ps)
  then have "grow c k = c"
    using assms by (cases c; cases k) (auto dest!: map_of_SomeD)
  with JObj assms show ?thesis by (simp add: upd_same)
qed (use assms in auto)

lemma in_range_extend_entries: "is_object t \<Longrightarrow> in_range t \<Longrightarrow> in_range (extend_entries deep t es)"
proof (induction es arbitrary: t)
  case (Cons e es)
  obtain k copy where e: "e = (k, copy)" by fastforce
  show ?case
    using Cons.IH [of "if copy = JUndef then t else put t k (merge_val deep (get t k) copy)"] Cons.prems
    by (simp add: e extend_entries_Cons in_range_put split: if_splits)
qed simp

lemma extend_entries_fixed:
  assumes "is_object t" "in_range t" "\<forall>(k, c)\<in>set es. c = JUndef \<or> map_of (props t) k = Some (merge_val deep (get t k) c)"
  shows "extend_entries deep t es = t"
  using assms
proof (induction es)
  case (Cons e es)
  obtain k c where e: "e = (k, c)" by fastforce
  with Cons show ?case by (cases "c = JUndef") (simp_all add: extend_entries_Cons put_same)
qed simp

lemma get_Some: "get v k \<noteq> JUndef \<Longrightarrow> map_of (props v) k = Some (get v k)"
  by (auto simp: get_def split: option.splits)

lemma merge_val_defined: "c \<noteq> JUndef \<Longrightarrow> merge_val deep s c \<noteq> JUndef"
proof (cases "deep \<and> container c")
  case True
  have "is_object (extend_entries deep (clone_base s c) (for_in c))" by simp
  then have "extend_entries deep (clone_base s c) (for_in c) \<noteq> JUndef" by (metis is_object.simps(2))
  with True show "merge_val deep s c \<noteq> JUndef" by (simp add: merge_val_def)
qed (auto simp: merge_val_def)

lemma in_range_clone_base: "in_range s \<Longrightarrow> in_range (clone_base s c)"
  by (simp add: clone_base_def)

text \<open>Values whose arrays are in range at every level.\<close>

fun ranged :: "jsval \<Rightarrow> bool" where
  "ranged (JObj c ps) \<longleftrightarrow> in_range (JObj c ps) \<and> list_all (\<lambda>p. ranged (snd p)) ps"
| "ranged _ \<longleftrightarrow> True"

lemma ranged_in_range: "ranged v \<Longrightarrow> in_range v"
  by (cases v) auto

lemma ranged_get: "ranged v \<Longrightarrow> ranged (get v k)"
  using props_str
  by (cases v) (fastforce simp: get_def list_all_iff simp del: props.simps(2) split: option.splits dest!: map_of_SomeD)+

lemma ranged_clone_base: "ranged s \<Longrightarrow> ranged (clone_base s c)"
  by (simp add: clone_base_def)

lemma merge_val_again:
  assumes "\<And>t. is_object t \<Longrightarrow> ranged t \<Longrightarrow> extend_entries deep (extend_entries deep t (for_in c)) (for_in c) = extend_entries deep t (for_in c)"
    and "ranged s"
  shows "merge_val deep (merge_val deep s c) c = merge_val deep s c"
proof (cases "deep \<and> container c")
  case True
  let ?r = "extend_entries deep (clone_base s c) (for_in c)"
  have "clone_base ?r c = ?r"
    using True clone_base_kind [of c s] by (intro clone_base_same) simp_all
  moreover have "extend_entries deep ?r (for_in c) = ?r"
    by (rule assms(1)) (simp_all add: ranged_clone_base assms(2))
  ultimately show ?thesis using True by (simp add: merge_val_def)
qed (auto simp: merge_val_def)

lemma extend_entries_idem:
  assumes "is_object t" "ranged t" "distinct (map fst es)" "\<forall>(k, c)\<in>set es. distinct_keys c"
  shows "extend_entries deep (extend_entries deep t es) es = extend_entries deep t es"
  using assms
proof (induction "size_list (size_prod (\<lambda>_. 0) size) es" arbitrary: t es rule: less_induct)
  case less
  let ?r = "extend_entries deep t es"
  have "map_of (props ?r) k = Some (merge_val deep (get ?r k) c)" if kc: "(k, c) \<in> set es" "c \<noteq> JUndef" for k c
  proof -
    have g: "get ?r k = merge_val deep (get t k) c"
      using less.prems kc by (simp add: get_extend_entries)
    have "merge_val deep (merge_val deep (get t k) c) c = merge_val deep (get t k) c"
    proof (cases "container c")
      case True
      have "size_list (size_prod (\<lambda>_. 0) size) (for_in c) < size c"
        using True size_for_in by (cases c) (auto simp: container_def)
      moreover have "size c \<le> size_list (size_prod (\<lambda>_. 0) size) es"
        using size_list_estimation' [OF kc(1), of "size c" "size_prod (\<lambda>_. 0) size"] by simp
      ultimately have small: "size_list (size_prod (\<lambda>_. 0) size) (for_in c) < size_list (size_prod (\<lambda>_. 0) size) es" by simp
      have dc: "distinct_keys c" using less.prems kc by auto
      show ?thesis
        by (rule merge_val_again)
          (auto intro!: less.hyps [OF small] distinct_for_in distinct_props dc ranged_get less.prems(2)
            dest: distinct_keys_prop [OF dc])
    qed (simp add: merge_val_def)
    with g get_Some [of ?r k] merge_val_defined [OF kc(2)] show ?thesis by simp
  qed
  then show ?case
    using less.prems(1,2) by (intro extend_entries_fixed) (auto intro: in_range_extend_entries ranged_in_range)
qed

text \<open>The value at the end of a path of keys, and whether a source says anything about it.\<close>

fun value_at :: "jsval \<Rightarrow> key list \<Rightarrow> jsval" where
  "value_at v [] = v"
| "value_at v (k # p) = value_at (get v k) p"

lemma merge_val_leaf: "\<not> container c \<Longrightarrow> c \<noteq> JUndef \<Longrightarrow> merge_val deep s c = c"
  by (simp add: merge_val_def)

lemma get_merge_container:
  assumes "container c" "distinct_keys c"
  shows "get (merge_val True s c) k = merge_val True (get (clone_base s c) k) (get c k)"
proof -
  have "get (merge_val True s c) k = (case map_of (for_in c) k of None \<Rightarrow> get (clone_base s c) k
      | Some copy \<Rightarrow> merge_val True (get (clone_base s c) k) copy)"
    using assms by (simp add: merge_val_def get_extend_entries distinct_for_in distinct_props)
  also have "\<dots> = merge_val True (get (clone_base s c) k) (get c k)"
    using assms by (simp add: map_of_for_in distinct_props get_def split: option.splits)
  finally show ?thesis .
qed

lemma distinct_keys_get: "distinct_keys v \<Longrightarrow> distinct_keys (get v k)"
  by (cases "map_of (props v) k") (auto simp: get_def dest: map_of_SomeD distinct_keys_prop)

fun inner :: "jsval \<Rightarrow> key list \<Rightarrow> bool" where
  "inner s [] \<longleftrightarrow> True"
| "inner s (k # p) \<longleftrightarrow> container s \<and> inner (get s k) p"

fun same_shape :: "jsval \<Rightarrow> jsval \<Rightarrow> key list \<Rightarrow> bool" where
  "same_shape t s [] \<longleftrightarrow> True"
| "same_shape t s (k # p) \<longleftrightarrow>
     isPlainObject t = isPlainObject s \<and> isArray t = isArray s \<and> same_shape (get t k) (get s k) p"

lemma merge_val_path_leaf:
  assumes "inner s p" "distinct_keys s" "\<not> container (value_at s p)" "value_at s p \<noteq> JUndef"
  shows "value_at (merge_val True t s) p = value_at s p"
  using assms
  by (induction p arbitrary: s t) (simp_all add: merge_val_leaf get_merge_container distinct_keys_get)

lemma merge_val_path_silent:
  assumes "inner s p" "distinct_keys s" "value_at s p = JUndef" "same_shape t s p"
  shows "value_at (merge_val True t s) p = value_at t p"
  using assms
  by (induction p arbitrary: s t) (simp_all add: get_merge_container clone_base_same distinct_keys_get)

lemma extend_deep_eq:
  assumes "isPlainObject t" "isPlainObject s"
  shows "jq_extend this [JBool True, t, s] = merge_val True t s"
proof -
  have "is_object t" "truthy t" "\<not> is_null s" using assms by (cases t; cases s; auto)+
  then show ?thesis
    using assms by (simp add: jq_extend_def nth_arg_def or_fresh_def extend_source_def merge_val_def clone_base_def container_def)
qed

lemma extend_shallow_eq:
  assumes "is_object t"
  shows "jq_extend this [t, s] = extend_source False t s"
  using assms by (cases t) (auto simp: jq_extend_def nth_arg_def or_fresh_def)

text \<open>
  C40. Deep extension of an object by an object, as the client merges the options of its plot: along
  every path of keys that ends in the source at a plain value, the result has the source's value; and
  along every path the source does not have, while it has the same shape as the target up to there,
  the result has what the target had.
\<close>

theorem extend_deep_paths:
  assumes "isPlainObject t" and "isPlainObject s" and "distinct_keys s" and "inner s p"
  shows "(\<not> container (value_at s p) \<and> value_at s p \<noteq> JUndef \<longrightarrow>
      value_at (jq_extend this [JBool True, t, s]) p = value_at s p) \<and>
    (value_at s p = JUndef \<and> same_shape t s p \<longrightarrow> value_at (jq_extend this [JBool True, t, s]) p = value_at t p)"
  using assms by (simp add: extend_deep_eq merge_val_path_leaf merge_val_path_silent)

theorem extend_deep_paths_witness:
  "value_at (jq_extend JNull [JBool True, obj [(''xaxis'', obj [(''min'', JNum (Fin 1))])], obj [(''xaxis'', obj [(''mode'', JStr (u ''time''))])]])
     [Key (u ''xaxis''), Key (u ''mode'')] = JStr (u ''time'') \<and>
   value_at (jq_extend JNull [JBool True, obj [(''xaxis'', obj [(''min'', JNum (Fin 1))])], obj [(''xaxis'', obj [(''mode'', JStr (u ''time''))])]])
     [Key (u ''xaxis''), Key (u ''min'')] = JNum (Fin 1)"
proof -
  let ?t = "obj [(''xaxis'', obj [(''min'', JNum (Fin 1))])]"
  let ?s = "obj [(''xaxis'', obj [(''mode'', JStr (u ''time''))])]"
  show ?thesis
    using extend_deep_paths [of ?t ?s "[Key (u ''xaxis''), Key (u ''mode'')]" JNull]
      extend_deep_paths [of ?t ?s "[Key (u ''xaxis''), Key (u ''min'')]" JNull]
    by (simp add: get_def container_def u_def)
qed

text \<open>
  Extending by the same source twice is extending once, deep or shallow, for targets whose arrays
  have no element beyond their length.
\<close>

theorem extend_idempotent:
  assumes "isPlainObject t" and "ranged t" and "isPlainObject s" and "distinct_keys s"
  shows "jq_extend this [JBool True, jq_extend this [JBool True, t, s], s] = jq_extend this [JBool True, t, s] \<and>
    jq_extend this [jq_extend this [t, s], s] = jq_extend this [t, s]"
proof
  have o: "is_object t" "\<not> is_null s" using assms by (cases t; cases s; auto)+
  have d: "distinct (map fst (for_in s))" "\<forall>(k, c)\<in>set (for_in s). distinct_keys c"
    using assms(4) distinct_keys_prop [OF assms(4)] by (auto intro!: distinct_for_in distinct_props)
  have m: "merge_val True t' s = extend_entries True t' (for_in s)" if "isPlainObject t'" for t'
    using that assms(3) by (simp add: merge_val_def container_def clone_base_def)
  show "jq_extend this [JBool True, jq_extend this [JBool True, t, s], s] = jq_extend this [JBool True, t, s]"
    using assms o extend_entries_idem [OF o(1) assms(2) d, of True] by (simp add: extend_deep_eq m)
  show "jq_extend this [jq_extend this [t, s], s] = jq_extend this [t, s]"
    using o extend_entries_idem [OF o(1) assms(2) d, of False] by (simp add: extend_shallow_eq extend_source_def)
qed

theorem extend_idempotent_witness:
  "jq_extend JNull [jq_extend JNull [obj [(''a'', JNull)], obj [(''b'', JBool True)]], obj [(''b'', JBool True)]]
    = jq_extend JNull [obj [(''a'', JNull)], obj [(''b'', JBool True)]]"
  using extend_idempotent [of "obj [(''a'', JNull)]" "obj [(''b'', JBool True)]" JNull] by simp

subsection \<open>The selection stack\<close>

text \<open>A selection has its elements and the selection it was made from.\<close>

datatype 'e jq = JQ (elems: "'e list") (prevObject: "'e jq option")

definition pushStack :: "'e jq \<Rightarrow> 'e list \<Rightarrow> 'e jq" where
  "pushStack this els = JQ (merge [] els) (Some this)"

definition toArray :: "'e jq \<Rightarrow> 'e list" where
  "toArray this = elems this"

text \<open>\<open>this[num]\<close>: a missing element reads as \<open>undefined\<close>, here \<open>None\<close>; without a number the whole list.\<close>

definition elem_at :: "'e list \<Rightarrow> int \<Rightarrow> 'e option" where
  "elem_at es i = (if 0 \<le> i \<and> i < int (length es) then Some (es ! nat i) else None)"

definition jq_get :: "'e jq \<Rightarrow> int option \<Rightarrow> 'e list + 'e option" where
  "jq_get this num = (case num of
     None \<Rightarrow> Inl (elems this)
   | Some n \<Rightarrow> Inr (if n < 0 then elem_at (elems this) (n + int (length (elems this))) else elem_at (elems this) n))"

definition jq_eq :: "'e jq \<Rightarrow> int \<Rightarrow> 'e jq" where
  "jq_eq this i =
     (let len = int (length (elems this)); j = i + (if i < 0 then len else 0)
      in pushStack this (if 0 \<le> j \<and> j < len then [elems this ! nat j] else []))"

definition jq_first :: "'e jq \<Rightarrow> 'e jq" where
  "jq_first this = jq_eq this 0"

definition jq_last :: "'e jq \<Rightarrow> 'e jq" where
  "jq_last this = jq_eq this (- 1)"

text \<open>\<open>Array.prototype.slice\<close> with relative bounds; a missing end is the length.\<close>

definition rel_index :: "nat \<Rightarrow> int \<Rightarrow> nat" where
  "rel_index n i = nat (if i < 0 then max 0 (int n + i) else min i (int n))"

definition slice :: "'a list \<Rightarrow> int \<Rightarrow> int option \<Rightarrow> 'a list" where
  "slice xs a b =
     (let n = length xs; i = rel_index n a; j = (case b of None \<Rightarrow> n | Some b \<Rightarrow> rel_index n b)
      in take (j - i) (drop i xs))"

definition jq_slice :: "'e jq \<Rightarrow> int \<Rightarrow> int option \<Rightarrow> 'e jq" where
  "jq_slice this a b = pushStack this (slice (elems this) a b)"

definition end_stack :: "'e jq \<Rightarrow> 'e jq" where
  "end_stack this = (case prevObject this of None \<Rightarrow> JQ [] None | Some p \<Rightarrow> p)"

subsection \<open>Texts\<close>

definition is_lower :: "nat \<Rightarrow> bool" where
  "is_lower c \<longleftrightarrow> 97 \<le> c \<and> c \<le> 122"

text \<open>\<open>/-([a-z])/g\<close> with the letter put in upper case.\<close>

fun dash_alpha :: "ustring \<Rightarrow> ustring" where
  "dash_alpha (a # b # s) = (if a = 45 \<and> is_lower b then (b - 32) # dash_alpha s else a # dash_alpha (b # s))"
| "dash_alpha s = s"

definition ms_prefix :: "ustring \<Rightarrow> ustring" where
  "ms_prefix s = (case strip_prefix (u ''-ms-'') s of Some r \<Rightarrow> u ''ms-'' @ r | None \<Rightarrow> s)"

definition camelCase :: "ustring \<Rightarrow> ustring" where
  "camelCase s = dash_alpha (ms_prefix s)"

text \<open>\<open>\s\<close>, the byte order mark and the non-breaking space.\<close>

definition is_space :: "nat \<Rightarrow> bool" where
  "is_space c \<longleftrightarrow> c \<in> {9, 10, 11, 12, 13, 32, 160, 5760, 8232, 8233, 8239, 8287, 12288, 65279} \<or> (8192 \<le> c \<and> c \<le> 8202)"

definition trim :: "ustring \<Rightarrow> ustring" where
  "trim s = rev (dropWhile is_space (rev (dropWhile is_space s)))"

subsection \<open>Properties of the iterators, selections and texts\<close>

lemma grep_loop_filter:
  "grep_loop callback expect i es = map fst (filter (\<lambda>(e, j). callback e j = expect) (zip es [i..<i + length es]))"
proof (induction es arbitrary: i)
  case (Cons e es)
  have "[i..<i + length (e # es)] = i # [Suc i..<Suc i + length es]" by (simp add: upt_rec)
  with Cons [of "Suc i"] show ?case by auto
qed simp

lemma merge_loop_append:
  assumes "length xs = i" "j + n = length second"
  shows "merge_loop xs second i j n = xs @ drop j second"
  using assms
proof (induction n arbitrary: xs i j)
  case (Suc n)
  then have "drop j second = second ! j # drop (j + 1) second" by (simp add: Cons_nth_drop_Suc)
  with Suc show ?case by simp
qed simp

lemma merge_append [simp]: "merge first second = first @ second"
  by (simp add: merge_def merge_loop_append)

lemma each_loop_all:
  assumes "\<And>s k v. fst (callback s k v) = False"
  shows "each_loop callback s es = foldl (\<lambda>s (k, v). snd (callback s k v)) s es"
proof (induction es arbitrary: s)
  case (Cons e es)
  obtain k v where "e = (k, v)" by fastforce
  with Cons assms [of s k v] show ?case by (simp add: case_prod_beta)
qed simp

lemma array_length_arr [simp]: "array_length (arr vs) = length vs"
  by (simp add: arr_def array_length_def)

lemma map_of_zip_Ix: "map_of (zip (map Ix [0..<length vs]) vs) (Ix i) = (if i < length vs then Some (vs ! i) else None)"
proof (cases "i < length vs")
  case True
  then have "(Ix i, vs ! i) \<in> set (zip (map Ix [0..<length vs]) vs)" by (auto simp: set_zip intro!: exI [of _ i])
  moreover have "distinct (map fst (zip (map Ix [0..<length vs]) vs))" by (auto simp: distinct_map inj_on_def)
  ultimately show ?thesis using True by (simp add: map_of_is_SomeI)
next
  case False
  then have "Ix i \<notin> fst ` set (zip (map Ix [0..<length vs]) vs)" by (auto simp: set_zip)
  with False show ?thesis by (simp add: map_of_eq_None_iff)
qed

lemma get_arr [simp]: "i < length vs \<Longrightarrow> get (arr vs) (Ix i) = vs ! i"
  by (simp add: get_def arr_def map_of_zip_Ix)

lemma elements_arr [simp]: "map snd (elements (arr vs)) = vs"
  by (rule nth_equalityI) (simp_all add: elements_def)

lemma elements_arr_map: "map (\<lambda>(k, w). f w) (elements (arr vs)) = map f vs"
proof -
  have "map (\<lambda>(k, w). f w) (elements (arr vs)) = map f (map snd (elements (arr vs)))" by (simp add: case_prod_beta del: elements_arr)
  then show ?thesis by simp
qed

lemma isArrayLike_arr: "isArrayLike (arr vs) = Inr True"
  by (simp add: arr_def class2type_def Let_def)

lemma entries_arr: "entries (arr vs) = Inr (elements (arr vs))"
  by (simp add: entries_def isArrayLike_arr)

lemma isArray_arr [simp]: "isArray (arr vs)"
  by (simp add: arr_def)

lemma concat_items_arr: "concat_items (map arr vss) = concat vss"
  by (induction vss) simp_all

lemma makeArray_arr: "makeArray (arr vs) ret = Inr (ret @ vs)"
proof -
  have "makeArray (arr vs) ret = js_bind (isArrayLike (arr vs)) (\<lambda>b. Inr (if b then merge ret (map snd (elements (arr vs))) else ret @ [arr vs]))"
    by (subst makeArray_def) (simp add: arr_def)
  then show ?thesis by (simp add: isArrayLike_arr)
qed

text \<open>
  The iterators on arrays: \<open>merge\<close> appends, \<open>grep\<close> selects the elements for which the callback's answer
  differs from the flag \<open>invert\<close>, in order, \<open>makeArray\<close> of an array copies it, and of a text wraps it; \<open>map\<close>
  drops null results and flattens arrays one level.
\<close>

theorem iterators_arrays:
  "merge xs ys = xs @ ys \<and>
   grep xs f invert = map fst (filter (\<lambda>(e, j). f e j = (\<not> invert)) (zip xs [0..<length xs])) \<and>
   makeArray (arr vs) ret = Inr (ret @ vs) \<and> makeArray (JStr s) ret = Inr (ret @ [JStr s]) \<and>
   jq_map (\<lambda>v k. arr [v, v]) (arr vs) = Inr (concat (map (\<lambda>v. [v, v]) vs)) \<and>
   jq_map (\<lambda>v k. v) (arr (map arr vss)) = Inr (concat vss)"
proof -
  have nn: "filter (\<lambda>w. \<not> is_null w) (map arr vss) = map arr vss" for vss by (induction vss) (simp_all add: arr_def)
  have "map (\<lambda>(k, w). arr [w, w]) (elements (arr vs)) = map arr (map (\<lambda>w. [w, w]) vs)"
    by (simp add: elements_arr_map)
  then have "jq_map (\<lambda>v k. arr [v, v]) (arr vs) = Inr (concat (map (\<lambda>v. [v, v]) vs))"
    by (simp only: jq_map_def entries_arr js_bind_simps nn concat_items_arr)
  moreover have "map (\<lambda>(k, w). w) (elements (arr (map arr vss))) = map arr vss"
    by (simp add: elements_arr_map)
  then have "jq_map (\<lambda>v k. v) (arr (map arr vss)) = Inr (concat vss)"
    by (simp only: jq_map_def entries_arr js_bind_simps nn concat_items_arr)
  ultimately show ?thesis
    by (simp add: grep_def grep_loop_filter makeArray_arr) (simp add: makeArray_def)
qed

text \<open>
  The selection stack: \<open>eq(i)\<close> holds the one element that \<open>get(i)\<close> returns, counted from the end for
  negative positions, and is empty where \<open>get(i)\<close> is \<open>undefined\<close>; \<open>end()\<close> undoes \<open>eq\<close>, \<open>first\<close>, \<open>last\<close> and \<open>slice\<close>.
\<close>

theorem selection_stack:
  "jq_get q (Some i) = Inr (case elems (jq_eq q i) of [] \<Rightarrow> None | e # _ \<Rightarrow> Some e) \<and>
   length (elems (jq_eq q i)) \<le> 1 \<and> end_stack (jq_eq q i) = q \<and> end_stack (jq_first q) = q \<and>
   end_stack (jq_last q) = q \<and> end_stack (jq_slice q a b) = q \<and>
   elems (jq_slice q 0 None) = elems q"
  by (simp add: jq_get_def jq_eq_def pushStack_def elem_at_def end_stack_def jq_first_def jq_last_def jq_slice_def
      slice_def rel_index_def Let_def)

fun has_dash_lower :: "ustring \<Rightarrow> bool" where
  "has_dash_lower (a # b # s) \<longleftrightarrow> (a = 45 \<and> is_lower b) \<or> has_dash_lower (b # s)"
| "has_dash_lower s \<longleftrightarrow> False"

lemma dash_alpha_hd: "dash_alpha (a # s) \<noteq> [] \<and> (is_lower (hd (dash_alpha (a # s))) \<longrightarrow> is_lower a)"
  by (cases s) (auto simp: is_lower_def)

lemma dash_alpha_clean: "\<not> has_dash_lower (dash_alpha s)"
proof (induction s rule: dash_alpha.induct)
  case (1 a b s)
  show ?case
  proof (cases "a = 45 \<and> is_lower b")
    case True
    then have "b - 32 \<noteq> 45" by (auto simp: is_lower_def)
    with True 1(1) show ?thesis by (cases "dash_alpha s") auto
  next
    case False
    with 1(2) dash_alpha_hd [of b s] show ?thesis by (cases "dash_alpha (b # s)") auto
  qed
qed auto

lemma dash_alpha_id: "\<not> has_dash_lower s \<Longrightarrow> dash_alpha s = s"
  by (induction s rule: dash_alpha.induct) auto

lemma ms_prefix_id: "\<not> has_dash_lower s \<Longrightarrow> ms_prefix s = s"
  by (cases s rule: has_dash_lower.cases) (auto simp: ms_prefix_def u_def is_lower_def split: option.splits)

lemma trim_Nil: "trim [] = []"
  by (simp add: trim_def)

text \<open>
  Names of properties: \<open>camelCase\<close> leaves no dash before a lower case letter, and applying it again
  changes nothing; \<open>trim\<close> gives a text that neither starts nor ends with a space, from which the original
  differs only by spaces at its ends.
\<close>

theorem text_normal_forms:
  "\<not> has_dash_lower (camelCase s) \<and> camelCase (camelCase s) = camelCase s \<and> trim (trim s) = trim s \<and>
   (trim s = [] \<or> \<not> is_space (hd (trim s)) \<and> \<not> is_space (List.last (trim s))) \<and>
   (\<exists>a b. s = a @ trim s @ b \<and> list_all is_space (a @ b))"
proof -
  let ?d = "dropWhile is_space s" and ?e = "dropWhile is_space (rev (dropWhile is_space s))"
  have e: "trim s = [] \<or> \<not> is_space (hd (rev ?e)) \<and> \<not> is_space (List.last (rev ?e))"
  proof (cases "?e = []")
    case False
    have s2: "rev ?d = takeWhile is_space (rev ?d) @ ?e" by (rule takeWhile_dropWhile_id [symmetric])
    then have s3: "?d = rev ?e @ rev (takeWhile is_space (rev ?d))" by (metis rev_append rev_rev_ident)
    have "?d \<noteq> []" using False by force
    moreover have "hd (rev ?e) = hd ?d" using False s3 by (metis Nil_is_rev_conv hd_append2)
    moreover note False
    ultimately show ?thesis
      using hd_dropWhile [of is_space s] hd_dropWhile [of is_space "rev ?d"] by (metis Nil_is_rev_conv last_rev)
  qed (simp add: trim_def)
  have "s = takeWhile is_space s @ trim s @ rev (takeWhile is_space (rev ?d))"
    by (metis append.assoc rev_append rev_rev_ident takeWhile_dropWhile_id trim_def)
  moreover have "list_all is_space (takeWhile is_space s @ rev (takeWhile is_space (rev ?d)))"
    by (auto simp: list_all_iff dest: set_takeWhileD)
  ultimately have x: "\<exists>a b. s = a @ trim s @ b \<and> list_all is_space (a @ b)" by blast
  have "trim (trim s) = trim s"
  proof (cases "trim s = []")
    case False
    then have "dropWhile is_space (trim s) = trim s" "dropWhile is_space (rev (trim s)) = rev (trim s)"
      using e by (auto simp: trim_def [symmetric] dropWhile_eq_self_iff hd_rev)
    then show ?thesis by (subst trim_def) simp
  qed (simp add: trim_Nil)
  with e x show ?thesis
    by (simp add: trim_def [symmetric] camelCase_def dash_alpha_clean dash_alpha_id ms_prefix_id)
qed

end
