(* ===== verification/App.thy ===== *)
theory App
  imports Msg Api JqCore
begin

text \<open>
  The application of the browser, \<open>web/socket/app.js\<close>: its global variables, the handlers of the page, of the
  sockets and of the timers, and the plot. The state is one record. A socket is an address in the
  list of all sockets that were opened, since the variable \<open>connection\<close> and the handlers of a socket that
  it no longer names are different things. Of the page the record has the status line, the list of
  nodes, the inputs and the timers.

  The plotting library is not part of the sources: a record of functions stands for what the
  application calls of it. The clock is a function of the number of times it was read in a handler.
\<close>

subsection \<open>State\<close>

text \<open>A node as the server lists it. \<open>n_out\<close> is the property \<open>out\<close> with its list of signals, of which each
  may have a name; any of them may be missing.\<close>

record node =
  n_name :: ustring
  n_type :: ustring
  n_description :: "ustring option"
  n_out :: "ustring option list option option"

text \<open>What the application uses of the plotting library.\<close>

record 'p flot =
  fl_plot :: "jsval list \<Rightarrow> jsval \<Rightarrow> 'p js"
  fl_xaxes :: "'p \<Rightarrow> (jsnum \<times> jsnum) list"
  fl_set_xaxes :: "(jsnum \<times> jsnum) list \<Rightarrow> 'p \<Rightarrow> 'p"
  fl_setupGrid :: "'p \<Rightarrow> 'p"
  fl_draw :: "'p \<Rightarrow> 'p"
  fl_clearSelection :: "'p \<Rightarrow> 'p"

record button =
  b_active :: bool
  b_text :: ustring
  b_name :: ustring

type_synonym point = "jsnum \<times> jsnum"

text \<open>The first group are the variables of the script, the second the page and the browser: the sockets
  that exist, the frames that went out on them, the running intervals with their delays, the
  reconnections that wait for their timeout, the status line, the buttons, the inputs, how often a
  handler is bound to the selection event of the plot, and where the page was sent.\<close>

record 'p app =
  api :: "(unit, node list option) api option"
  conn :: "nat option"
  timer :: "nat option"
  plot :: "'p option"
  nodes :: "node list option"
  currentNode :: "node option"
  paused :: bool
  sequence :: nat
  plotData :: "point list list"
  updateRate :: jsnum
  redrawPlot :: bool
  xDelta :: jsnum
  xPast :: jsnum
  xFuture :: jsnum
  sockets :: "socket list"
  outgoing :: "(nat \<times> byte list) list"
  intervals :: "(nat \<times> jsnum) list"
  next_timer :: nat
  reconnects :: nat
  status_text :: ustring
  status_color :: ustring
  selector :: "button list"
  buttonset :: bool
  slider_value :: jsnum
  checkboxes :: "bool list"
  selection_handlers :: nat
  loc :: location
  navigated :: "ustring option"

text \<open>The literals 0.9 and 0.1 are the nearest binary numbers.\<close>

definition lit_0_9 :: jsnum where "lit_0_9 = to_num False (9 / 10)"
definition lit_0_1 :: jsnum where "lit_0_1 = to_num False (1 / 10)"

definition app_init :: "location \<Rightarrow> bool list \<Rightarrow> 'p app" where
  "app_init l boxes = \<lparr>api = None, conn = None, timer = None, plot = None, nodes = Some [], currentNode = None,
     paused = False, sequence = 0, plotData = [], updateRate = Fin 25, redrawPlot = True,
     xDelta = Fin 5000, xPast = js_mul (Fin 5000) lit_0_9, xFuture = js_mul (Fin 5000) lit_0_1,
     sockets = [], outgoing = [], intervals = [], next_timer = 1, reconnects = 0, status_text = [], status_color = [],
     selector = [], buttonset = False, slider_value = Fin 0, checkboxes = boxes, selection_handlers = 0, loc = l,
     navigated = None\<rparr>"

definition plotOptions :: jsval where
  "plotOptions = obj [(''xaxis'', obj [(''mode'', JStr (u ''time''))]), (''legend'', obj [(''show'', JBool True)]),
     (''selection'', obj [(''mode'', JStr (u ''x''))])]"

subsection \<open>Timers\<close>

definition setInterval :: "jsnum \<Rightarrow> 'p app \<Rightarrow> nat \<times> 'p app" where
  "setInterval delay a = (next_timer a, a\<lparr>intervals := intervals a @ [(next_timer a, delay)], next_timer := next_timer a + 1\<rparr>)"

definition clearInterval :: "nat option \<Rightarrow> 'p app \<Rightarrow> 'p app" where
  "clearInterval t a = (case t of None \<Rightarrow> a | Some i \<Rightarrow> a\<lparr>intervals := filter (\<lambda>p. fst p \<noteq> i) (intervals a)\<rparr>)"

subsection \<open>Sockets of the application\<close>

text \<open>A new socket throws when its address has a fragment.\<close>

definition wsConnect :: "node option \<Rightarrow> 'p app \<Rightarrow> nat js \<times> 'p app" where
  "wsConnect node a = (case node of
     None \<Rightarrow> (Inl TypeError, a)
   | Some n \<Rightarrow>
       (let url = wsUrl (loc a) (n_name n)
        in if 35 \<in> set url then (Inl SyntaxError, a)
           else (Inr (length (sockets a)), a\<lparr>sockets := sockets a @ [WebSocket url ''live'']\<rparr>)))"

definition set_state :: "nat \<Rightarrow> ready_state \<Rightarrow> 'p app \<Rightarrow> 'p app" where
  "set_state i st a = (if i < length (sockets a) then a\<lparr>sockets := (sockets a)[i := (sockets a ! i)\<lparr>sk_state := st\<rparr>]\<rparr> else a)"

text \<open>The handlers of socket \<open>i\<close>; the browser has put the socket into its new state before.\<close>

definition conn_onopen :: "nat \<Rightarrow> 'p app \<Rightarrow> 'p app" where
  "conn_onopen i a = (set_state i OPEN a)\<lparr>status_text := u ''Connected'', status_color := u ''green''\<rparr>"

definition conn_onclose :: "nat \<Rightarrow> ustring \<Rightarrow> 'p app \<Rightarrow> 'p app" where
  "conn_onclose i reason a = (set_state i CLOSED a)\<lparr>
     status_text := u ''Disconnected'' @ (if reason \<noteq> [] then u '' ('' @ reason @ u '')'' else []),
     status_color := u ''red'', reconnects := reconnects a + 1\<rparr>"

text \<open>The timeout that \<open>onclose\<close> sets: the new socket is not stored in \<open>connection\<close>.\<close>

definition reconnect :: "'p app \<Rightarrow> unit js \<times> 'p app" where
  "reconnect a = (case wsConnect (currentNode a) (a\<lparr>reconnects := reconnects a - 1\<rparr>) of
     (Inl e, a) \<Rightarrow> (Inl e, a) | (Inr i, a) \<Rightarrow> (Inr (), a))"

definition conn_onerror :: "ustring option \<Rightarrow> 'p app \<Rightarrow> 'p app" where
  "conn_onerror message a = a\<lparr>status_text := u ''Status: Error: '' @
     (case message of None \<Rightarrow> u ''undefined'' | Some m \<Rightarrow> m)\<rparr>"

text \<open>Removal of old points: the clock is read for every comparison.\<close>

fun prune :: "(nat \<Rightarrow> jsnum) \<Rightarrow> jsnum \<Rightarrow> nat \<Rightarrow> point list \<Rightarrow> nat \<times> point list" where
  "prune now past k [] = (k, [])"
| "prune now past k (p # ps) =
     (if js_less (fst p) (js_sub (now k) past) then prune now past (k + 1) ps else (k + 1, p # ps))"

fun prune_all :: "(nat \<Rightarrow> jsnum) \<Rightarrow> jsnum \<Rightarrow> nat \<Rightarrow> point list list \<Rightarrow> point list list" where
  "prune_all now past k [] = []"
| "prune_all now past k (s # ss) = (case prune now past k s of (k', s') \<Rightarrow> s' # prune_all now past k' ss)"

definition add_series :: "nat \<Rightarrow> point list list \<Rightarrow> point list list" where
  "add_series n ss = ss @ replicate (n - length ss) []"

text \<open>The points of one message, position by position; a missing value reads as NaN.\<close>

fun add_points :: "nat \<Rightarrow> nat \<Rightarrow> msg \<Rightarrow> point list list \<Rightarrow> point list list" where
  "add_points 0 i m ss = ss"
| "add_points (Suc n) i m ss =
     add_points n (i + 1) m (ss[i := ss ! i @ [(m_timestamp m, (case m_data m of
        Some xs \<Rightarrow> if i < length xs then xs ! i else NaN | None \<Rightarrow> NaN))]])"

fun append_msgs :: "msg list \<Rightarrow> point list list \<Rightarrow> point list list" where
  "append_msgs [] ss = ss"
| "append_msgs (m # ms) ss = append_msgs ms (add_points (m_length m) 0 m (add_series (m_length m) ss))"

definition conn_onmessage :: "(nat \<Rightarrow> jsnum) \<Rightarrow> byte list \<Rightarrow> 'p app \<Rightarrow> unit js \<times> 'p app" where
  "conn_onmessage now data a = (case fromArrayBufferVector (now 0) data of
     Inl e \<Rightarrow> (Inl e, a)
   | Inr msgs \<Rightarrow> (Inr (), a\<lparr>plotData := append_msgs msgs (prune_all now (xPast a) 0 (plotData a)), redrawPlot := True\<rparr>))"

subsection \<open>Sending\<close>

text \<open>\<open>1 << i\<close>: the shift count is taken modulo 32 and the result is a signed number of 32 bits.\<close>

definition shift_one :: "nat \<Rightarrow> int" where
  "shift_one i = (if i mod 32 = 31 then - (2 ^ 31) else 2 ^ (i mod 32))"

fun checkbox_sum :: "nat \<Rightarrow> bool list \<Rightarrow> jsnum \<Rightarrow> jsnum" where
  "checkbox_sum i [] acc = acc"
| "checkbox_sum i (c # cs) acc = checkbox_sum (i + 1) cs (js_add acc (Fin (of_int (if c then shift_one i else 0))))"

definition input_data :: "'p app \<Rightarrow> jsnum list" where
  "input_data a = [js_div (slider_value a) (Fin 100), checkbox_sum 0 (checkboxes a) (Fin 0)]"

definition input_msg :: "jsnum \<Rightarrow> 'p app \<Rightarrow> msg js" where
  "input_msg now a = Msg now (Some (no_args\<lparr>c_timestamp := Some now, c_sequence := Some (sequence a), c_data := Some (input_data a)\<rparr>))"

definition sendData :: "jsnum \<Rightarrow> 'p app \<Rightarrow> unit js \<times> 'p app" where
  "sendData now a =
     (let m = input_msg now a;
          a = a\<lparr>sequence := sequence a + 1\<rparr>
      in case m of
           Inl e \<Rightarrow> (Inl e, a)
         | Inr m \<Rightarrow>
           (case conn a of
              None \<Rightarrow> (Inl TypeError, a)
            | Some i \<Rightarrow>
              (case toArrayBuffer m of
                 Inl e \<Rightarrow> (Inl e, a)
               | Inr bytes \<Rightarrow>
                 (case sk_send (sockets a ! i) of
                    Inl e \<Rightarrow> (Inl e, a)
                  | Inr went_out \<Rightarrow> (Inr (), if went_out then a\<lparr>outgoing := outgoing a @ [(i, bytes)]\<rparr> else a)))))"

subsection \<open>Choice of the node\<close>

definition is_websocket :: "node \<Rightarrow> bool" where
  "is_websocket n \<longleftrightarrow> n_type n = u ''websocket''"

fun select_named :: "ustring \<Rightarrow> node list \<Rightarrow> node option \<Rightarrow> unit js \<times> node option" where
  "select_named query [] cur = (Inr (), cur)"
| "select_named query (n # ns) cur =
     (if is_websocket n then
        (case getParameterByName query (u ''node'') of
           Inl e \<Rightarrow> (Inl e, cur)
         | Inr p \<Rightarrow> select_named query ns (if p = Some (n_name n) then Some n else cur))
      else select_named query ns cur)"

fun select_any :: "node list \<Rightarrow> node option \<Rightarrow> node option" where
  "select_any [] cur = cur"
| "select_any (n # ns) cur = select_any ns (if is_websocket n then Some n else cur)"

definition node_button :: "node \<Rightarrow> node \<Rightarrow> button" where
  "node_button current n = \<lparr>b_active = (n_name n = n_name current),
     b_text = (case n_description n of Some d \<Rightarrow> if d \<noteq> [] then d else n_name n | None \<Rightarrow> n_name n),
     b_name = n_name n\<rparr>"

definition updateNodeList :: "'p app \<Rightarrow> 'p app" where
  "updateNodeList a = (case (nodes a, currentNode a) of
     (Some ns, Some current) \<Rightarrow> a\<lparr>selector := map (node_button current) (filter is_websocket ns), buttonset := True\<rparr>
   | _ \<Rightarrow> a)"

definition select_button :: "nat \<Rightarrow> 'p app \<Rightarrow> 'p app" where
  "select_button i a = (if i < length (selector a) then a\<lparr>navigated := Some (u ''?node='' @ b_name (selector a ! i))\<rparr> else a)"

text \<open>The handler of the response to \<open>nodes\<close>.\<close>

definition nodes_response :: "node list option \<Rightarrow> 'p app \<Rightarrow> unit js \<times> 'p app" where
  "nodes_response response a =
     (let a = a\<lparr>nodes := response\<rparr>
      in case response of
           None \<Rightarrow> (Inl TypeError, a)
         | Some ns \<Rightarrow>
           (case select_named (search (loc a)) ns (currentNode a) of
              (Inl e, cur) \<Rightarrow> (Inl e, a\<lparr>currentNode := cur\<rparr>)
            | (Inr _, cur) \<Rightarrow>
                (let cur = (if cur = None then select_any ns None else cur);
                     a = a\<lparr>currentNode := cur\<rparr>
                 in if cur = None then (Inr (), a)
                    else case wsConnect cur (updateNodeList a) of
                      (Inl e, a) \<Rightarrow> (Inl e, a)
                    | (Inr i, a) \<Rightarrow> (Inr (), a\<lparr>conn := Some i\<rparr>))))"

text \<open>\<open>apiConnected\<close>, the callback of the remote-procedure client, and the delivery of a frame to the client.\<close>

definition apiConnected :: "(nat \<Rightarrow> jsnum) \<Rightarrow> 'p app \<Rightarrow> unit js \<times> 'p app" where
  "apiConnected random a = (case api a of
     None \<Rightarrow> (Inl TypeError, a)
   | Some c \<Rightarrow> (case api_request random c ''nodes'' ''{}'' () of (res, c') \<Rightarrow> (res, a\<lparr>api := Some c'\<rparr>)))"

definition app_api_open :: "(nat \<Rightarrow> jsnum) \<Rightarrow> 'p app \<Rightarrow> unit js \<times> 'p app" where
  "app_api_open random a = apiConnected random (a\<lparr>api := map_option api_onopen (api a)\<rparr>)"

definition app_api_message :: "node list option response option \<Rightarrow> 'p app \<Rightarrow> unit js \<times> 'p app" where
  "app_api_message frame a = (case api a of
     None \<Rightarrow> (Inr (), a)
   | Some c \<Rightarrow>
     (case api_onmessage (\<lambda>h r. fst (nodes_response r a)) c frame of
        (res, c') \<Rightarrow>
          (res, (if calls c' = calls c then a
                 else snd (nodes_response (snd (last (calls c'))) a))\<lparr>api := Some c'\<rparr>)))"

subsection \<open>Plot\<close>

definition updatePlotWindow :: "jsnum \<Rightarrow> 'p app \<Rightarrow> 'p app" where
  "updatePlotWindow delta a = a\<lparr>xDelta := delta, xPast := js_mul delta lit_0_9, xFuture := js_mul delta lit_0_1\<rparr>"

fun dec_text :: "nat \<Rightarrow> ustring" where
  "dec_text n = (if n < 10 then [48 + n] else dec_text (n div 10) @ [48 + n mod 10])"

declare dec_text.simps [simp del]

definition series_value :: "point list \<Rightarrow> jsval" where
  "series_value s = arr (map (\<lambda>(t, v). arr [JNum t, JNum v]) s)"

definition series_object :: "nat \<Rightarrow> point list \<Rightarrow> jsval" where
  "series_object i s = obj [(''data'', series_value s), (''shadowSize'', JNum (Fin 0)),
     (''label'', JStr (u ''Index '' @ dec_text i)), (''lines'', obj [(''lineWidth'', JNum (Fin 2))])]"

text \<open>The label of a signal with a name; the name itself may be missing.\<close>

definition label_series :: "node option \<Rightarrow> nat \<Rightarrow> jsval \<Rightarrow> jsval js" where
  "label_series current i s = (case current of
     None \<Rightarrow> Inl TypeError
   | Some n \<Rightarrow>
     (case n_out n of
        None \<Rightarrow> Inl TypeError
      | Some None \<Rightarrow> Inr s
      | Some (Some signals) \<Rightarrow>
          Inr (if i < length signals
               then jq_extend JUndef [JBool True, s, obj [(''label'', (case signals ! i of None \<Rightarrow> JUndef | Some l \<Rightarrow> JStr l))]]
               else s)))"

fun plot_series :: "node option \<Rightarrow> nat \<Rightarrow> point list list \<Rightarrow> jsval list js" where
  "plot_series current i [] = Inr []"
| "plot_series current i (s # ss) =
     js_bind (label_series current i (series_object i s)) (\<lambda>o1.
     js_bind (plot_series current (i + 1) ss) (\<lambda>os. Inr (o1 # os)))"

definition window_options :: "(nat \<Rightarrow> jsnum) \<Rightarrow> jsnum \<Rightarrow> jsnum \<Rightarrow> jsval" where
  "window_options now past future =
     obj [(''xaxis'', obj [(''min'', JNum (js_sub (now 0) past)), (''max'', JNum (js_add (now 1) future))]),
       (''grid'', obj [(''markings'', arr [obj [(''xaxis'', obj [(''from'', JNum (now 2)), (''to'', JNum (now 3))]),
         (''color'', JStr (u ''#ff0000''))]])])]"

definition updatePlot :: "'p flot \<Rightarrow> (nat \<Rightarrow> jsnum) \<Rightarrow> 'p app \<Rightarrow> unit js \<times> 'p app" where
  "updatePlot fl now a =
     (if \<not> redrawPlot a then (Inr (), a)
      else case plot_series (currentNode a) 0 (plotData a) of
        Inl e \<Rightarrow> (Inl e, a)
      | Inr data \<Rightarrow>
        (let options = window_options now (xPast a) (xFuture a)
         in case fl_plot fl data (jq_extend JUndef [JBool True, options, plotOptions]) of
              Inl e \<Rightarrow> (Inl e, a)
            | Inr p \<Rightarrow> (Inr (), a\<lparr>plot := Some p, selection_handlers := selection_handlers a + 1, redrawPlot := False\<rparr>)))"

text \<open>One handler of the selection event, and the event, which calls it once for every time it was bound.\<close>

definition plot_selected :: "'p flot \<Rightarrow> jsnum \<Rightarrow> jsnum \<Rightarrow> 'p app \<Rightarrow> 'p app" where
  "plot_selected fl from to a = (case plot a of
     None \<Rightarrow> a
   | Some p \<Rightarrow> a\<lparr>plot := Some (fl_clearSelection fl (fl_draw fl (fl_setupGrid fl
       (fl_set_xaxes fl (map (\<lambda>axis. (from, to)) (fl_xaxes fl p)) p))))\<rparr>)"

definition select_range :: "'p flot \<Rightarrow> jsnum \<Rightarrow> jsnum \<Rightarrow> 'p app \<Rightarrow> 'p app" where
  "select_range fl from to a = (plot_selected fl from to ^^ selection_handlers a) a"

subsection \<open>Handlers of the page\<close>

definition play_click :: "'p app \<Rightarrow> unit js \<times> 'p app" where
  "play_click a = (case wsConnect (currentNode a) a of
     (Inl e, a) \<Rightarrow> (Inl e, a) | (Inr i, a) \<Rightarrow> (Inr (), a\<lparr>conn := Some i, paused := False\<rparr>))"

text \<open>\<open>connection.close()\<close>.\<close>

definition close_connection :: "'p app \<Rightarrow> unit js \<times> 'p app" where
  "close_connection a = (case conn a of
     None \<Rightarrow> (Inl TypeError, a)
   | Some i \<Rightarrow> (Inr (), a\<lparr>sockets := (sockets a)[i := sk_close (sockets a ! i)]\<rparr>))"

definition pause_click :: "'p app \<Rightarrow> unit js \<times> 'p app" where
  "pause_click a = (case close_connection a of
     (Inl e, a) \<Rightarrow> (Inl e, a) | (Inr _, a) \<Rightarrow> (Inr (), a\<lparr>paused := True\<rparr>))"

definition updaterate_slide :: "jsnum \<Rightarrow> 'p app \<Rightarrow> 'p app" where
  "updaterate_slide v a =
     (case setInterval (js_div (Fin 1000) (updateRate a)) (clearInterval (timer a) a) of
        (t, a) \<Rightarrow> a\<lparr>timer := Some t, updateRate := v\<rparr>)"

definition document_ready :: "'p app \<Rightarrow> 'p app" where
  "document_ready a =
     (case setInterval (js_div (Fin 1000) (updateRate a)) (a\<lparr>api := Some (Api (loc a) ''v1'' False)\<rparr>) of
        (t, a) \<Rightarrow> a\<lparr>timer := Some t\<rparr>)"

definition beforeunload :: "'p app \<Rightarrow> unit js \<times> 'p app" where
  "beforeunload a = (case close_connection a of
     (Inl e, a) \<Rightarrow> (Inl e, a)
   | (Inr _, a) \<Rightarrow> (case api a of None \<Rightarrow> (Inl TypeError, a) | Some c \<Rightarrow> (Inr (), a\<lparr>api := Some (api_close c)\<rparr>)))"

end
