(* ===== verification/JsDecimal.thy ===== *)
theory JsDecimal
  imports JsNumber
begin

text \<open>
  Decimal texts of JavaScript numbers, as far as the widgets of the page use them: the number that
  \<open>parseFloat(x.toFixed(f))\<close> reads back, and the number of digits after the point in the text of a number.
  The second needs the shortest decimal that rounds to the number, which is found by trying the
  lengths 1 to 17 in turn; seventeen digits always suffice for a binary number of 53 bits.

  The lemmas bound the error of one rounding and read the operations on finite numbers as the exact
  operation followed by one rounding.
\<close>

subsection \<open>Fixed notation\<close>

fun to_fixed_num :: "nat \<Rightarrow> jsnum \<Rightarrow> jsnum" where
  "to_fixed_num f (Fin q) =
     (if 10 ^ 21 \<le> \<bar>q\<bar> then Fin q
      else if q < 0 then js_neg (to_num False (of_int \<lfloor>- q * 10 ^ f + 1/2\<rfloor> / 10 ^ f))
      else to_num False (of_int \<lfloor>q * 10 ^ f + 1/2\<rfloor> / 10 ^ f))"
| "to_fixed_num f NegZero = Fin 0"
| "to_fixed_num f x = x"

subsection \<open>The shortest decimal\<close>

text \<open>The position \<open>n\<close> of the point: a positive number lies between the powers of ten \<open>n - 1\<close> and \<open>n\<close>.\<close>

definition point_pos :: "rat \<Rightarrow> int" where
  "point_pos q = (if 1 \<le> q then int (floorlog 10 (nat \<lfloor>q\<rfloor>)) else 1 - int (floorlog 10 (nat \<lceil>1 / q\<rceil> - 1)))"

definition pow10 :: "int \<Rightarrow> rat" where
  "pow10 e = (if 0 \<le> e then 10 ^ nat e else 1 / 10 ^ nat (- e))"

text \<open>Whether the decimal of \<open>k\<close> digits nearest to \<open>q\<close> rounds to \<open>q\<close>.\<close>

definition digits_enough :: "rat \<Rightarrow> int \<Rightarrow> nat \<Rightarrow> bool" where
  "digits_enough q n k \<longleftrightarrow> rnd64 (of_int \<lfloor>q / pow10 (n - int k) + 1/2\<rfloor> * pow10 (n - int k)) = q"

fun find_digits :: "rat \<Rightarrow> int \<Rightarrow> nat \<Rightarrow> nat \<Rightarrow> nat" where
  "find_digits q n k 0 = k"
| "find_digits q n k (Suc m) = (if digits_enough q n k then k else find_digits q n (k + 1) m)"

text \<open>The characters after the point in the text of a number; without a point there are none. Numbers from
  ten to the power 21 on and below ten to the power -6 are written with an exponent, which then
  stands after the point too.\<close>

definition decimals :: "jsnum \<Rightarrow> nat" where
  "decimals x = (case x of
     Fin q \<Rightarrow>
       if q = 0 then 0
       else
         (let n = point_pos \<bar>q\<bar>; k = find_digits \<bar>q\<bar> n 1 16
          in if - 6 < n \<and> n \<le> 21 then nat (int k - n)
             else if k = 1 then 0
             else (k - 1) + 2 + floorlog 10 (nat \<bar>n - 1\<bar>))
   | _ \<Rightarrow> 0)"

subsection \<open>One rounding\<close>

lemma rnd64_error_bound:
  assumes "\<bar>x\<bar> \<le> 2 ^ k"
  shows "\<bar>rnd64 x - x\<bar> \<le> 2 powi (int k - 53)"
proof (cases "x = 0")
  case False
  have "(2::rat) powi (int k + 1) = 2 * 2 ^ k" using powi2_split [of "int k" 1] by simp
  moreover have "(2::rat) ^ k > 0" by simp
  ultimately have "\<bar>x\<bar> < 2 powi (int k + 1)" using assms by linarith
  then have "ilog2 \<bar>x\<bar> < int k + 1" using False by (intro ilog2_less) auto
  then have "ulp_exp 53 (- 1074) x \<le> int k - 52" by (auto simp: ulp_exp_def)
  then have "(2::rat) powi ulp_exp 53 (- 1074) x \<le> 2 powi (int k - 52)" by simp
  moreover have "(2::rat) powi (int k - 52) = 2 * 2 powi (int k - 53)"
    using powi2_split [of 1 "int k - 53"] by simp
  ultimately show ?thesis using rnd_error [OF False, of 53 "- 1074"] by (simp add: rnd64_def)
qed (simp add: rnd64_def)

lemma rnd64_err31: "\<bar>x\<bar> \<le> 2 ^ 31 \<Longrightarrow> \<bar>rnd64 x - x\<bar> \<le> 1 / 2 ^ 22"
  using rnd64_error_bound [of x 31] by (simp add: power_int_def power_one_over)

lemma rnd64_abs_le: "\<bar>x\<bar> \<le> 2 ^ 53 \<Longrightarrow> \<bar>rnd64 x\<bar> \<le> 2 ^ 53"
  using rnd64_le_int [of x "2 ^ 53"] rnd64_ge_int [of "- (2 ^ 53)" x] by (simp add: abs_le_iff)

lemma to_num_fin:
  assumes "\<bar>x\<bar> \<le> 2 ^ 53"
  shows "is_fin (to_num s x)" "num_val (to_num s x) = rnd64 x"
proof -
  have "\<bar>rnd64 x\<bar> < 2 ^ 1024" using rnd64_abs_le [OF assms] two_53_le by simp
  then show "is_fin (to_num s x)" "num_val (to_num s x) = rnd64 x" by (auto simp: to_num_def Let_def)
qed

lemma rnd64_0 [simp]: "rnd64 0 = 0"
  by (simp add: rnd64_def)

lemma js_neg_fin [simp]: "is_fin (js_neg x) = is_fin x" "num_val (js_neg x) = - num_val x"
  by (cases x; simp)+

lemma js_add_fin:
  assumes "is_fin x" "is_fin y" "\<bar>num_val x + num_val y\<bar> \<le> 2 ^ 53"
  shows "is_fin (js_add x y)" "num_val (js_add x y) = rnd64 (num_val x + num_val y)"
proof -
  have "js_add x y = NegZero \<and> num_val x = 0 \<and> num_val y = 0 \<or>
      js_add x y = to_num (num_val x + num_val y < 0) (num_val x + num_val y)"
    using assms(1,2) by (cases x; cases y) auto
  then show "is_fin (js_add x y)" "num_val (js_add x y) = rnd64 (num_val x + num_val y)"
    using to_num_fin [OF assms(3)] by auto
qed

lemma js_sub_fin:
  assumes "is_fin x" "is_fin y" "\<bar>num_val x - num_val y\<bar> \<le> 2 ^ 53"
  shows "is_fin (js_sub x y)" "num_val (js_sub x y) = rnd64 (num_val x - num_val y)"
  using js_add_fin [of x "js_neg y"] assms by (simp_all add: js_sub_def)

lemma js_mul_fin:
  assumes "is_fin x" "is_fin y" "\<bar>num_val x * num_val y\<bar> \<le> 2 ^ 53"
  shows "is_fin (js_mul x y)" "num_val (js_mul x y) = rnd64 (num_val x * num_val y)"
proof -
  have "js_mul x y = to_num (num_neg x \<noteq> num_neg y) (num_val x * num_val y)"
    using assms(1,2) by (cases x; cases y) auto
  then show "is_fin (js_mul x y)" "num_val (js_mul x y) = rnd64 (num_val x * num_val y)"
    using to_num_fin [OF assms(3)] by auto
qed

lemma js_div_fin:
  assumes "is_fin x" "is_fin y" "num_val y \<noteq> 0" "\<bar>num_val x / num_val y\<bar> \<le> 2 ^ 53"
  shows "is_fin (js_div x y)" "num_val (js_div x y) = rnd64 (num_val x / num_val y)"
proof -
  have "js_div x y = to_num (num_neg x \<noteq> num_neg y) (num_val x / num_val y)"
    using assms(1-3) by (cases x; cases y) auto
  then show "is_fin (js_div x y)" "num_val (js_div x y) = rnd64 (num_val x / num_val y)"
    using to_num_fin [OF assms(4)] by auto
qed

lemma js_mod_fin:
  assumes "is_fin x" "is_fin y" "num_val y \<noteq> 0"
  shows "is_fin (js_mod x y)"
    "num_val (js_mod x y) = num_val x - of_int (rat_trunc (num_val x / num_val y)) * num_val y"
  using assms by (cases x; cases y; simp add: Let_def)+

lemma js_less_fin: "is_fin x \<Longrightarrow> is_fin y \<Longrightarrow> js_less x y \<longleftrightarrow> num_val x < num_val y"
  by (cases x; cases y) auto

lemma js_eq_fin: "is_fin x \<Longrightarrow> is_fin y \<Longrightarrow> js_eq x y \<longleftrightarrow> num_val x = num_val y"
  by (cases x; cases y) auto

lemma js_le_fin: "is_fin x \<Longrightarrow> is_fin y \<Longrightarrow> js_le x y \<longleftrightarrow> num_val x \<le> num_val y"
  by (auto simp: js_le_def js_less_fin js_eq_fin)

lemma js_abs_fin [simp]: "is_fin (js_abs x) = is_fin x" "is_fin x \<Longrightarrow> num_val (js_abs x) = \<bar>num_val x\<bar>"
  by (cases x; simp)+

subsection \<open>Fixed notation near a whole number\<close>

lemma floor_half_near: "\<bar>x - of_int n\<bar> < 1/2 \<Longrightarrow> \<lfloor>x + 1/2\<rfloor> = n" for x :: rat
  unfolding floor_eq_iff abs_less_iff by linarith

text \<open>A number close to a whole number \<open>n\<close> reads back as \<open>n\<close> (a negative one close to zero as -0).\<close>

lemma to_fixed_num_near:
  assumes "is_fin x" "\<bar>num_val x - of_int n\<bar> * 10 ^ f < 1/2" "\<bar>n\<bar> \<le> 2 ^ 53"
  shows "is_fin (to_fixed_num f x)" "num_val (to_fixed_num f x) = of_int n"
proof -
  have ten: "(1::rat) \<le> 10 ^ f" by simp
  have near: "\<bar>num_val x - of_int n\<bar> < 1/2"
    using assms(2) mult_left_mono [OF ten, of "\<bar>num_val x - of_int n\<bar>"] by simp
  have n53: "\<bar>of_int n :: rat\<bar> \<le> 2 ^ 53"
  proof -
    have "(of_int \<bar>n\<bar> :: rat) \<le> of_int (2 ^ 53)" using assms(3) by (subst of_int_le_iff)
    then show ?thesis by simp
  qed
  have "is_fin (to_fixed_num f x) \<and> num_val (to_fixed_num f x) = of_int n"
  proof (cases x)
    case (Fin q)
    have "(2::rat) ^ 53 + 1 < 10 ^ 21" by simp
    then have small: "\<not> 10 ^ 21 \<le> \<bar>q\<bar>" using near n53 Fin by (simp only: num_val.simps)
    have "\<lfloor>q * 10 ^ f + 1/2\<rfloor> = n * 10 ^ f"
      using assms(2) Fin by (intro floor_half_near) (simp add: left_diff_distrib [symmetric] abs_mult)
    moreover have "\<lfloor>- q * 10 ^ f + 1/2\<rfloor> = - n * 10 ^ f"
      using assms(2) Fin
      by (intro floor_half_near) (simp add: left_diff_distrib [symmetric] abs_mult abs_minus_commute)
    moreover have "num_val (to_num False (of_int n)) = of_int n" "is_fin (to_num False (of_int n))"
      "num_val (to_num False (- of_int n)) = - of_int n" "is_fin (to_num False (- of_int n))"
      using to_num_fin [of "of_int n" False] to_num_fin [of "- of_int n" False] n53 assms(3)
        rnd64_int [of n] rnd64_int [of "- n"] by simp_all
    ultimately show ?thesis using Fin small by simp
  next
    case NegZero
    with near have "n = 0" by simp
    with NegZero show ?thesis by simp
  qed (use assms(1) in auto)
  then show "is_fin (to_fixed_num f x)" "num_val (to_fixed_num f x) = of_int n" by auto
qed

subsection \<open>Whole numbers have no decimals\<close>

lemma find_digits_le: "k \<le> j \<Longrightarrow> j \<le> k + m \<Longrightarrow> digits_enough q n j \<Longrightarrow> find_digits q n k m \<le> j"
proof (induction m arbitrary: k)
  case (Suc m)
  show ?case
  proof (cases "k = j")
    case False
    with Suc.prems have "k + 1 \<le> j" "j \<le> (k + 1) + m" by auto
    from Suc.IH [OF this Suc.prems(3)] Suc.prems(1) show ?thesis by simp
  qed (use Suc.prems in simp)
qed simp

lemma find_digits_bounds: "k \<le> find_digits q n k m \<and> find_digits q n k m \<le> k + m"
proof (induction m arbitrary: k)
  case (Suc m)
  from Suc [of "k + 1"] show ?case by auto
qed simp

lemma decimals_int:
  assumes "\<bar>z\<bar> \<le> 2 ^ 53"
  shows "decimals (jint z) = 0"
proof (cases "z = 0")
  case False
  let ?a = "nat \<bar>z\<bar>" let ?n = "floorlog 10 ?a" let ?q = "\<bar>of_int z :: rat\<bar>"
  have q: "?q = of_int \<bar>z\<bar>" by simp
  have one: "1 \<le> ?q" using False by simp
  have fl: "\<lfloor>?q\<rfloor> = \<bar>z\<bar>" unfolding q by (rule floor_of_int)
  have pos: "point_pos ?q = int ?n" unfolding point_pos_def fl using one by (simp only: if_True)
  have "?a < 10 ^ 17" using assms by simp
  then have n17: "?n \<le> 17" by (intro floorlog_leI) auto
  have n1: "1 \<le> ?n" using False floorlog_eq_zero_iff [of 10 ?a] by simp
  have "digits_enough ?q (int ?n) ?n"
  proof -
    have "\<lfloor>(of_int \<bar>z\<bar> :: rat) + 1/2\<rfloor> = \<bar>z\<bar>" by (rule floor_half_near) simp
    then show ?thesis
      unfolding digits_enough_def q using rnd64_int [of "\<bar>z\<bar>"] assms by (simp only: pow10_def) simp
  qed
  then have "find_digits ?q (int ?n) 1 16 \<le> ?n" using n1 n17 by (intro find_digits_le) auto
  with False n17 n1 pos show ?thesis by (simp add: decimals_def Let_def)
qed (simp add: decimals_def)

end
