(* ===== verification/Mouse.thy ===== *)
theory Mouse
  imports JsDecimal
begin

text \<open>
  The drag interaction of \<open>jquery-ui.js\<close> (\<open>ui.mouse\<close>), which the sliders of the page extend: the handlers of
  mouse down, move, up and click, the listeners they bind to the document, the delay timer. The four
  methods that a widget overrides are a record of computations on the widget's own state.

  Not modelled: \<open>preventDefault\<close>, which concerns the browser's own reaction. The listeners on the
  document are the numbers of the delegates, in the order they were bound.
\<close>

subsection \<open>State\<close>

text \<open>\<open>ev_cancel\<close> says that the target lies in an element that the option \<open>cancel\<close> selects, \<open>ev_modifier\<close> that a
  modifier key was down.\<close>

record mouse_event =
  ev_pageX :: jsnum
  ev_pageY :: jsnum
  ev_which :: nat
  ev_button :: nat
  ev_target :: nat
  ev_cancel :: bool
  ev_modifier :: bool

record mouse =
  m_distance :: jsnum
  m_delay :: jsnum
  old_ie :: bool
  mouseHandled :: bool
  mouseMoved :: bool
  mouseStarted :: bool
  mouseDownEvent :: "mouse_event option"
  mouseDelayMet :: bool
  mouseDelayTimer :: "nat option"
  pendingTimers :: "nat list"
  ignoreMissingWhich :: bool
  delegate :: "nat option"
  listeners :: "nat list"
  nextId :: nat
  preventClick :: "nat list"

text \<open>\<open>_mouseInit\<close>: the fields that have no value yet are false or missing.\<close>

definition mouse_init :: "jsnum \<Rightarrow> jsnum \<Rightarrow> bool \<Rightarrow> mouse" where
  "mouse_init distance delay ie = \<lparr>m_distance = distance, m_delay = delay, old_ie = ie, mouseHandled = False,
     mouseMoved = False, mouseStarted = False, mouseDownEvent = None, mouseDelayMet = False, mouseDelayTimer = None,
     pendingTimers = [], ignoreMissingWhich = False, delegate = None, listeners = [], nextId = 0, preventClick = []\<rparr>"

text \<open>The overridden methods. \<open>mm_capture\<close> and \<open>mm_start\<close> return whether the interaction goes on.\<close>

record 's mouse_methods =
  mm_capture :: "mouse_event \<Rightarrow> ('s, bool) sx"
  mm_start :: "mouse_event \<Rightarrow> ('s, bool) sx"
  mm_drag :: "mouse_event \<Rightarrow> ('s, unit) sx"
  mm_stop :: "mouse_event \<Rightarrow> ('s, unit) sx"

definition on_mouse :: "(mouse \<Rightarrow> mouse) \<Rightarrow> (mouse \<times> 's, unit) sx" where
  "on_mouse f = sx_mod (\<lambda>(m, s). (f m, s))"

definition on_widget :: "('s, 'a) sx \<Rightarrow> (mouse \<times> 's, 'a) sx" where
  "on_widget w = (\<lambda>(m, s). case w s of (r, s') \<Rightarrow> (r, (m, s')))"

definition with_mouse :: "(mouse \<Rightarrow> (mouse \<times> 's, 'a) sx) \<Rightarrow> (mouse \<times> 's, 'a) sx" where
  "with_mouse = sx_let fst"

subsection \<open>Handlers\<close>

definition mouseDistanceMet :: "mouse \<Rightarrow> mouse_event \<Rightarrow> bool js" where
  "mouseDistanceMet m ev = (case mouseDownEvent m of
     None \<Rightarrow> Inl TypeError
   | Some d \<Rightarrow> Inr (js_le (m_distance m)
       (js_max (js_abs (js_sub (ev_pageX d) (ev_pageX ev))) (js_abs (js_sub (ev_pageY d) (ev_pageY ev))))))"

definition sx_lift :: "'a js \<Rightarrow> ('s, 'a) sx" where
  "sx_lift r = (\<lambda>s. (r, s))"

text \<open>\<open>.off\<close> of the current delegates; with none, it removes every listener of the widget.\<close>

definition off_delegates :: "mouse \<Rightarrow> mouse" where
  "off_delegates m = m\<lparr>listeners := (case delegate m of None \<Rightarrow> [] | Some d \<Rightarrow> filter (\<lambda>i. i \<noteq> d) (listeners m))\<rparr>"

definition clear_delay :: "mouse \<Rightarrow> mouse" where
  "clear_delay m = (case mouseDelayTimer m of
     None \<Rightarrow> m
   | Some t \<Rightarrow> m\<lparr>pendingTimers := filter (\<lambda>i. i \<noteq> t) (pendingTimers m), mouseDelayTimer := None\<rparr>)"

definition mouseUp :: "'s mouse_methods \<Rightarrow> mouse_event \<Rightarrow> (mouse \<times> 's, unit) sx" where
  "mouseUp mm ev =
     sx_seq (on_mouse off_delegates)
     (sx_seq (with_mouse (\<lambda>m.
        if mouseStarted m then
          sx_seq (on_mouse (\<lambda>m. m\<lparr>mouseStarted := False\<rparr>))
          (sx_seq (case mouseDownEvent m of
             None \<Rightarrow> sx_throw TypeError
           | Some d \<Rightarrow> on_mouse (\<lambda>m. if ev_target ev = ev_target d then m\<lparr>preventClick := ev_target ev # preventClick m\<rparr> else m))
          (on_widget (mm_stop mm ev)))
        else sx_return ()))
     (on_mouse (\<lambda>m. (clear_delay m)\<lparr>ignoreMissingWhich := False, mouseHandled := False\<rparr>)))"

definition arm_delay :: "mouse \<Rightarrow> mouse" where
  "arm_delay m =
     (let m = m\<lparr>mouseDelayMet := \<not> js_truthy (m_delay m)\<rparr>
      in if mouseDelayMet m then m
         else m\<lparr>mouseDelayTimer := Some (nextId m), pendingTimers := pendingTimers m @ [nextId m], nextId := nextId m + 1\<rparr>)"

definition bind_delegates :: "mouse \<Rightarrow> mouse" where
  "bind_delegates m = m\<lparr>delegate := Some (nextId m), listeners := listeners m @ [nextId m], nextId := nextId m + 1,
     mouseHandled := True\<rparr>"

definition mouseDown :: "'s mouse_methods \<Rightarrow> mouse_event \<Rightarrow> (mouse \<times> 's, unit) sx" where
  "mouseDown mm ev = with_mouse (\<lambda>m.
     if mouseHandled m then sx_return ()
     else
       sx_seq (on_mouse (\<lambda>m. m\<lparr>mouseMoved := False\<rparr>))
       (sx_seq (with_mouse (\<lambda>m. sx_when (mouseStarted m) (mouseUp mm ev)))
       (sx_seq (on_mouse (\<lambda>m. m\<lparr>mouseDownEvent := Some ev\<rparr>))
       (if ev_which ev \<noteq> 1 \<or> ev_cancel ev then sx_return ()
        else sx_bind (on_widget (mm_capture mm ev)) (\<lambda>captured.
          if \<not> captured then sx_return ()
          else
            sx_seq (on_mouse arm_delay)
            (sx_bind (with_mouse (\<lambda>m. sx_bind (sx_lift (mouseDistanceMet m ev)) (\<lambda>far.
               if far \<and> mouseDelayMet m then
                 sx_bind (on_widget (mm_start mm ev)) (\<lambda>go.
                 sx_seq (on_mouse (\<lambda>m. m\<lparr>mouseStarted := go\<rparr>)) (sx_return go))
               else sx_return True))) (\<lambda>go.
             sx_when go (on_mouse (\<lambda>m. bind_delegates
               (m\<lparr>preventClick := filter (\<lambda>t. t \<noteq> ev_target ev) (preventClick m)\<rparr>))))))))))"

text \<open>The check for a mouse up that happened outside: it ends the handler.\<close>

definition missed_up :: "mouse \<Rightarrow> mouse_event \<Rightarrow> bool" where
  "missed_up m ev \<longleftrightarrow> mouseMoved m \<and>
     (old_ie m \<and> ev_button ev = 0 \<or>
      \<not> (old_ie m \<and> ev_button ev = 0) \<and> ev_which ev = 0 \<and> \<not> ev_modifier ev \<and> \<not> ignoreMissingWhich m)"

definition note_modifier :: "mouse_event \<Rightarrow> mouse \<Rightarrow> mouse" where
  "note_modifier ev m =
     (if mouseMoved m \<and> \<not> (old_ie m \<and> ev_button ev = 0) \<and> ev_which ev = 0 \<and> ev_modifier ev
      then m\<lparr>ignoreMissingWhich := True\<rparr> else m)"

definition drag_or_start :: "'s mouse_methods \<Rightarrow> mouse_event \<Rightarrow> (mouse \<times> 's, unit) sx" where
  "drag_or_start mm ev = with_mouse (\<lambda>m.
     if mouseStarted m then on_widget (mm_drag mm ev)
     else sx_bind (sx_lift (mouseDistanceMet m ev)) (\<lambda>far.
       if far \<and> mouseDelayMet m then
         (case mouseDownEvent m of
            None \<Rightarrow> sx_throw TypeError
          | Some d \<Rightarrow>
            sx_bind (on_widget (mm_start mm d)) (\<lambda>go.
            sx_seq (on_mouse (\<lambda>m. m\<lparr>mouseStarted := go\<rparr>))
            (if go then on_widget (mm_drag mm ev) else mouseUp mm ev)))
       else sx_return ()))"

definition mouseMove :: "'s mouse_methods \<Rightarrow> mouse_event \<Rightarrow> (mouse \<times> 's, unit) sx" where
  "mouseMove mm ev = with_mouse (\<lambda>m.
     if missed_up m ev then mouseUp mm ev
     else
       sx_seq (on_mouse (note_modifier ev))
       (sx_seq (on_mouse (\<lambda>m. if ev_which ev \<noteq> 0 \<or> ev_button ev \<noteq> 0 then m\<lparr>mouseMoved := True\<rparr> else m))
       (drag_or_start mm ev)))"

text \<open>The click that follows a drag is swallowed: the result says so.\<close>

definition mouseClick :: "nat \<Rightarrow> (mouse \<times> 's, bool) sx" where
  "mouseClick target = with_mouse (\<lambda>m.
     if target \<in> set (preventClick m)
     then sx_seq (on_mouse (\<lambda>m. m\<lparr>preventClick := filter (\<lambda>t. t \<noteq> target) (preventClick m)\<rparr>)) (sx_return True)
     else sx_return False)"

definition delay_timeout :: "nat \<Rightarrow> mouse \<Rightarrow> mouse" where
  "delay_timeout t m = (if t \<in> set (pendingTimers m)
     then m\<lparr>mouseDelayMet := True, pendingTimers := filter (\<lambda>i. i \<noteq> t) (pendingTimers m)\<rparr> else m)"

subsection \<open>Events of the browser\<close>

text \<open>A move or a release reaches the widget once for every listener that is bound at that moment; a
  release on the document first clears the flag that is shared by all widgets.\<close>

datatype mouse_input =
    Down mouse_event
  | Move mouse_event
  | Up mouse_event
  | Click nat
  | Timeout nat

fun mouse_step :: "'s mouse_methods \<Rightarrow> mouse_input \<Rightarrow> (mouse \<times> 's, unit) sx" where
  "mouse_step mm (Down ev) = mouseDown mm ev"
| "mouse_step mm (Move ev) = sx_let (listeners \<circ> fst) (sx_each (\<lambda>_. mouseMove mm ev))"
| "mouse_step mm (Up ev) = sx_seq (on_mouse (\<lambda>m. m\<lparr>mouseHandled := False\<rparr>))
     (sx_let (listeners \<circ> fst) (sx_each (\<lambda>_. mouseUp mm ev)))"
| "mouse_step mm (Click t) = sx_seq (mouseClick t) (sx_return ())"
| "mouse_step mm (Timeout t) = on_mouse (delay_timeout t)"

fun mouse_run :: "'s mouse_methods \<Rightarrow> mouse_input list \<Rightarrow> mouse \<times> 's \<Rightarrow> mouse \<times> 's" where
  "mouse_run mm [] st = st"
| "mouse_run mm (e # es) st = mouse_run mm es (snd (mouse_step mm e st))"

subsection \<open>Widgets as clients of the interaction\<close>

lemma clear_delay_fields [simp]:
  "listeners (clear_delay m) = listeners m" "mouseStarted (clear_delay m) = mouseStarted m"
  "delegate (clear_delay m) = delegate m" "mouseDownEvent (clear_delay m) = mouseDownEvent m"
  by (simp_all add: clear_delay_def split: option.splits)

lemma arm_delay_fields [simp]:
  "listeners (arm_delay m) = listeners m" "mouseStarted (arm_delay m) = mouseStarted m"
  "delegate (arm_delay m) = delegate m" "mouseDownEvent (arm_delay m) = mouseDownEvent m"
  by (simp_all add: arm_delay_def Let_def)

lemma off_delegates_fields [simp]:
  "mouseStarted (off_delegates m) = mouseStarted m" "delegate (off_delegates m) = delegate m"
  "mouseDownEvent (off_delegates m) = mouseDownEvent m"
  by (simp_all add: off_delegates_def)

lemma note_modifier_fields [simp]:
  "listeners (note_modifier ev m) = listeners m" "mouseStarted (note_modifier ev m) = mouseStarted m"
  "delegate (note_modifier ev m) = delegate m" "mouseDownEvent (note_modifier ev m) = mouseDownEvent m"
  "mouseHandled (note_modifier ev m) = mouseHandled m"
  by (simp_all add: note_modifier_def)

lemma delay_timeout_fields [simp]: "mouseDownEvent (delay_timeout t m) = mouseDownEvent m"
  by (simp add: delay_timeout_def)

lemma bind_delegates_fields [simp]: "mouseDownEvent (bind_delegates m) = mouseDownEvent m"
  by (simp add: bind_delegates_def)

fun input_event :: "mouse_input \<Rightarrow> mouse_event option" where
  "input_event (Down ev) = Some ev"
| "input_event (Move ev) = Some ev"
| "input_event (Up ev) = Some ev"
| "input_event _ = None"

text \<open>What a widget's methods keep on good events, the whole interaction keeps: the widget never sees
  another event than those of the input.\<close>

locale mouse_client =
  fixes mm :: "'s mouse_methods" and good :: "mouse_event \<Rightarrow> bool" and I :: "'s \<Rightarrow> bool"
  assumes capture_keeps: "good ev \<Longrightarrow> sx_keeps I (mm_capture mm ev)"
    and start_keeps: "good ev \<Longrightarrow> sx_keeps I (mm_start mm ev)"
    and drag_keeps: "good ev \<Longrightarrow> sx_keeps I (mm_drag mm ev)"
    and stop_keeps: "good ev \<Longrightarrow> sx_keeps I (mm_stop mm ev)"
begin

definition kept :: "mouse \<times> 's \<Rightarrow> bool" where
  "kept st \<longleftrightarrow> I (snd st) \<and> pred_option good (mouseDownEvent (fst st))"

lemma on_mouse_keeps:
  "(\<And>m. pred_option good (mouseDownEvent m) \<Longrightarrow> pred_option good (mouseDownEvent (f m))) \<Longrightarrow> sx_keeps kept (on_mouse f)"
  by (auto simp: sx_keeps_def on_mouse_def kept_def)

lemma on_widget_keeps: "sx_keeps I w \<Longrightarrow> sx_keeps kept (on_widget w)"
  by (auto simp: sx_keeps_def on_widget_def kept_def split: prod.splits)

lemma lift_keeps: "sx_keeps kept (sx_lift r)"
  by (simp add: sx_keeps_def sx_lift_def)

lemma with_mouse_keeps:
  "(\<And>m. pred_option good (mouseDownEvent m) \<Longrightarrow> sx_keeps kept (f m)) \<Longrightarrow> sx_keeps kept (with_mouse f)"
  by (auto simp: sx_keeps_def with_mouse_def sx_let_def kept_def)

lemmas client_intros = with_mouse_keeps on_mouse_keeps lift_keeps on_widget_keeps capture_keeps start_keeps
  drag_keeps stop_keeps

lemma mouseUp_keeps: "good ev \<Longrightarrow> sx_keeps kept (mouseUp mm ev)"
  unfolding mouseUp_def by (intro sx_intros client_intros) simp_all

lemma mouseDown_keeps: "good ev \<Longrightarrow> sx_keeps kept (mouseDown mm ev)"
  unfolding mouseDown_def by (intro sx_intros client_intros mouseUp_keeps) simp_all

lemma drag_or_start_keeps: "good ev \<Longrightarrow> sx_keeps kept (drag_or_start mm ev)"
  unfolding drag_or_start_def
  by (intro sx_keeps_bind sx_keeps_seq sx_keeps_if sx_keeps_return with_mouse_keeps lift_keeps on_widget_keeps drag_keeps)
    (auto split: option.splits intro!: sx_intros client_intros mouseUp_keeps)

lemma mouseMove_keeps: "good ev \<Longrightarrow> sx_keeps kept (mouseMove mm ev)"
  unfolding mouseMove_def by (intro sx_intros client_intros mouseUp_keeps drag_or_start_keeps) simp_all

lemma step_keeps: "pred_option good (input_event e) \<Longrightarrow> sx_keeps kept (mouse_step mm e)"
  by (cases e)
    (auto simp: mouseClick_def
      intro!: sx_intros client_intros mouseUp_keeps mouseDown_keeps mouseMove_keeps)

lemma run_keeps: "list_all (\<lambda>e. pred_option good (input_event e)) es \<Longrightarrow> kept st \<Longrightarrow> kept (mouse_run mm es st)"
proof (induction es arbitrary: st)
  case (Cons e es)
  from Cons.IH [OF _ sx_keepsD [OF step_keeps Cons.prems(2)]] Cons.prems show ?case by simp
qed simp

end

subsection \<open>One drag at a time\<close>

text \<open>The calls of the overridden methods, and the widget that records them.\<close>

datatype call = Start bool | Drag | Stop

definition logged :: "'s mouse_methods \<Rightarrow> ('s \<times> call list) mouse_methods" where
  "logged mm = \<lparr>
     mm_capture = (\<lambda>ev (s, l). case mm_capture mm ev s of (r, s') \<Rightarrow> (r, (s', l))),
     mm_start = (\<lambda>ev (s, l). case mm_start mm ev s of
        (Inl e, s') \<Rightarrow> (Inl e, (s', l)) | (Inr go, s') \<Rightarrow> (Inr go, (s', l @ [Start go]))),
     mm_drag = (\<lambda>ev (s, l). case mm_drag mm ev s of (r, s') \<Rightarrow> (r, (s', l @ [Drag]))),
     mm_stop = (\<lambda>ev (s, l). case mm_stop mm ev s of (r, s') \<Rightarrow> (r, (s', l @ [Stop])))\<rparr>"

text \<open>A trace of calls is in order when every drag and every stop follows a start that went on and was not
  stopped yet; the result is whether a drag is under way.\<close>

fun phase :: "bool \<Rightarrow> call list \<Rightarrow> bool option" where
  "phase b [] = Some b"
| "phase b (Start go # cs) = (if b then None else phase go cs)"
| "phase b (Drag # cs) = (if b then phase b cs else None)"
| "phase b (Stop # cs) = (if b then phase False cs else None)"

lemma phase_snoc: "phase b (cs @ [c]) = (case phase b cs of None \<Rightarrow> None | Some b' \<Rightarrow> phase b' [c])"
  by (induction b cs rule: phase.induct) auto

definition mouse_ok :: "mouse \<Rightarrow> bool" where
  "mouse_ok m \<longleftrightarrow> (listeners m = [] \<or> mouseHandled m \<and> (\<exists>d. delegate m = Some d \<and> listeners m = [d])) \<and>
     (mouseStarted m \<longrightarrow> listeners m \<noteq> []) \<and> (listeners m \<noteq> [] \<longrightarrow> mouseDownEvent m \<noteq> None)"

definition drag_inv :: "mouse \<times> 's \<times> call list \<Rightarrow> bool" where
  "drag_inv st \<longleftrightarrow> mouse_ok (fst st) \<and> phase False (snd (snd st)) = Some (mouseStarted (fst st))"

text \<open>A release ends a drag that is under way, with its stop, and always unbinds the current listener.\<close>

lemma mouseUp_effect:
  assumes "phase False (snd s) = Some (mouseStarted m)" and "mouseStarted m \<Longrightarrow> mouseDownEvent m \<noteq> None"
    and "listeners m = [] \<or> (\<exists>d. delegate m = Some d \<and> listeners m = [d])"
  shows "drag_inv (snd (mouseUp (logged mm) ev (m, s)))"
  using assms
  by (cases s)
    (auto simp: mouseUp_def on_mouse_def on_widget_def with_mouse_def sx_let_def sx_seq_def sx_bind_def logged_def
      drag_inv_def mouse_ok_def off_delegates_def phase_snoc split: prod.splits sum.splits option.splits)

lemmas mouse_unfold = on_mouse_def on_widget_def with_mouse_def sx_let_def sx_seq_def sx_bind_def sx_lift_def

lemma start_effect:
  assumes "phase False (snd s) = Some False"
  shows "case on_widget (mm_start (logged mm) ev) (m, s) of
    (Inl e, (m', s')) \<Rightarrow> m' = m \<and> phase False (snd s') = Some False
  | (Inr go, (m', s')) \<Rightarrow> m' = m \<and> phase False (snd s') = Some go"
  using assms by (cases s) (auto simp: on_widget_def logged_def phase_snoc split: prod.splits sum.splits)

lemma drag_effect:
  assumes "drag_inv (m, s)" and "mouseStarted m"
  shows "drag_inv (snd (on_widget (mm_drag (logged mm) ev) (m, s)))"
  using assms by (cases s) (auto simp: on_widget_def logged_def drag_inv_def phase_snoc split: prod.splits)

lemma drag_or_start_effect:
  fixes s :: "'s \<times> call list"
  assumes "drag_inv (m, s)" and "listeners m \<noteq> []"
  shows "drag_inv (snd (drag_or_start (logged mm) ev (m, s)))"
proof (cases "mouseStarted m")
  case True
  with drag_effect [OF assms(1)] show ?thesis by (simp add: drag_or_start_def with_mouse_def sx_let_def)
next
  case False
  have ok: "mouse_ok m" and ph: "phase False (snd s) = Some False" using assms False by (auto simp: drag_inv_def)
  have go: "drag_inv (m\<lparr>mouseStarted := True\<rparr>, s')" if "phase False (snd s') = Some True" for s' :: "'s \<times> call list"
    using that ok assms(2) by (auto simp: drag_inv_def mouse_ok_def)
  have up: "drag_inv (snd (mouseUp (logged mm) ev (m\<lparr>mouseStarted := False\<rparr>, s')))"
    if "phase False (snd s') = Some False" for s' :: "'s \<times> call list"
    using that ok by (intro mouseUp_effect) (auto simp: mouse_ok_def)
  have same: "drag_inv (m, s')" if "phase False (snd s') = Some False" for s' :: "'s \<times> call list"
    using that ok False by (auto simp: drag_inv_def)
  have started: "drag_inv (snd (sx_bind (on_widget (mm_start (logged mm) d)) (\<lambda>go.
      sx_seq (on_mouse (\<lambda>m. m\<lparr>mouseStarted := go\<rparr>))
      (if go then on_widget (mm_drag (logged mm) ev) else mouseUp (logged mm) ev)) (m, s)))" for d
  proof -
    obtain r m' s' where r: "on_widget (mm_start (logged mm) d) (m, s) = (r, (m', s'))" by (metis prod.exhaust)
    have e: "case r of Inl e \<Rightarrow> m' = m \<and> phase False (snd s') = Some False
        | Inr go \<Rightarrow> m' = m \<and> phase False (snd s') = Some go"
      using start_effect [OF ph, where mm = mm and ev = d and m = m] r by (simp split: sum.splits)
    show ?thesis
    proof (cases r)
      case (Inl x)
      with r e same show ?thesis by (simp add: sx_bind_def)
    next
      case (Inr g)
      with r e go up drag_effect [of "m\<lparr>mouseStarted := True\<rparr>" s' mm ev] show ?thesis
        by (cases g) (simp_all add: sx_bind_def on_mouse_def)
    qed
  qed
  show ?thesis
    using False assms(1) started
    by (cases "mouseDistanceMet m ev"; cases "mouseDownEvent m")
      (simp_all add: drag_or_start_def with_mouse_def sx_let_def sx_lift_def)
qed

lemma mouseMove_effect:
  assumes "drag_inv (m, s)" and "listeners m \<noteq> []"
  shows "drag_inv (snd (mouseMove (logged mm) ev (m, s)))"
proof (cases "missed_up m ev")
  case True
  then show ?thesis
    using mouseUp_effect [of s m mm ev] assms
    by (simp add: mouseMove_def with_mouse_def sx_let_def) (auto simp: mouse_ok_def drag_inv_def)
next
  case False
  let ?m1 = "note_modifier ev m"
  let ?m2 = "if ev_which ev \<noteq> 0 \<or> ev_button ev \<noteq> 0 then ?m1\<lparr>mouseMoved := True\<rparr> else ?m1"
  have "mouseMove (logged mm) ev (m, s) = drag_or_start (logged mm) ev (?m2, s)"
    using False by (simp add: mouseMove_def with_mouse_def sx_let_def on_mouse_def)
  moreover have "drag_inv (?m2, s)" "listeners ?m2 \<noteq> []"
    using assms by (auto simp: drag_inv_def mouse_ok_def)
  ultimately show ?thesis using drag_or_start_effect by metis
qed

text \<open>A press that is not ignored: there is no listener and no drag, and both are made together.\<close>

lemma mouseDown_effect:
  fixes s :: "'s \<times> call list"
  assumes "drag_inv (m, s)"
  shows "drag_inv (snd (mouseDown (logged mm) ev (m, s)))"
proof (cases "mouseHandled m")
  case True
  with assms show ?thesis by (simp add: mouseDown_def with_mouse_def sx_let_def)
next
  case False
  with assms have idle: "listeners m = []" "\<not> mouseStarted m" and ph: "phase False (snd s) = Some False"
    by (auto simp: drag_inv_def mouse_ok_def)
  let ?m1 = "m\<lparr>mouseMoved := False, mouseDownEvent := Some ev\<rparr>"
  have calm: "drag_inv (m', s')" if "listeners m' = []" "\<not> mouseStarted m'" "phase False (snd s') = Some False"
    for m' and s' :: "'s \<times> call list"
    using that by (auto simp: drag_inv_def mouse_ok_def)
  obtain r s1 where c: "on_widget (mm_capture (logged mm) ev) (?m1, s) = (r, (?m1, s1))" "snd s1 = snd s"
    by (cases s; cases "mm_capture mm ev (fst s)") (auto simp: on_widget_def logged_def)
  let ?m2 = "arm_delay ?m1"
  obtain far where far: "mouseDistanceMet ?m2 ev = Inr far" by (simp add: mouseDistanceMet_def)
  obtain q s2 where q: "on_widget (mm_start (logged mm) ev) (?m2, s1) = (q, (?m2, s2))"
    "case q of Inl e \<Rightarrow> phase False (snd s2) = Some False | Inr go \<Rightarrow> phase False (snd s2) = Some go"
    using start_effect [where s = s1 and mm = mm and ev = ev and m = ?m2] ph c(2) by (auto simp: on_widget_def split: prod.splits sum.splits)
  have run: "mouseDown (logged mm) ev (m, s) =
    (if ev_which ev \<noteq> 1 \<or> ev_cancel ev then (Inr (), (?m1, s))
     else case r of
       Inl e \<Rightarrow> (Inl e, (?m1, s1))
     | Inr captured \<Rightarrow>
       if \<not> captured then (Inr (), (?m1, s1))
       else if far \<and> mouseDelayMet ?m2 then
         (case q of
            Inl e \<Rightarrow> (Inl e, (?m2, s2))
          | Inr go \<Rightarrow>
            (let m3 = ?m2\<lparr>mouseStarted := go\<rparr>
             in (Inr (), (if go then bind_delegates (m3\<lparr>preventClick := filter (\<lambda>t. t \<noteq> ev_target ev) (preventClick m3)\<rparr>) else m3, s2))))
       else (Inr (), (bind_delegates (?m2\<lparr>preventClick := filter (\<lambda>t. t \<noteq> ev_target ev) (preventClick ?m2)\<rparr>), s1)))"
    using False idle(2) c(1) far q(1)
    by (cases r; cases q)
      (simp_all add: mouseDown_def with_mouse_def sx_let_def on_mouse_def sx_seq_def sx_bind_def sx_lift_def Let_def)
  have p1: "phase False (snd s1) = Some False" using ph c(2) by simp
  have bound: "drag_inv (bind_delegates (m'\<lparr>preventClick := t\<rparr>), s')"
    if "listeners m' = []" "mouseDownEvent m' = Some ev" "phase False (snd s') = Some (mouseStarted m')"
    for m' t and s' :: "'s \<times> call list"
    using that by (simp add: drag_inv_def mouse_ok_def bind_delegates_def)
  show ?thesis
    unfolding run Let_def using idle ph p1 q(2)
    by (cases r; cases q) (auto intro!: calm bound)
qed

lemma mouse_step_effect:
  assumes "drag_inv st"
  shows "drag_inv (snd (mouse_step (logged mm) e st))"
proof (cases e)
  case (Down ev)
  with assms mouseDown_effect show ?thesis by (cases st) simp
next
  case (Move ev)
  obtain m s where st: "st = (m, s)" by (cases st)
  then consider "listeners m = []" | d where "listeners m = [d]"
    using assms by (auto simp: drag_inv_def mouse_ok_def)
  then show ?thesis
  proof cases
    case 2
    with assms Move st mouseMove_effect [of m s mm ev] show ?thesis
      by (simp add: sx_let_def)
  qed (use assms Move st in \<open>simp add: sx_let_def\<close>)
next
  case (Up ev)
  obtain m s where st: "st = (m, s)" by (cases st)
  let ?m = "m\<lparr>mouseHandled := False\<rparr>"
  have step: "mouse_step (logged mm) e st = sx_each (\<lambda>_. mouseUp (logged mm) ev) (listeners m) (?m, s)"
    by (simp add: Up st on_mouse_def sx_let_def)
  consider "listeners m = []" | d where "listeners m = [d]" "delegate m = Some d"
    using assms st by (auto simp: drag_inv_def mouse_ok_def)
  then show ?thesis
  proof cases
    case 1
    with assms step st show ?thesis by (auto simp: drag_inv_def mouse_ok_def)
  next
    case 2
    have "drag_inv (snd (mouseUp (logged mm) ev (?m, s)))"
      using assms st 2 by (intro mouseUp_effect) (auto simp: drag_inv_def mouse_ok_def)
    with 2 step show ?thesis by simp
  qed
next
  case (Click t)
  with assms show ?thesis
    by (cases st) (auto simp: mouseClick_def mouse_unfold drag_inv_def mouse_ok_def split: prod.splits)
next
  case (Timeout t)
  with assms show ?thesis
    by (cases st) (auto simp: on_mouse_def delay_timeout_def drag_inv_def mouse_ok_def)
qed

lemma mouse_run_effect: "drag_inv st \<Longrightarrow> drag_inv (mouse_run (logged mm) es st)"
proof (induction es arbitrary: st)
  case (Cons e es)
  from Cons.IH [OF mouse_step_effect [OF Cons.prems]] show ?case by simp
qed simp

subsection \<open>Properties\<close>

text \<open>
  C20. One drag at a time, for every widget and every sequence of presses, moves, releases, clicks and
  timeouts: the widget has at most one listener on the document, a drag is under way only while it is
  bound, and the calls of the widget's methods are in order, each drag after a start that went on, each
  such start followed by drags and one stop before the next start.
\<close>

theorem one_drag_at_a_time:
  "let (m, s, calls) = mouse_run (logged mm) es (mouse_init distance delay ie, s0, [])
   in length (listeners m) \<le> 1 \<and> (mouseStarted m \<longrightarrow> listeners m \<noteq> []) \<and> phase False calls = Some (mouseStarted m)"
proof -
  have "drag_inv (mouse_init distance delay ie, s0, [])"
    by (simp add: drag_inv_def mouse_ok_def mouse_init_def)
  from mouse_run_effect [OF this, of mm es] show ?thesis
    by (auto simp: drag_inv_def mouse_ok_def split: prod.splits)
qed

definition press :: "int \<Rightarrow> mouse_event" where
  "press x = \<lparr>ev_pageX = jint x, ev_pageY = Fin 0, ev_which = 1, ev_button = 0, ev_target = 0, ev_cancel = False, ev_modifier = False\<rparr>"

definition willing :: "unit mouse_methods" where
  "willing = \<lparr>mm_capture = (\<lambda>ev. sx_return True), mm_start = (\<lambda>ev. sx_return True), mm_drag = (\<lambda>ev. sx_return ()),
     mm_stop = (\<lambda>ev. sx_return ())\<rparr>"

theorem one_drag_at_a_time_witness:
  "let (m, s, calls) = mouse_run (logged willing) [Down (press 0), Move (press 5), Move (press 6), Up (press 6)]
      (mouse_init (Fin 1) (Fin 0) False, (), [])
   in phase False calls = Some (mouseStarted m)"
  using one_drag_at_a_time [of willing "[Down (press 0), Move (press 5), Move (press 6), Up (press 6)]" "Fin 1" "Fin 0" False "()"]
  by (auto simp: Let_def split: prod.splits)

end
