(* ===== verification/Slider.thy ===== *)
theory Slider
  imports Mouse
begin

text \<open>
  The slider of \<open>jquery-ui.js\<close> (\<open>ui.slider\<close>), which the page uses for the time span, the update rate and the
  value that is sent. The record has the options of the widget, its private fields and what it shows:
  the position of every handle and of the range, in per cent. A handler of the page is a computation
  \<open>cb\<close> on the state outside, \<open>'w\<close>, which also sees the slider, gets the kind of the event with the values
  passed to it, and returns whether the action may go on; it may throw.

  Geometry that the browser computes (sizes and offsets of elements) is an argument. Animations are
  shown in their final state; classes, hovering and focus are not modelled. Values are numbers.
\<close>

subsection \<open>State\<close>

datatype range = NoRange | RangeTrue | RangeMin | RangeMax

datatype orientation = Horizontal | Vertical

text \<open>The styles that the widget sets, in per cent.\<close>

record style =
  st_left :: "jsnum option"
  st_bottom :: "jsnum option"
  st_width :: "jsnum option"
  st_height :: "jsnum option"

definition no_style :: style where
  "no_style = \<lparr>st_left = None, st_bottom = None, st_width = None, st_height = None\<rparr>"

record slider =
  o_disabled :: bool
  o_max :: jsnum
  o_min :: jsnum
  o_orientation :: orientation
  o_range :: range
  o_step :: jsnum
  o_value :: jsnum
  o_values :: "jsnum list option"
  keySliding :: bool
  mouseSliding :: bool
  handleIndex :: "nat option"
  lastChangedValue :: "nat option"
  clickOffset :: "(jsnum \<times> jsnum) option"
  s_orientation :: orientation
  s_max :: jsnum
  handles :: "style list"
  s_range :: "style option"
  elementSize :: "jsnum \<times> jsnum"
  elementOffset :: "jsnum \<times> jsnum"

text \<open>The events, with the fields \<open>handleIndex\<close>, \<open>value\<close> and \<open>values\<close> of the object passed to the callback.\<close>

datatype trigger_kind = TStart | TSlide | TStop | TChange

record ui_hash =
  h_index :: "nat option"
  h_value :: jsnum
  h_values :: "jsnum list option"

type_synonym 'w callback = "trigger_kind \<Rightarrow> ui_hash \<Rightarrow> slider \<Rightarrow> ('w, bool) sx"

type_synonym ('w, 'a) slx = "(slider \<times> 'w, 'a) sx"

definition on_slider :: "(slider \<Rightarrow> slider) \<Rightarrow> ('w, unit) slx" where
  "on_slider f = sx_mod (\<lambda>(s, w). (f s, w))"

definition with_slider :: "(slider \<Rightarrow> ('w, 'a) slx) \<Rightarrow> ('w, 'a) slx" where
  "with_slider = sx_let fst"

definition trigger :: "'w callback \<Rightarrow> trigger_kind \<Rightarrow> ui_hash \<Rightarrow> ('w, bool) slx" where
  "trigger cb k hash = (\<lambda>(s, w). case cb k hash s w of (r, w') \<Rightarrow> (r, (s, w')))"

subsection \<open>Values\<close>

definition valueMin :: "slider \<Rightarrow> jsnum" where
  "valueMin s = o_min s"

definition valueMax :: "slider \<Rightarrow> jsnum" where
  "valueMax s = s_max s"

text \<open>The aligned value on the branch between the bounds.\<close>

definition align :: "jsnum \<Rightarrow> jsnum \<Rightarrow> jsnum \<Rightarrow> jsnum" where
  "align mn step0 val =
     (let step = (if js_less (Fin 0) step0 then step0 else Fin 1);
          valModStep = js_mod (js_sub val mn) step;
          alignValue = js_sub val valModStep;
          alignValue = (if js_le step (js_mul (js_abs valModStep) (Fin 2))
                        then js_add alignValue (if js_less (Fin 0) valModStep then step else js_neg step)
                        else alignValue)
      in to_fixed_num 5 alignValue)"

definition trimAlignValue :: "slider \<Rightarrow> jsnum \<Rightarrow> jsnum" where
  "trimAlignValue s val =
     (if js_le val (valueMin s) then valueMin s
      else if js_le (valueMax s) val then valueMax s
      else align (valueMin s) (o_step s) val)"

definition precision :: "slider \<Rightarrow> nat" where
  "precision s = max (decimals (o_step s)) (decimals (o_min s))"

definition calculateNewMax :: "slider \<Rightarrow> slider" where
  "calculateNewMax s =
     (let mn = valueMin s; step = o_step s;
          aboveMin = js_mul (js_round (js_div (js_sub (o_max s) mn) step)) step;
          mx = js_add aboveMin mn;
          mx = (if js_less (o_max s) mx then js_sub mx step else mx)
      in s\<lparr>s_max := to_fixed_num (precision s) mx\<rparr>)"

definition hasMultipleValues :: "slider \<Rightarrow> bool" where
  "hasMultipleValues s = (case o_values s of None \<Rightarrow> False | Some vs \<Rightarrow> vs \<noteq> [])"

text \<open>\<open>value()\<close>, \<open>values()\<close> and \<open>values(i)\<close>; an index outside of the array reads \<open>undefined\<close>, which every comparison
  treats as NaN.\<close>

definition get_value :: "slider \<Rightarrow> jsnum" where
  "get_value s = trimAlignValue s (o_value s)"

definition get_values :: "slider \<Rightarrow> jsnum list" where
  "get_values s = (case o_values s of
     Some vs \<Rightarrow> if vs \<noteq> [] then map (trimAlignValue s) vs else []
   | None \<Rightarrow> [])"

definition nth_num :: "jsnum list \<Rightarrow> nat \<Rightarrow> jsnum" where
  "nth_num vs i = (if i < length vs then vs ! i else NaN)"

definition get_value_at :: "slider \<Rightarrow> nat \<Rightarrow> jsnum" where
  "get_value_at s i = (case o_values s of
     Some vs \<Rightarrow> if vs \<noteq> [] then trimAlignValue s (nth_num vs i) else get_value s
   | None \<Rightarrow> get_value s)"

subsection \<open>Display\<close>

text \<open>\<open>100 * (v - min) / (max - min)\<close> as the code computes it.\<close>

definition percent_of :: "slider \<Rightarrow> jsnum \<Rightarrow> jsnum" where
  "percent_of s v =
     js_mul (js_div (js_sub v (valueMin s)) (js_sub (valueMax s) (valueMin s))) (Fin 100)"

definition set_handle :: "slider \<Rightarrow> jsnum \<Rightarrow> style \<Rightarrow> style" where
  "set_handle s p st = (case s_orientation s of Horizontal \<Rightarrow> st\<lparr>st_left := Some p\<rparr> | Vertical \<Rightarrow> st\<lparr>st_bottom := Some p\<rparr>)"

text \<open>The range between two handles: the first handle sets its start, the second its size.\<close>

definition set_range :: "slider \<Rightarrow> nat \<Rightarrow> jsnum \<Rightarrow> jsnum \<Rightarrow> style option \<Rightarrow> style option" where
  "set_range s i p last_p r =
     (if o_range s \<noteq> RangeTrue then r
      else case s_orientation s of
        Horizontal \<Rightarrow> if i = 0 then map_option (st_left_update (\<lambda>_. Some p)) r
          else if i = 1 then map_option (st_width_update (\<lambda>_. Some (js_sub p last_p))) r else r
      | Vertical \<Rightarrow> if i = 0 then map_option (st_bottom_update (\<lambda>_. Some p)) r
          else if i = 1 then map_option (st_height_update (\<lambda>_. Some (js_sub p last_p))) r else r)"

fun show_handles :: "slider \<Rightarrow> nat \<Rightarrow> jsnum \<Rightarrow> style list \<Rightarrow> style option \<Rightarrow> style list \<times> style option" where
  "show_handles s i last_p [] r = ([], r)"
| "show_handles s i last_p (h # hs) r =
     (let p = percent_of s (get_value_at s i)
      in case show_handles s (i + 1) p hs (set_range s i p last_p r) of (hs', r') \<Rightarrow> (set_handle s p h # hs', r'))"

definition single_range :: "slider \<Rightarrow> jsnum \<Rightarrow> style option \<Rightarrow> style option" where
  "single_range s p r = (case (o_range s, s_orientation s) of
     (RangeMin, Horizontal) \<Rightarrow> map_option (st_width_update (\<lambda>_. Some p)) r
   | (RangeMax, Horizontal) \<Rightarrow> map_option (st_width_update (\<lambda>_. Some (js_sub (Fin 100) p))) r
   | (RangeMin, Vertical) \<Rightarrow> map_option (st_height_update (\<lambda>_. Some p)) r
   | (RangeMax, Vertical) \<Rightarrow> map_option (st_height_update (\<lambda>_. Some (js_sub (Fin 100) p))) r
   | _ \<Rightarrow> r)"

definition refreshValue :: "slider \<Rightarrow> slider" where
  "refreshValue s =
     (if hasMultipleValues s then
        (case show_handles s 0 NaN (handles s) (s_range s) of (hs, r) \<Rightarrow> s\<lparr>handles := hs, s_range := r\<rparr>)
      else
        (let p = (if \<not> js_eq (valueMax s) (valueMin s) then percent_of s (get_value s) else Fin 0)
         in s\<lparr>handles := (case handles s of [] \<Rightarrow> [] | h # hs \<Rightarrow> set_handle s p h # hs),
              s_range := single_range s p (s_range s)\<rparr>))"

definition createRange :: "slider \<Rightarrow> slider" where
  "createRange s =
     (if o_range s = NoRange then s\<lparr>s_range := None\<rparr>
      else
        (let s = (if o_range s = RangeTrue then
                    (case o_values s of
                       None \<Rightarrow> s\<lparr>o_values := Some [valueMin s, valueMin s]\<rparr>
                     | Some vs \<Rightarrow> if vs \<noteq> [] \<and> length vs \<noteq> 2 then s\<lparr>o_values := Some [hd vs, hd vs]\<rparr> else s)
                  else s)
         in case s_range s of
              None \<Rightarrow> s\<lparr>s_range := Some no_style\<rparr>
            | Some r \<Rightarrow> s\<lparr>s_range := Some (r\<lparr>st_left := None, st_bottom := None\<rparr>)\<rparr>))"

definition createHandles :: "slider \<Rightarrow> slider" where
  "createHandles s =
     (let n = (case o_values s of Some vs \<Rightarrow> if vs \<noteq> [] then length vs else 1 | None \<Rightarrow> 1)
      in s\<lparr>handles := take n (handles s) @ replicate (n - length (handles s)) no_style\<rparr>)"

definition refresh :: "slider \<Rightarrow> slider" where
  "refresh s = refreshValue (createHandles (createRange s))"

definition detectOrientation :: "slider \<Rightarrow> slider" where
  "detectOrientation s = s\<lparr>s_orientation := o_orientation s\<rparr>"

definition create :: "slider \<Rightarrow> slider" where
  "create s = refresh (calculateNewMax (detectOrientation
     (s\<lparr>keySliding := False, mouseSliding := False, handleIndex := None\<rparr>)))"

subsection \<open>Events\<close>

text \<open>\<open>_uiHash(index, value, values)\<close>; a missing value or list of values is \<open>None\<close>.\<close>

definition uiHash :: "slider \<Rightarrow> nat option \<Rightarrow> jsnum option \<Rightarrow> jsnum list option \<Rightarrow> ui_hash" where
  "uiHash s index value vals =
     (if hasMultipleValues s
      then \<lparr>h_index = index,
             h_value = (case value of Some v \<Rightarrow> v | None \<Rightarrow> (case index of Some i \<Rightarrow> get_value_at s i | None \<Rightarrow> NaN)),
             h_values = Some (case vals of Some vs \<Rightarrow> vs | None \<Rightarrow> get_values s)\<rparr>
      else \<lparr>h_index = index, h_value = (case value of Some v \<Rightarrow> v | None \<Rightarrow> get_value s), h_values = None\<rparr>)"

definition start :: "'w callback \<Rightarrow> nat option \<Rightarrow> ('w, bool) slx" where
  "start cb index = with_slider (\<lambda>s. trigger cb TStart (uiHash s index None None))"

definition stop :: "'w callback \<Rightarrow> nat option \<Rightarrow> ('w, unit) slx" where
  "stop cb index = with_slider (\<lambda>s. sx_seq (trigger cb TStop (uiHash s index None None)) (sx_return ()))"

definition change :: "'w callback \<Rightarrow> nat option \<Rightarrow> ('w, unit) slx" where
  "change cb index = with_slider (\<lambda>s.
     sx_when (\<not> keySliding s \<and> \<not> mouseSliding s)
       (sx_seq (on_slider (\<lambda>s. s\<lparr>lastChangedValue := index\<rparr>))
       (sx_seq (trigger cb TChange (uiHash s index None None)) (sx_return ()))))"

definition set_value :: "'w callback \<Rightarrow> jsnum \<Rightarrow> ('w, unit) slx" where
  "set_value cb v =
     sx_seq (on_slider (\<lambda>s. refreshValue (s\<lparr>o_value := trimAlignValue s v\<rparr>)))
     (change cb (Some 0))"

text \<open>An assignment beyond the end of the array extends it with holes.\<close>

definition set_nth :: "jsnum list \<Rightarrow> nat \<Rightarrow> jsnum \<Rightarrow> jsnum list" where
  "set_nth vs i v = (vs @ replicate (i + 1 - length vs) NaN)[i := v]"

definition set_value_at :: "'w callback \<Rightarrow> nat \<Rightarrow> jsnum \<Rightarrow> ('w, unit) slx" where
  "set_value_at cb i v = with_slider (\<lambda>s.
     case o_values s of
       None \<Rightarrow> sx_throw TypeError
     | Some vs \<Rightarrow>
       sx_seq (on_slider (\<lambda>s. refreshValue (s\<lparr>o_values := Some (set_nth vs i (trimAlignValue s v))\<rparr>)))
       (change cb (Some i)))"

definition set_values :: "'w callback \<Rightarrow> jsnum list \<Rightarrow> ('w, unit) slx" where
  "set_values cb new = with_slider (\<lambda>s.
     case o_values s of
       None \<Rightarrow> sx_throw TypeError
     | Some vs \<Rightarrow>
       sx_seq (sx_each (\<lambda>i. sx_seq
         (on_slider (\<lambda>s. s\<lparr>o_values := map_option (\<lambda>vs. set_nth vs i (trimAlignValue s (nth_num new i))) (o_values s)\<rparr>))
         (change cb (Some i))) [0..<length vs])
       (on_slider refreshValue))"

text \<open>The value a slide compares with, and the value it aims at: in a range the handles do not cross.\<close>

definition slide_current :: "slider \<Rightarrow> nat option \<Rightarrow> jsnum" where
  "slide_current s index =
     (if hasMultipleValues s then (case index of Some i \<Rightarrow> get_value_at s i | None \<Rightarrow> NaN) else get_value s)"

definition slide_target :: "slider \<Rightarrow> nat option \<Rightarrow> jsnum \<Rightarrow> jsnum" where
  "slide_target s index newVal =
     (let otherVal = get_value_at s (case index of Some (Suc i) \<Rightarrow> 0 | _ \<Rightarrow> 1)
      in if hasMultipleValues s \<and> map_option length (o_values s) = Some 2 \<and> o_range s = RangeTrue
         then (if index = Some 0 then js_min otherVal newVal else js_max otherVal newVal) else newVal)"

definition slide :: "'w callback \<Rightarrow> nat option \<Rightarrow> jsnum \<Rightarrow> ('w, unit) slx" where
  "slide cb index newVal0 = with_slider (\<lambda>s.
     let newVal = slide_target s index newVal0;
         newValues = (if hasMultipleValues s
                      then (case index of Some i \<Rightarrow> set_nth (get_values s) i newVal | None \<Rightarrow> get_values s)
                      else get_values s)
     in if js_eq newVal (slide_current s index) then sx_return ()
        else sx_bind (trigger cb TSlide (uiHash s index (Some newVal) (Some newValues))) (\<lambda>allowed.
          if \<not> allowed then sx_return ()
          else if hasMultipleValues s then (case index of Some i \<Rightarrow> set_value_at cb i newVal | None \<Rightarrow> sx_return ())
          else set_value cb newVal))"

subsection \<open>Mouse\<close>

text \<open>What the browser knows of the page when the mouse goes down: size and offset of the element, whether
  the target is a handle, and for each handle its offset, its size and the sum of its vertical border
  and margin corrections, and whether one is hovered.\<close>

record geometry =
  g_size :: "jsnum \<times> jsnum"
  g_offset :: "jsnum \<times> jsnum"
  g_on_handle :: bool
  g_handle_offset :: "nat \<Rightarrow> jsnum \<times> jsnum"
  g_handle_size :: "nat \<Rightarrow> jsnum \<times> jsnum"
  g_handle_border :: "nat \<Rightarrow> jsnum \<times> jsnum \<times> jsnum"
  g_hover :: bool

definition normValueFromMouse :: "slider \<Rightarrow> jsnum \<times> jsnum \<Rightarrow> jsnum" where
  "normValueFromMouse s pos =
     (let (pixelTotal, pixelMouse) =
            (case s_orientation s of
               Horizontal \<Rightarrow> (fst (elementSize s), js_sub (js_sub (fst pos) (fst (elementOffset s)))
                 (case clickOffset s of Some c \<Rightarrow> fst c | None \<Rightarrow> Fin 0))
             | Vertical \<Rightarrow> (snd (elementSize s), js_sub (js_sub (snd pos) (snd (elementOffset s)))
                 (case clickOffset s of Some c \<Rightarrow> snd c | None \<Rightarrow> Fin 0)));
          percentMouse = js_div pixelMouse pixelTotal;
          percentMouse = (if js_less (Fin 1) percentMouse then Fin 1 else percentMouse);
          percentMouse = (if js_less percentMouse (Fin 0) then Fin 0 else percentMouse);
          percentMouse = (if s_orientation s = Vertical then js_sub (Fin 1) percentMouse else percentMouse);
          valueTotal = js_sub (valueMax s) (valueMin s);
          valueMouse = js_add (valueMin s) (js_mul percentMouse valueTotal)
      in trimAlignValue s valueMouse)"

text \<open>The handle nearest to a value; of equally near ones the last that changed or stands at the minimum.\<close>

fun closest :: "slider \<Rightarrow> jsnum \<Rightarrow> nat \<Rightarrow> nat \<Rightarrow> jsnum \<Rightarrow> nat option \<Rightarrow> nat option" where
  "closest s normValue 0 i distance index = index"
| "closest s normValue (Suc n) i distance index =
     (let thisDistance = js_abs (js_sub normValue (get_value_at s i))
      in if js_less thisDistance distance \<or>
            js_eq distance thisDistance \<and> (lastChangedValue s = Some i \<or> js_eq (get_value_at s i) (o_min s))
         then closest s normValue n (i + 1) thisDistance (Some i)
         else closest s normValue n (i + 1) distance index)"

definition click_offset :: "geometry \<Rightarrow> mouse_event \<Rightarrow> nat \<Rightarrow> jsnum \<times> jsnum" where
  "click_offset g ev i =
     (if \<not> g_on_handle g then (Fin 0, Fin 0)
      else
        (let (left, top) = g_handle_offset g i; (width, height) = g_handle_size g i; (bt, bb, mt) = g_handle_border g i
         in (js_sub (js_sub (ev_pageX ev) left) (js_div width (Fin 2)),
             js_add (js_sub (js_sub (js_sub (js_sub (ev_pageY ev) top) (js_div height (Fin 2))) bt) bb) mt)))"

definition mouseCapture :: "'w callback \<Rightarrow> geometry \<Rightarrow> mouse_event \<Rightarrow> ('w, bool) slx" where
  "mouseCapture cb g ev = with_slider (\<lambda>s.
     if o_disabled s then sx_return False
     else
       (let s1 = s\<lparr>elementSize := g_size g, elementOffset := g_offset g\<rparr>;
            normValue = normValueFromMouse s1 (ev_pageX ev, ev_pageY ev);
            distance = js_add (js_sub (valueMax s) (valueMin s)) (Fin 1);
            index = closest s1 normValue (length (handles s)) 0 distance None
        in sx_seq (on_slider (\<lambda>_. s1))
           (sx_bind (start cb index) (\<lambda>allowed.
            if \<not> allowed then sx_return False
            else
              sx_seq (on_slider (\<lambda>s. s\<lparr>mouseSliding := True, handleIndex := index\<rparr>))
              (case index of
                 None \<Rightarrow> sx_throw TypeError
               | Some i \<Rightarrow>
                 sx_seq (on_slider (\<lambda>s. s\<lparr>clickOffset := Some (click_offset g ev i)\<rparr>))
                 (sx_seq (sx_when (\<not> g_hover g) (slide cb index normValue))
                 (sx_return True)))))))"

definition mouseDrag :: "'w callback \<Rightarrow> mouse_event \<Rightarrow> ('w, unit) slx" where
  "mouseDrag cb ev = with_slider (\<lambda>s. slide cb (handleIndex s) (normValueFromMouse s (ev_pageX ev, ev_pageY ev)))"

definition mouseStop :: "'w callback \<Rightarrow> ('w, unit) slx" where
  "mouseStop cb =
     sx_seq (on_slider (\<lambda>s. s\<lparr>mouseSliding := False\<rparr>))
     (with_slider (\<lambda>s.
        sx_seq (stop cb (handleIndex s))
        (sx_seq (change cb (handleIndex s))
        (on_slider (\<lambda>s. s\<lparr>handleIndex := None, clickOffset := None\<rparr>)))))"

definition slider_methods :: "'w callback \<Rightarrow> geometry \<Rightarrow> (slider \<times> 'w) mouse_methods" where
  "slider_methods cb g = \<lparr>mm_capture = mouseCapture cb g, mm_start = (\<lambda>ev. sx_return True), mm_drag = mouseDrag cb,
     mm_stop = (\<lambda>ev. mouseStop cb)\<rparr>"

subsection \<open>Keys\<close>

datatype slider_key = HOME | END_KEY | PAGE_UP | PAGE_DOWN | UP | RIGHT | DOWN | LEFT | OTHER

definition numPages :: jsnum where "numPages = Fin 5"

text \<open>The new value of a key, \<open>None\<close> where the handler returns early.\<close>

definition key_value :: "slider \<Rightarrow> slider_key \<Rightarrow> jsnum \<Rightarrow> jsnum option" where
  "key_value s k curVal =
     (let page = js_div (js_sub (valueMax s) (valueMin s)) numPages
      in case k of
           HOME \<Rightarrow> Some (valueMin s)
         | END_KEY \<Rightarrow> Some (valueMax s)
         | PAGE_UP \<Rightarrow> Some (trimAlignValue s (js_add curVal page))
         | PAGE_DOWN \<Rightarrow> Some (trimAlignValue s (js_sub curVal page))
         | UP \<Rightarrow> if js_eq curVal (valueMax s) then None else Some (trimAlignValue s (js_add curVal (o_step s)))
         | RIGHT \<Rightarrow> if js_eq curVal (valueMax s) then None else Some (trimAlignValue s (js_add curVal (o_step s)))
         | DOWN \<Rightarrow> if js_eq curVal (valueMin s) then None else Some (trimAlignValue s (js_sub curVal (o_step s)))
         | LEFT \<Rightarrow> if js_eq curVal (valueMin s) then None else Some (trimAlignValue s (js_sub curVal (o_step s)))
         | OTHER \<Rightarrow> Some curVal)"

definition keydown :: "'w callback \<Rightarrow> slider_key \<Rightarrow> nat \<Rightarrow> ('w, unit) slx" where
  "keydown cb k i =
     sx_bind (with_slider (\<lambda>s.
       if k \<noteq> OTHER \<and> \<not> keySliding s then
         sx_seq (on_slider (\<lambda>s. s\<lparr>keySliding := True\<rparr>)) (start cb (Some i))
       else sx_return True)) (\<lambda>allowed.
     if \<not> allowed then sx_return ()
     else with_slider (\<lambda>s.
       case key_value s k (if hasMultipleValues s then get_value_at s i else get_value s) of
         None \<Rightarrow> sx_return ()
       | Some newVal \<Rightarrow> slide cb (Some i) newVal))"

definition keyup :: "'w callback \<Rightarrow> nat \<Rightarrow> ('w, unit) slx" where
  "keyup cb i = with_slider (\<lambda>s.
     sx_when (keySliding s)
       (sx_seq (on_slider (\<lambda>s. s\<lparr>keySliding := False\<rparr>))
       (sx_seq (stop cb (Some i)) (change cb (Some i)))))"

subsection \<open>Options\<close>

datatype slider_option =
    OptMin jsnum | OptMax jsnum | OptStep jsnum | OptValue jsnum | OptValues "jsnum list option"
  | OptRange range | OptOrientation orientation | OptDisabled bool

text \<open>When a range between two handles becomes a range from an end, one of the values stays.\<close>

definition leave_range :: "range \<Rightarrow> slider \<Rightarrow> slider js" where
  "leave_range r s =
     (if o_range s = RangeTrue \<and> (r = RangeMin \<or> r = RangeMax) then
        (case o_values s of
           None \<Rightarrow> Inl TypeError
         | Some vs \<Rightarrow> Inr (s\<lparr>o_value := trimAlignValue s (nth_num vs (if r = RangeMin then 0 else length vs - 1)), o_values := None\<rparr>))
      else Inr s)"

definition refreshRange :: "orientation \<Rightarrow> style \<Rightarrow> style" where
  "refreshRange o1 r = (case o1 of Vertical \<Rightarrow> r\<lparr>st_width := None, st_left := None\<rparr> | Horizontal \<Rightarrow> r\<lparr>st_height := None, st_bottom := None\<rparr>)"

fun setOption :: "'w callback \<Rightarrow> slider_option \<Rightarrow> ('w, unit) slx" where
  "setOption cb (OptOrientation o1) = on_slider (\<lambda>s.
     let s = refreshValue (detectOrientation (s\<lparr>o_orientation := o1\<rparr>));
         s = (if o_range s \<noteq> NoRange then s\<lparr>s_range := map_option (refreshRange o1) (s_range s)\<rparr> else s)
     in s\<lparr>handles := map (case o1 of Horizontal \<Rightarrow> st_bottom_update (\<lambda>_. None) | Vertical \<Rightarrow> st_left_update (\<lambda>_. None)) (handles s)\<rparr>)"
| "setOption cb (OptValue v) =
     sx_seq (on_slider (\<lambda>s. refreshValue (s\<lparr>o_value := v\<rparr>))) (change cb (Some 0))"
| "setOption cb (OptValues vs) = with_slider (\<lambda>s.
     sx_seq (on_slider (\<lambda>s. refreshValue (s\<lparr>o_values := vs\<rparr>)))
     (sx_each (\<lambda>i. change cb (Some i)) (rev [0..<(case o_values s of None \<Rightarrow> 0 | Some old \<Rightarrow> length old)])))"
| "setOption cb (OptStep v) = on_slider (\<lambda>s. refreshValue (calculateNewMax (s\<lparr>o_step := v\<rparr>)))"
| "setOption cb (OptMin v) = on_slider (\<lambda>s. refreshValue (calculateNewMax (s\<lparr>o_min := v\<rparr>)))"
| "setOption cb (OptMax v) = on_slider (\<lambda>s. refreshValue (calculateNewMax (s\<lparr>o_max := v\<rparr>)))"
| "setOption cb (OptRange r) = with_slider (\<lambda>s.
     case leave_range r s of
       Inl e \<Rightarrow> sx_throw e
     | Inr s' \<Rightarrow> on_slider (\<lambda>_. refresh (s'\<lparr>o_range := r\<rparr>)))"
| "setOption cb (OptDisabled b) = on_slider (\<lambda>s. s\<lparr>o_disabled := b\<rparr>)"

subsection \<open>Whole numbers\<close>

definition whole :: "jsnum \<Rightarrow> int \<Rightarrow> bool" where
  "whole x n \<longleftrightarrow> is_fin x \<and> num_val x = of_int n"

text \<open>The grid of a slider with whole options: from \<open>mn\<close> to \<open>mx\<close> in steps of \<open>st\<close>.\<close>

definition grid :: "int \<Rightarrow> int \<Rightarrow> int \<Rightarrow> bool" where
  "grid mn mx st \<longleftrightarrow> 0 < st \<and> st \<le> 2 ^ 30 \<and> \<bar>mn\<bar> \<le> 2 ^ 30 \<and> \<bar>mx\<bar> \<le> 2 ^ 30 \<and> mn \<le> mx \<and> st dvd (mx - mn)"

definition on_grid :: "int \<Rightarrow> int \<Rightarrow> int \<Rightarrow> jsnum \<Rightarrow> bool" where
  "on_grid mn mx st x \<longleftrightarrow> (\<exists>k. whole x k \<and> mn \<le> k \<and> k \<le> mx \<and> st dvd (k - mn))"

definition gridded :: "int \<Rightarrow> int \<Rightarrow> int \<Rightarrow> slider \<Rightarrow> bool" where
  "gridded mn mx st s \<longleftrightarrow> grid mn mx st \<and> whole (o_min s) mn \<and> whole (s_max s) mx \<and> whole (o_step s) st"

lemma whole_jint [simp]: "whole (jint n) m \<longleftrightarrow> n = m"
  by (simp add: whole_def)

lemma of_int_le_pow: "\<bar>n\<bar> \<le> 2 ^ k \<Longrightarrow> \<bar>of_int n :: rat\<bar> \<le> 2 ^ k"
proof -
  assume "\<bar>n\<bar> \<le> 2 ^ k"
  then have "(of_int \<bar>n\<bar> :: rat) \<le> of_int (2 ^ k)" by (subst of_int_le_iff)
  then show ?thesis by simp
qed

text \<open>The offset of a value from the minimum, rounded, and its remainder.\<close>

lemma align_offset:
  assumes "grid mn mx st" "is_fin val" "of_int mn < num_val val" "num_val val < of_int mx" "whole m mn" "whole s0 st"
  defines "v \<equiv> num_val val" and "d \<equiv> num_val (js_sub val m)" and "r \<equiv> num_val (js_mod (js_sub val m) s0)"
  shows "is_fin (js_sub val m)" and "is_fin (js_mod (js_sub val m) s0)"
    and "\<bar>d - (v - of_int mn)\<bar> \<le> 1 / 2 ^ 22"
    and "\<exists>q. 0 \<le> q \<and> r = d - of_int (q * st) \<and> 0 \<le> r \<and> r < of_int st \<and> mn + q * st \<le> mx \<and>
      (0 < r \<longrightarrow> mn + (q + 1) * st \<le> mx)"
proof -
  have b: "\<bar>of_int mn :: rat\<bar> \<le> 2 ^ 30" "\<bar>of_int mx :: rat\<bar> \<le> 2 ^ 30" "(0::rat) < of_int st"
    using assms(1) of_int_le_pow [of mn 30] of_int_le_pow [of mx 30] by (auto simp: grid_def)
  have m: "is_fin m" "num_val m = of_int mn" and s0: "is_fin s0" "num_val s0 = of_int st"
    using assms(5,6) by (auto simp: whole_def)
  have small: "\<bar>v - of_int mn\<bar> \<le> 2 ^ 31"
    using b assms(3,4) unfolding v_def abs_le_iff by (simp add: abs_if split: if_splits)
  then have small53: "\<bar>num_val val - num_val m\<bar> \<le> 2 ^ 53" unfolding v_def m by simp
  note sub = js_sub_fin [OF assms(2) m(1) small53]
  show fin: "is_fin (js_sub val m)" by (rule sub(1))
  have d: "d = rnd64 (v - of_int mn)" unfolding d_def sub(2) v_def m ..
  show "\<bar>d - (v - of_int mn)\<bar> \<le> 1 / 2 ^ 22" unfolding d by (rule rnd64_err31 [OF small])
  have m53: "\<bar>mx - mn\<bar> \<le> 2 ^ 53" using assms(1) by (auto simp: grid_def)
  have dlo: "0 \<le> d" using rnd64_ge_int [of 0 "v - of_int mn"] assms(3) unfolding d v_def by simp
  have dhi: "d \<le> of_int (mx - mn)"
    unfolding d using assms(4) m53 by (intro rnd64_le_int) (auto simp: v_def)
  have nz: "num_val s0 \<noteq> 0" using s0 b(3) by simp
  show "is_fin (js_mod (js_sub val m) s0)" by (rule js_mod_fin(1) [OF fin s0(1) nz])
  let ?q = "\<lfloor>d / of_int st\<rfloor>"
  have "0 \<le> d / of_int st" using dlo b(3) by simp
  then have tr: "rat_trunc (d / of_int st) = ?q" by (simp add: rat_trunc_def)
  have r: "r = d - of_int (?q * st)"
    unfolding r_def js_mod_fin(2) [OF fin s0(1) nz] s0 d_def [symmetric]
    by (simp add: tr)
  have q0: "0 \<le> ?q" using dlo b(3) by simp
  have fl: "of_int ?q \<le> d / of_int st" "d / of_int st < of_int ?q + 1" by linarith+
  then have r0: "0 \<le> r" "r < of_int st"
    unfolding r pos_le_divide_eq [OF b(3)] pos_divide_less_eq [OF b(3)] by (simp_all add: algebra_simps)
  obtain n where n: "mx - mn = st * n" using assms(1) by (auto simp: grid_def)
  have sp: "0 < st" using assms(1) by (simp add: grid_def)
  have "of_int (?q * st) \<le> (of_int (st * n) :: rat)" using r0(1) dhi unfolding r n by simp
  then have le: "?q * st \<le> st * n" by (subst (asm) of_int_le_iff)
  have "mn + (?q + 1) * st \<le> mx" if "0 < r"
  proof -
    have "of_int (?q * st) < (of_int (st * n) :: rat)" using that dhi unfolding r n by simp
    then have "?q * st < n * st" by (subst (asm) of_int_less_iff) (simp add: mult.commute)
    then have "?q < n" using sp by simp
    then have "(?q + 1) * st \<le> n * st" using sp by (intro mult_right_mono) auto
    then show ?thesis using n by (simp add: mult.commute)
  qed
  moreover have "mn + ?q * st \<le> mx" using le n by (simp only: mult.commute [of st n])
  ultimately show "\<exists>q. 0 \<le> q \<and> r = d - of_int (q * st) \<and> 0 \<le> r \<and> r < of_int st \<and> mn + q * st \<le> mx \<and>
      (0 < r \<longrightarrow> mn + (q + 1) * st \<le> mx)"
    using q0 r r0 by (intro exI [of _ ?q]) blast
qed

lemma align_whole:
  assumes "grid mn mx st" "is_fin val" "of_int mn < num_val val" "num_val val < of_int mx" "whole m mn" "whole s0 st"
  shows "\<exists>k. whole (align m s0 val) k \<and> mn \<le> k \<and> k \<le> mx \<and> st dvd (k - mn) \<and>
    \<bar>of_int k - num_val val\<bar> \<le> of_int st / 2 + 1 / 2 ^ 21"
proof -
  note o = align_offset [OF assms]
  let ?x = "js_mod (js_sub val m) s0"
  define v d r where "v = num_val val" and "d = num_val (js_sub val m)" and "r = num_val ?x"
  obtain q where q: "0 \<le> q" "r = d - of_int (q * st)" "0 \<le> r" "r < of_int st" "mn + q * st \<le> mx"
    "0 < r \<longrightarrow> mn + (q + 1) * st \<le> mx"
    using o(4) unfolding d_def r_def by blast
  have e1: "\<bar>d - (v - of_int mn)\<bar> \<le> 1 / 2 ^ 22" using o(3) unfolding d_def v_def .
  have b: "\<bar>of_int mn :: rat\<bar> \<le> 2 ^ 30" "\<bar>of_int mx :: rat\<bar> \<le> 2 ^ 30" "(1::rat) \<le> of_int st" "(of_int st :: rat) \<le> 2 ^ 30"
    "\<bar>v\<bar> \<le> 2 ^ 30"
    using assms(1,3,4) of_int_le_pow [of mn 30] of_int_le_pow [of mx 30] of_int_le_pow [of st 30]
    by (auto simp: grid_def v_def abs_le_iff)
  have s0: "is_fin s0" "num_val s0 = of_int st" "js_less (Fin 0) s0"
    using assms(1,6) by (auto simp: whole_def js_less_fin grid_def)
  have r31: "\<bar>v - r\<bar> \<le> 2 ^ 31" using b q(3,4) unfolding abs_le_iff by simp
  have "\<bar>num_val val - num_val ?x\<bar> \<le> 2 ^ 53" using r31 unfolding v_def r_def by simp
  note a = js_sub_fin [OF assms(2) o(2) this, folded v_def r_def]
  have ae: "\<bar>num_val (js_sub val ?x) - of_int (mn + q * st)\<bar> \<le> 2 / 2 ^ 22"
    using rnd64_err31 [OF r31] e1 unfolding a(2) q(2) abs_le_iff by simp
  have two: "is_fin (js_abs ?x)" "num_val (js_abs ?x) = r" using o(2) q(3) by (simp_all add: r_def)
  have tb: "\<bar>num_val (js_abs ?x) * num_val (Fin 2)\<bar> \<le> 2 ^ 53" using two q(3,4) b(4) by simp
  note t = js_mul_fin [OF two(1) _ tb, unfolded two(2), simplified]
  have te: "\<bar>num_val (js_mul (js_abs ?x) (Fin 2)) - r * 2\<bar> \<le> 1 / 2 ^ 22"
    unfolding t(2) using q(3,4) b(4) by (intro rnd64_err31) simp
  have c: "js_le s0 (js_mul (js_abs ?x) (Fin 2)) \<longleftrightarrow> of_int st \<le> num_val (js_mul (js_abs ?x) (Fin 2))"
    using js_le_fin [OF s0(1) t(1)] s0(2) by simp
  show ?thesis
  proof (cases "of_int st \<le> num_val (js_mul (js_abs ?x) (Fin 2))")
    case True
    let ?k = "mn + (q + 1) * st"
    have rbig: "of_int st / 2 - 1 / 2 ^ 23 \<le> r" using True te unfolding abs_le_iff by simp
    then have r0: "0 < r" using b(3) by simp
    then have pos: "js_less (Fin 0) ?x" using o(2) by (simp add: js_less_fin r_def)
    have k: "mn \<le> ?k" "?k \<le> mx" "st dvd (?k - mn)"
      using q(1,6) r0 assms(1) by (auto simp: grid_def)
    have "\<bar>?k\<bar> \<le> 2 ^ 30" using k assms(1) by (auto simp: grid_def)
    then have "\<bar>of_int ?k :: rat\<bar> \<le> 2 ^ 30" by (rule of_int_le_pow)
    then have s31: "\<bar>num_val (js_sub val ?x) + num_val s0\<bar> \<le> 2 ^ 31"
      using ae unfolding s0 abs_le_iff by (simp add: algebra_simps)
    then have s53: "\<bar>num_val (js_sub val ?x) + num_val s0\<bar> \<le> 2 ^ 53" by simp
    note p = js_add_fin [OF a(1) s0(1) s53]
    have "\<bar>num_val (js_add (js_sub val ?x) s0) - of_int ?k\<bar> \<le> 3 / 2 ^ 22"
      using rnd64_err31 [OF s31] ae unfolding p(2) s0(2) abs_le_iff by (simp add: algebra_simps)
    then have near: "\<bar>num_val (js_add (js_sub val ?x) s0) - of_int ?k\<bar> * 10 ^ 5 < 1/2" by simp
    have k53: "\<bar>?k\<bar> \<le> 2 ^ 53" using k assms(1) by (auto simp: grid_def)
    have "align m s0 val = to_fixed_num 5 (js_add (js_sub val ?x) s0)"
      using True c pos s0(3) by (simp add: align_def Let_def)
    with to_fixed_num_near [OF p(1) near k53] have w: "whole (align m s0 val) ?k" by (simp add: whole_def)
    have "\<bar>of_int ?k - v\<bar> \<le> of_int st / 2 + 1 / 2 ^ 21"
      using rbig q(2,4) e1 b(3) unfolding abs_le_iff by (simp add: algebra_simps)
    with w k show ?thesis unfolding v_def by blast
  next
    case False
    let ?k = "mn + q * st"
    have rsmall: "r \<le> of_int st / 2 + 1 / 2 ^ 23" using False te unfolding abs_le_iff by simp
    have k: "mn \<le> ?k" "?k \<le> mx" "st dvd (?k - mn)"
      using q(1,5) assms(1) by (auto simp: grid_def)
    have near: "\<bar>num_val (js_sub val ?x) - of_int ?k\<bar> * 10 ^ 5 < 1/2" using ae by simp
    have k53: "\<bar>?k\<bar> \<le> 2 ^ 53" using k assms(1) by (auto simp: grid_def)
    have "align m s0 val = to_fixed_num 5 (js_sub val ?x)"
      using False c s0(3) by (simp add: align_def Let_def)
    with to_fixed_num_near [OF a(1) near k53] have w: "whole (align m s0 val) ?k" by (simp add: whole_def)
    have "\<bar>of_int ?k - v\<bar> \<le> of_int st / 2 + 1 / 2 ^ 21"
      using rsmall q(2,3) e1 b(3) unfolding abs_le_iff by (simp add: algebra_simps)
    with w k show ?thesis unfolding v_def by blast
  qed
qed

lemma js_le_inf_whole: "whole m n \<Longrightarrow> js_le (Infinity True) m" "whole m n \<Longrightarrow> \<not> js_le (Infinity False) m"
  "whole m n \<Longrightarrow> js_le m (Infinity False)"
  by (cases m; simp add: whole_def js_le_def)+

text \<open>Whatever number comes in, a value on the grid comes out.\<close>

lemma trimAlignValue_on_grid:
  assumes "gridded mn mx st s" and "val \<noteq> NaN"
  shows "on_grid mn mx st (trimAlignValue s val)"
proof -
  have g: "grid mn mx st" and w: "whole (o_min s) mn" "whole (s_max s) mx" "whole (o_step s) st"
    using assms(1) by (auto simp: gridded_def)
  have ends: "on_grid mn mx st (o_min s)" "on_grid mn mx st (s_max s)"
    using g w unfolding on_grid_def grid_def by auto
  have fin: "is_fin (o_min s)" "is_fin (s_max s)" using w by (auto simp: whole_def)
  show ?thesis
  proof (cases "is_fin val")
    case True
    have "on_grid mn mx st (align (o_min s) (o_step s) val)"
      if "\<not> js_le val (o_min s)" "\<not> js_le (s_max s) val"
      using align_whole [OF g True _ _ w(1,3)] that w
      by (auto simp: js_le_fin [OF True fin(1)] js_le_fin [OF fin(2) True] on_grid_def whole_def)
    with ends show ?thesis by (simp add: trimAlignValue_def valueMin_def valueMax_def)
  next
    case False
    with assms(2) obtain b where "val = Infinity b" by (cases val) auto
    with ends js_le_inf_whole [OF w(1)] js_le_inf_whole [OF w(2)] show ?thesis
      by (cases b) (simp_all add: trimAlignValue_def valueMin_def valueMax_def)
  qed
qed

text \<open>Values on the grid are fixed points.\<close>

lemma trimAlignValue_fixed:
  assumes "gridded mn mx st s" and "whole x k" and "mn \<le> k" and "k \<le> mx" and "st dvd (k - mn)"
  shows "whole (trimAlignValue s x) k"
proof -
  have g: "grid mn mx st" and w: "whole (o_min s) mn" "whole (s_max s) mx" "whole (o_step s) st"
    using assms(1) by (auto simp: gridded_def)
  have fin: "is_fin (o_min s)" "is_fin (s_max s)" "is_fin x" and val: "num_val x = of_int k"
    using w assms(2) by (auto simp: whole_def)
  have le: "js_le x (o_min s) \<longleftrightarrow> k \<le> mn" "js_le (s_max s) x \<longleftrightarrow> mx \<le> k"
    using w val by (simp_all add: js_le_fin fin whole_def)
  show ?thesis
  proof (cases "mn < k \<and> k < mx")
    case True
    then obtain k' where k': "whole (align (o_min s) (o_step s) x) k'" "st dvd (k' - mn)"
      "\<bar>of_int k' - num_val x\<bar> \<le> of_int st / 2 + 1 / 2 ^ 21"
      using align_whole [OF g fin(3) _ _ w(1,3)] val by auto
    have "(1::rat) \<le> of_int st" using g by (simp add: grid_def)
    then have "\<bar>of_int (k' - k) :: rat\<bar> < of_int st" using k'(3) val by simp
    then have "\<bar>k' - k\<bar> < st" by linarith
    moreover have "st dvd (k' - k)" using dvd_diff [OF k'(2) assms(5)] by simp
    ultimately have "k' = k" by (meson dvd_imp_le_int eq_iff_diff_eq_0 leD zdvd_not_zless zero_less_abs_iff abs_dvd_iff dvd_abs_iff le_less_trans abs_ge_self)
    with k'(1) True le show ?thesis by (simp add: trimAlignValue_def valueMin_def valueMax_def)
  next
    case False
    with assms(3,4) have "k = mn \<or> k = mx" by auto
    with w le g show ?thesis by (auto simp: trimAlignValue_def valueMin_def valueMax_def grid_def)
  qed
qed

text \<open>Arithmetic on small whole numbers is exact.\<close>

lemma whole_add: "whole x a \<Longrightarrow> whole y b \<Longrightarrow> \<bar>a + b\<bar> \<le> 2 ^ 53 \<Longrightarrow> whole (js_add x y) (a + b)"
  using js_add_fin [of x y] of_int_le_pow [of "a + b" 53] rnd64_int [of "a + b"] by (simp add: whole_def)

lemma whole_sub: "whole x a \<Longrightarrow> whole y b \<Longrightarrow> \<bar>a - b\<bar> \<le> 2 ^ 53 \<Longrightarrow> whole (js_sub x y) (a - b)"
  using js_sub_fin [of x y] of_int_le_pow [of "a - b" 53] rnd64_int [of "a - b"] by (simp add: whole_def)

lemma whole_mul: "whole x a \<Longrightarrow> whole y b \<Longrightarrow> \<bar>a * b\<bar> \<le> 2 ^ 53 \<Longrightarrow> whole (js_mul x y) (a * b)"
  using js_mul_fin [of x y] of_int_le_pow [of "a * b" 53] rnd64_int [of "a * b"] by (simp add: whole_def)

lemma whole_round: "is_fin x \<Longrightarrow> 0 \<le> num_val x \<Longrightarrow> whole (js_round x) \<lfloor>num_val x + 1/2\<rfloor>"
  using floor_half_near [of 0 0] by (cases x) (auto simp: whole_def Let_def)

lemma div_bounds:
  fixes d st :: int
  assumes "0 < st"
  shows "d div st * st \<le> d" "d < (d div st + 1) * st"
proof -
  have "d = d div st * st + d mod st" by simp
  with pos_mod_bound [OF assms, of d] pos_mod_sign [OF assms, of d]
  show "d div st * st \<le> d" "d < (d div st + 1) * st" unfolding distrib_right by linarith+
qed

lemma whole_to_fixed: "whole x a \<Longrightarrow> \<bar>a\<bar> \<le> 2 ^ 53 \<Longrightarrow> whole (to_fixed_num f x) a"
  using to_fixed_num_near [of x a f] by (simp add: whole_def)

lemma whole_less: "whole x a \<Longrightarrow> whole y b \<Longrightarrow> js_less x y \<longleftrightarrow> a < b"
  by (simp add: whole_def js_less_fin)

text \<open>A rounded quotient of whole numbers, rounded to a whole number, is the quotient or the next number.\<close>

lemma round_div_whole:
  assumes "whole x d" "whole y st" "0 \<le> d" "d \<le> 2 ^ 52" "0 < st"
  shows "\<exists>c. whole (js_round (js_div x y)) c \<and> (c = d div st \<or> c = d div st + 1)"
proof -
  let ?n = "d div st" let ?x = "of_int d / of_int st :: rat"
  have stp: "(0::rat) < of_int st" using assms(5) by simp
  have n: "0 \<le> ?n" "?n * st \<le> d" "d \<le> (?n + 1) * st"
    using assms(3,5) div_bounds [OF assms(5), of d] by (simp_all add: pos_imp_zdiv_nonneg_iff)
  have nd: "?n \<le> 2 ^ 52" using n(1,2) assms(4,5) mult_left_mono [of 1 st ?n] by simp
  have xlo: "of_int ?n \<le> ?x" and xhi: "?x \<le> of_int (?n + 1)"
  proof -
    have "(of_int (?n * st) :: rat) \<le> of_int d" using n(2) by (subst of_int_le_iff)
    then show "of_int ?n \<le> ?x" using stp by (simp add: pos_le_divide_eq)
    have "(of_int d :: rat) \<le> of_int ((?n + 1) * st)" using n(3) by (subst of_int_le_iff)
    then show "?x \<le> of_int (?n + 1)" using stp by (simp only: pos_divide_le_eq) simp
  qed
  have "(of_int (?n + 1) :: rat) \<le> of_int (2 ^ 53)" using nd by (subst of_int_le_iff) simp
  then have xb: "\<bar>num_val x / num_val y\<bar> \<le> 2 ^ 53"
    using xlo xhi n(1) assms(1,2) by (simp add: whole_def)
  note q = js_div_fin [of x y, OF _ _ _ xb]
  have q': "is_fin (js_div x y)" "num_val (js_div x y) = rnd64 ?x"
    using q assms(1,2) stp by (auto simp: whole_def)
  have lo: "of_int ?n \<le> rnd64 ?x" using xlo n(1) nd by (intro rnd64_ge_int) auto
  have hi: "rnd64 ?x \<le> of_int (?n + 1)" using xhi n(1) nd by (intro rnd64_le_int) auto
  have "0 \<le> num_val (js_div x y)" unfolding q'(2) using order_trans [OF _ lo, of 0] n(1) by simp
  from whole_round [OF q'(1) this] have "whole (js_round (js_div x y)) \<lfloor>rnd64 ?x + 1/2\<rfloor>" by (simp add: q'(2))
  moreover have "\<lfloor>rnd64 ?x + 1/2\<rfloor> = ?n \<or> \<lfloor>rnd64 ?x + 1/2\<rfloor> = ?n + 1"
    using lo hi by (simp add: floor_eq_iff) linarith
  ultimately show ?thesis by blast
qed

text \<open>The effective maximum is the last point of the grid.\<close>

lemma calculateNewMax_whole:
  assumes "o_min s = jint mn" "o_max s = jint mx" "o_step s = jint st" "0 < st" "st \<le> 2 ^ 30" "\<bar>mn\<bar> \<le> 2 ^ 30" "\<bar>mx\<bar> \<le> 2 ^ 30"
    and "mn \<le> mx"
  shows "gridded mn (mn + (mx - mn) div st * st) st (calculateNewMax s)"
proof -
  let ?d = "mx - mn" let ?n = "?d div st"
  have d: "0 \<le> ?d" "?d \<le> 2 ^ 31" using assms(6-8) by auto
  have n: "0 \<le> ?n * st" "?n * st \<le> ?d" "?d < (?n + 1) * st"
    using assms(4) d(1) div_bounds [OF assms(4), of ?d] by (simp_all add: pos_imp_zdiv_nonneg_iff)
  have w: "whole (o_min s) mn" "whole (o_max s) mx" "whole (o_step s) st" using assms(1-3) by simp_all
  have "whole (js_sub (o_max s) (o_min s)) ?d" using d by (intro whole_sub w) auto
  from round_div_whole [OF this w(3)] obtain c where
    c: "whole (js_round (js_div (js_sub (o_max s) (o_min s)) (o_step s))) c" "c = ?n \<or> c = ?n + 1"
    using d assms(4) by auto
  have cst: "\<bar>c * st\<bar> \<le> 2 ^ 32" "\<bar>c * st + mn\<bar> \<le> 2 ^ 33" using c(2) n assms(4-6) d by (auto simp: algebra_simps)
  have a: "whole (js_mul (js_round (js_div (js_sub (o_max s) (o_min s)) (o_step s))) (o_step s)) (c * st)"
    using cst by (intro whole_mul c(1) w) simp
  let ?m = "js_add (js_mul (js_round (js_div (js_sub (o_max s) (o_min s)) (o_step s))) (o_step s)) (o_min s)"
  have m: "whole ?m (c * st + mn)" using cst by (intro whole_add a w) simp
  have above: "js_less (o_max s) ?m \<longleftrightarrow> c = ?n + 1"
    using whole_less [OF w(2) m] c(2) n by auto
  have m': "whole (js_sub ?m (o_step s)) (c * st + mn - st)" using cst assms(4,5) by (intro whole_sub m w) simp
  have e: "whole (if js_less (o_max s) ?m then js_sub ?m (o_step s) else ?m) (mn + ?n * st)"
    using m m' above c(2) by (auto simp: algebra_simps)
  have small: "\<bar>mn + ?n * st\<bar> \<le> 2 ^ 30" using n assms(6-8) by auto
  have "whole (s_max (calculateNewMax s)) (mn + ?n * st)"
    using whole_to_fixed [OF e] small by (simp add: calculateNewMax_def Let_def valueMin_def)
  moreover have "grid mn (mn + ?n * st) st" using small n(1) assms(4-6) by (simp add: grid_def)
  ultimately show ?thesis using w by (simp add: gridded_def calculateNewMax_def Let_def)
qed

subsection \<open>The invariant\<close>

definition fin_le :: "nat \<Rightarrow> jsnum \<Rightarrow> bool" where
  "fin_le k x \<longleftrightarrow> is_fin x \<and> \<bar>num_val x\<bar> \<le> 2 ^ k"

lemma rnd64_abs_pow: "\<bar>x\<bar> \<le> 2 ^ k \<Longrightarrow> k \<le> 53 \<Longrightarrow> \<bar>rnd64 x\<bar> \<le> 2 ^ k"
  using rnd64_le_int [of x "2 ^ k"] rnd64_ge_int [of "- (2 ^ k)" x] power_increasing [of k 53 "2::int"]
  by (simp add: abs_le_iff)

lemma fin_le_sub: "fin_le k x \<Longrightarrow> fin_le k y \<Longrightarrow> k < 53 \<Longrightarrow> fin_le (Suc k) (js_sub x y)"
  using js_sub_fin [of x y] rnd64_abs_pow [of "num_val x - num_val y" "Suc k"] power_increasing [of "Suc k" 53 "2::rat"]
  by (simp add: fin_le_def abs_le_iff)

lemma fin_le_add: "fin_le k x \<Longrightarrow> fin_le k y \<Longrightarrow> k < 53 \<Longrightarrow> fin_le (Suc k) (js_add x y)"
  using js_add_fin [of x y] rnd64_abs_pow [of "num_val x + num_val y" "Suc k"] power_increasing [of "Suc k" 53 "2::rat"]
  by (simp add: fin_le_def abs_le_iff)

lemma fin_le_half: "fin_le k x \<Longrightarrow> k \<le> 53 \<Longrightarrow> fin_le k (js_div x (Fin 2))"
proof -
  assume x: "fin_le k x" and k: "k \<le> 53"
  have "(2::rat) ^ k \<le> 2 ^ 53" using k by (intro power_increasing) auto
  moreover have "\<bar>num_val x / 2\<bar> \<le> 2 ^ k" using x zero_le_power [of "2::rat" k] unfolding fin_le_def abs_le_iff by simp
  ultimately show ?thesis
    using js_div_fin [of x "Fin 2"] rnd64_abs_pow [of "num_val x / 2" k] x k by (simp add: fin_le_def)
qed

lemma fin_le_mono: "fin_le k x \<Longrightarrow> k \<le> j \<Longrightarrow> fin_le j x"
  unfolding fin_le_def by (meson one_le_numeral order_trans power_increasing)

lemma fin_le_not_NaN: "fin_le k x \<Longrightarrow> x \<noteq> NaN"
  by (auto simp: fin_le_def)

lemma fin_le_0 [simp]: "fin_le k (Fin 0)"
  by (simp add: fin_le_def)

text \<open>Coordinates of a page are finite and below 2 to the power 30; an element that is clicked has a size.\<close>

definition sane_event :: "mouse_event \<Rightarrow> bool" where
  "sane_event ev \<longleftrightarrow> fin_le 30 (ev_pageX ev) \<and> fin_le 30 (ev_pageY ev)"

definition sane_pair :: "jsnum \<times> jsnum \<Rightarrow> bool" where
  "sane_pair p \<longleftrightarrow> fin_le 30 (fst p) \<and> fin_le 30 (snd p)"

definition sane_size :: "jsnum \<times> jsnum \<Rightarrow> bool" where
  "sane_size p \<longleftrightarrow> sane_pair p \<and> 0 < num_val (fst p) \<and> 0 < num_val (snd p)"

definition sane_geometry :: "geometry \<Rightarrow> bool" where
  "sane_geometry g \<longleftrightarrow> sane_size (g_size g) \<and> sane_pair (g_offset g) \<and>
     (\<forall>i. sane_pair (g_handle_offset g i) \<and> sane_pair (g_handle_size g i) \<and>
       (case g_handle_border g i of (a, b, c) \<Rightarrow> fin_le 30 a \<and> fin_le 30 b \<and> fin_le 30 c))"

definition value_count :: "slider \<Rightarrow> nat" where
  "value_count s = (case o_values s of Some vs \<Rightarrow> if vs \<noteq> [] then length vs else 1 | None \<Rightarrow> 1)"

definition slider_inv :: "int \<Rightarrow> int \<Rightarrow> int \<Rightarrow> slider \<Rightarrow> bool" where
  "slider_inv mn mx st s \<longleftrightarrow> gridded mn mx st s \<and> o_value s \<noteq> NaN \<and>
     (case o_values s of None \<Rightarrow> True | Some vs \<Rightarrow> NaN \<notin> set vs) \<and> length (handles s) = value_count s \<and>
     (\<forall>i. handleIndex s = Some i \<longrightarrow> i < value_count s) \<and> sane_size (elementSize s) \<and> sane_pair (elementOffset s) \<and>
     (case clickOffset s of None \<Rightarrow> True | Some c \<Rightarrow> fin_le 35 (fst c) \<and> fin_le 35 (snd c))"

lemma on_grid_not_NaN: "on_grid mn mx st x \<Longrightarrow> x \<noteq> NaN"
  by (auto simp: on_grid_def whole_def)

lemma get_value_on_grid: "slider_inv mn mx st s \<Longrightarrow> on_grid mn mx st (get_value s)"
  by (auto simp: get_value_def slider_inv_def intro: trimAlignValue_on_grid)

lemma get_value_at_on_grid:
  assumes "slider_inv mn mx st s" and "i < value_count s"
  shows "on_grid mn mx st (get_value_at s i)"
proof (cases "hasMultipleValues s")
  case True
  then obtain vs where "o_values s = Some vs" "vs \<noteq> []" by (auto simp: hasMultipleValues_def split: option.splits)
  with assms show ?thesis
    by (auto simp: get_value_at_def nth_num_def value_count_def slider_inv_def intro!: trimAlignValue_on_grid)
      (metis nth_mem)
next
  case False
  with assms(1) show ?thesis
    by (auto simp: get_value_at_def hasMultipleValues_def get_value_on_grid split: option.splits)
qed

lemma length_show_handles: "length (fst (show_handles s i p hs r)) = length hs"
  by (induction hs arbitrary: i p r) (auto simp: Let_def split: prod.splits, metis fst_conv)

lemma refreshValue_fields [simp]:
  "o_min (refreshValue s) = o_min s" "s_max (refreshValue s) = s_max s" "o_step (refreshValue s) = o_step s"
  "o_value (refreshValue s) = o_value s" "o_values (refreshValue s) = o_values s"
  "handleIndex (refreshValue s) = handleIndex s" "clickOffset (refreshValue s) = clickOffset s"
  "elementSize (refreshValue s) = elementSize s" "elementOffset (refreshValue s) = elementOffset s"
  "keySliding (refreshValue s) = keySliding s" "mouseSliding (refreshValue s) = mouseSliding s"
  "length (handles (refreshValue s)) = length (handles s)"
  using length_show_handles [of s 0 NaN "handles s" "s_range s"]
  by (auto simp: refreshValue_def Let_def split: prod.splits list.splits)

lemma gridded_cong: "o_min s = o_min t \<Longrightarrow> s_max s = s_max t \<Longrightarrow> o_step s = o_step t \<Longrightarrow> gridded mn mx st s = gridded mn mx st t"
  by (simp add: gridded_def)

lemma inv_refreshValue: "slider_inv mn mx st (refreshValue s) = slider_inv mn mx st s"
  by (simp add: slider_inv_def value_count_def gridded_cong [of "refreshValue s" s])

lemma trim_not_NaN: "slider_inv mn mx st s \<Longrightarrow> v \<noteq> NaN \<Longrightarrow> trimAlignValue s v \<noteq> NaN"
  by (metis slider_inv_def on_grid_not_NaN trimAlignValue_on_grid)

lemma inv_set_value:
  assumes "slider_inv mn mx st s" and "v \<noteq> NaN"
  shows "slider_inv mn mx st (s\<lparr>o_value := trimAlignValue s v\<rparr>)"
proof -
  have "trimAlignValue s v \<noteq> NaN" using assms by (rule trim_not_NaN)
  with assms(1) show ?thesis
    by (simp add: slider_inv_def value_count_def gridded_def)
qed

lemma set_set_nth: "i < length vs \<Longrightarrow> set (set_nth vs i v) \<subseteq> insert v (set vs)" "i < length vs \<Longrightarrow> length (set_nth vs i v) = length vs"
  by (auto simp: set_nth_def dest: set_update_subset_insert [THEN subsetD])

lemma inv_set_value_at:
  assumes "slider_inv mn mx st s" and "v \<noteq> NaN" and "o_values s = Some vs" and "i < length vs"
  shows "slider_inv mn mx st (s\<lparr>o_values := Some (set_nth vs i (trimAlignValue s v))\<rparr>)"
proof -
  have t: "trimAlignValue s v \<noteq> NaN" using assms(1,2) by (rule trim_not_NaN)
  note n = set_set_nth [OF assms(4), of "trimAlignValue s v"]
  have ne: "set_nth vs i (trimAlignValue s v) \<noteq> []" using n(2) assms(4) by auto
  have "NaN \<notin> set (set_nth vs i (trimAlignValue s v))"
    using assms(1,3) n(1) t by (auto simp: slider_inv_def)
  moreover have "vs \<noteq> []" using assms(4) by auto
  ultimately show ?thesis
    using assms(1,3) n(2) ne by (simp add: slider_inv_def value_count_def gridded_def)
qed

lemma inv_fields:
  "slider_inv mn mx st s \<Longrightarrow> slider_inv mn mx st (s\<lparr>lastChangedValue := x\<rparr>)"
  "slider_inv mn mx st s \<Longrightarrow> slider_inv mn mx st (s\<lparr>mouseSliding := b\<rparr>)"
  "slider_inv mn mx st s \<Longrightarrow> slider_inv mn mx st (s\<lparr>keySliding := b\<rparr>)"
  "slider_inv mn mx st s \<Longrightarrow> slider_inv mn mx st (s\<lparr>handleIndex := None, clickOffset := None\<rparr>)"
  by (simp_all add: slider_inv_def value_count_def gridded_def)

text \<open>The operations keep the invariant, whatever the callback does.\<close>

abbreviation (input) keeps_inv :: "int \<Rightarrow> int \<Rightarrow> int \<Rightarrow> ('w, 'a) slx \<Rightarrow> bool" where
  "keeps_inv mn mx st m \<equiv> sx_keeps (\<lambda>st'. slider_inv mn mx st (fst st')) m"

lemma trigger_keeps: "keeps_inv mn mx st (trigger cb k h)"
  by (auto simp: sx_keeps_def trigger_def split: prod.splits)

lemma on_slider_keeps: "(\<And>s. slider_inv mn mx st s \<Longrightarrow> slider_inv mn mx st (f s)) \<Longrightarrow> keeps_inv mn mx st (on_slider f)"
  by (auto simp: sx_keeps_def on_slider_def)

lemma with_slider_keeps: "(\<And>s. slider_inv mn mx st s \<Longrightarrow> keeps_inv mn mx st (f s)) \<Longrightarrow> keeps_inv mn mx st (with_slider f)"
  by (auto simp: sx_keeps_def with_slider_def sx_let_def)

lemmas slider_intros = trigger_keeps on_slider_keeps with_slider_keeps inv_fields

lemma start_keeps_inv: "keeps_inv mn mx st (start cb i)"
  and stop_keeps_inv: "keeps_inv mn mx st (stop cb i)"
  and change_keeps_inv: "keeps_inv mn mx st (change cb i)"
  unfolding start_def stop_def change_def by (intro sx_intros slider_intros)+

lemma set_value_keeps: "v \<noteq> NaN \<Longrightarrow> keeps_inv mn mx st (set_value cb v)"
  unfolding set_value_def
  by (intro sx_intros slider_intros change_keeps_inv) (simp add: inv_refreshValue inv_set_value)

text \<open>A computation that depends on the state it starts in.\<close>

lemma with_slider_at:
  "with_slider f (s, w) = f s (s, w)"
  by (simp add: with_slider_def sx_let_def)

lemma set_value_at_effect:
  assumes "slider_inv mn mx st s" "v \<noteq> NaN" "o_values s = Some vs" "i < length vs"
  shows "slider_inv mn mx st (fst (snd (set_value_at cb i v (s, w))))"
proof -
  let ?s = "refreshValue (s\<lparr>o_values := Some (set_nth vs i (trimAlignValue s v))\<rparr>)"
  have "slider_inv mn mx st ?s" using inv_set_value_at [OF assms] by (simp add: inv_refreshValue)
  then show ?thesis
    using sx_keepsD [OF change_keeps_inv, of mn mx st "(?s, w)" cb "Some i"] assms(3)
    by (simp add: set_value_at_def with_slider_at on_slider_def)
qed

lemma js_min_max_not_NaN: "x \<noteq> NaN \<Longrightarrow> y \<noteq> NaN \<Longrightarrow> js_min x y \<noteq> NaN \<and> js_max x y \<noteq> NaN"
  by (simp add: js_min_def js_max_def)

lemma trigger_run: "\<exists>r w'. trigger cb k h (s, w) = (r, (s, w'))"
  by (simp add: trigger_def split: prod.splits)

lemma if_neqI: "a \<noteq> z \<Longrightarrow> b \<noteq> z \<Longrightarrow> (if p then a else b) \<noteq> z"
  by simp

lemma slide_target_not_NaN:
  assumes "slider_inv mn mx st s" "v \<noteq> NaN"
  shows "slide_target s index v \<noteq> NaN"
proof (cases "map_option length (o_values s) = Some 2")
  case True
  then have "value_count s = 2" by (auto simp: value_count_def)
  then have "on_grid mn mx st (get_value_at s (case index of Some (Suc i) \<Rightarrow> 0 | _ \<Rightarrow> 1))"
    by (intro get_value_at_on_grid [OF assms(1)]) (auto split: option.splits nat.splits)
  from js_min_max_not_NaN [OF on_grid_not_NaN [OF this] assms(2)] assms(2) show ?thesis
    unfolding slide_target_def Let_def by (intro if_neqI) auto
qed (auto simp: slide_target_def assms(2) Let_def)

lemma slide_effect:
  assumes "slider_inv mn mx st s" "v \<noteq> NaN" "pred_option (\<lambda>i. i < value_count s) index"
  shows "slider_inv mn mx st (fst (snd (slide cb index v (s, w))))"
proof -
  define nv where "nv = slide_target s index v"
  have nv: "nv \<noteq> NaN" unfolding nv_def using assms(1,2) by (rule slide_target_not_NaN)
  obtain h where run: "slide cb index v (s, w) =
    (if js_eq nv (slide_current s index) then sx_return ()
     else sx_bind (trigger cb TSlide h) (\<lambda>allowed.
          if \<not> allowed then sx_return ()
          else if hasMultipleValues s then (case index of Some i \<Rightarrow> set_value_at cb i nv | None \<Rightarrow> sx_return ())
          else set_value cb nv)) (s, w)"
    unfolding slide_def with_slider_at Let_def nv_def by blast
  obtain r w' where t: "trigger cb TSlide h (s, w) = (r, (s, w'))" using trigger_run [of cb TSlide h s w] by auto
  have multi: "slider_inv mn mx st (fst (snd (set_value_at cb i nv (s, w'))))"
    if "hasMultipleValues s" "index = Some i" for i
  proof -
    from that(1) obtain vs where "o_values s = Some vs" "vs \<noteq> []" by (auto simp: hasMultipleValues_def split: option.splits)
    with that assms(3) show ?thesis by (intro set_value_at_effect [OF assms(1) nv]) (auto simp: value_count_def)
  qed
  have single: "slider_inv mn mx st (fst (snd (set_value cb nv (s, w'))))"
    using sx_keepsD [OF set_value_keeps [OF nv]] assms(1) by (metis fst_conv)
  show ?thesis
    unfolding run using t multi single assms(1)
    by (cases r; cases index) simp_all
qed

lemma js_div_not_NaN: "is_fin x \<Longrightarrow> is_fin y \<Longrightarrow> num_val y \<noteq> 0 \<Longrightarrow> js_div x y \<noteq> NaN"
  by (cases x; cases y) (auto simp: to_num_def Let_def)

text \<open>A number that is cut to the interval from 0 to 1.\<close>

lemma clip01:
  assumes "p \<noteq> NaN"
  defines "q \<equiv> (if js_less (Fin 1) p then Fin 1 else p)"
  defines "r \<equiv> (if js_less q (Fin 0) then Fin 0 else q)"
  shows "is_fin r \<and> 0 \<le> num_val r \<and> num_val r \<le> 1"
  using assms(1) unfolding r_def q_def by (cases p) auto

lemma complement01:
  assumes "is_fin r" "0 \<le> num_val r" "num_val r \<le> 1"
  shows "is_fin (js_sub (Fin 1) r) \<and> 0 \<le> num_val (js_sub (Fin 1) r) \<and> num_val (js_sub (Fin 1) r) \<le> 1"
proof -
  have "\<bar>num_val (Fin 1) - num_val r\<bar> \<le> 2 ^ 53" using assms by simp
  from js_sub_fin [OF _ assms(1) this] show ?thesis
    using rnd64_ge_int [of 0 "1 - num_val r"] rnd64_le_int [of "1 - num_val r" 1] assms by simp
qed

lemma normValueFromMouse_on_grid:
  assumes "slider_inv mn mx st s" "fin_le 30 (fst pos)" "fin_le 30 (snd pos)"
  shows "on_grid mn mx st (normValueFromMouse s pos)"
proof -
  have g: "gridded mn mx st s" and sz: "sane_size (elementSize s)" and off: "sane_pair (elementOffset s)"
    using assms(1) by (auto simp: slider_inv_def)
  define total pixel where "total = (case s_orientation s of Horizontal \<Rightarrow> fst (elementSize s) | Vertical \<Rightarrow> snd (elementSize s))"
    and "pixel = (case s_orientation s of
      Horizontal \<Rightarrow> js_sub (js_sub (fst pos) (fst (elementOffset s))) (case clickOffset s of Some c \<Rightarrow> fst c | None \<Rightarrow> Fin 0)
    | Vertical \<Rightarrow> js_sub (js_sub (snd pos) (snd (elementOffset s))) (case clickOffset s of Some c \<Rightarrow> snd c | None \<Rightarrow> Fin 0))"
  have tot: "is_fin total" "num_val total \<noteq> 0"
    using sz by (auto simp: total_def sane_size_def sane_pair_def fin_le_def split: orientation.splits)
  have click: "fin_le 35 (case clickOffset s of Some c \<Rightarrow> fst c | None \<Rightarrow> Fin 0)"
    "fin_le 35 (case clickOffset s of Some c \<Rightarrow> snd c | None \<Rightarrow> Fin 0)"
    using assms(1) by (auto simp: slider_inv_def split: option.splits)
  have "fin_le 31 (js_sub (fst pos) (fst (elementOffset s)))" "fin_le 31 (js_sub (snd pos) (snd (elementOffset s)))"
    using fin_le_sub [of 30] assms(2,3) off by (auto simp: sane_pair_def)
  then have "fin_le 35 (js_sub (fst pos) (fst (elementOffset s)))" "fin_le 35 (js_sub (snd pos) (snd (elementOffset s)))"
    by (auto elim: fin_le_mono)
  with click have "fin_le 36 pixel"
    using fin_le_sub [of 35] by (auto simp: pixel_def split: orientation.splits)
  then have pix: "is_fin pixel" by (simp add: fin_le_def)
  define p where "p = js_div pixel total"
  define p1 where "p1 = (if js_less (Fin 1) p then Fin 1 else p)"
  define p2 where "p2 = (if js_less p1 (Fin 0) then Fin 0 else p1)"
  define p3 where "p3 = (if s_orientation s = Vertical then js_sub (Fin 1) p2 else p2)"
  have c2: "is_fin p2 \<and> 0 \<le> num_val p2 \<and> num_val p2 \<le> 1"
    unfolding p2_def p1_def by (rule clip01) (simp add: p_def js_div_not_NaN pix tot)
  then have c3: "is_fin p3" "0 \<le> num_val p3" "num_val p3 \<le> 1"
    using complement01 [of p2] by (auto simp: p3_def)
  have gr: "grid mn mx st" "whole (o_min s) mn" "whole (s_max s) mx" using g by (auto simp: gridded_def)
  have t: "whole (js_sub (valueMax s) (valueMin s)) (mx - mn)"
    using gr by (auto simp: valueMax_def valueMin_def grid_def intro!: whole_sub)
  let ?t = "js_sub (valueMax s) (valueMin s)"
  have tv: "0 \<le> num_val ?t" "num_val ?t \<le> 2 ^ 31"
  proof -
    have "0 \<le> mx - mn" "mx - mn \<le> 2 ^ 31" using gr(1) by (auto simp: grid_def)
    then have "(0::rat) \<le> of_int (mx - mn)" "(of_int (mx - mn) :: rat) \<le> of_int (2 ^ 31)" by (simp, subst of_int_le_iff)
    with t show "0 \<le> num_val ?t" "num_val ?t \<le> 2 ^ 31" by (auto simp: whole_def)
  qed
  have "\<bar>num_val p3 * num_val ?t\<bar> \<le> 2 ^ 31"
    using mult_mono [of "num_val p3" 1 "num_val ?t" "2 ^ 31"] c3 tv by (simp add: abs_mult)
  then have "fin_le 31 (js_mul p3 ?t)"
    using js_mul_fin [of p3 ?t] c3(1) t rnd64_abs_pow [of "num_val p3 * num_val ?t" 31] by (simp add: fin_le_def whole_def)
  moreover have "fin_le 31 (valueMin s)"
    using gr of_int_le_pow [of mn 31] by (auto simp: valueMin_def fin_le_def whole_def grid_def)
  ultimately have "fin_le 32 (js_add (valueMin s) (js_mul p3 ?t))" using fin_le_add [of 31] by simp
  then have "on_grid mn mx st (trimAlignValue s (js_add (valueMin s) (js_mul p3 ?t)))"
    by (intro trimAlignValue_on_grid g fin_le_not_NaN)
  moreover have "normValueFromMouse s pos = trimAlignValue s (js_add (valueMin s) (js_mul p3 ?t))"
    unfolding normValueFromMouse_def Let_def p3_def p2_def p1_def p_def total_def pixel_def
    by (cases "s_orientation s") simp_all
  ultimately show ?thesis by simp
qed

lemma closest_index: "closest s v n i d idx = Some j \<Longrightarrow> idx = Some j \<or> i \<le> j \<and> j < i + n"
proof (induction n arbitrary: i d idx)
  case (Suc n)
  from Suc.prems consider "closest s v n (i + 1) (js_abs (js_sub v (get_value_at s i))) (Some i) = Some j"
    | "closest s v n (i + 1) d idx = Some j"
    by (auto simp: Let_def split: if_splits)
  then show ?case by cases (auto dest: Suc.IH)
qed simp

lemma click_offset_fin:
  assumes "sane_geometry g" "sane_event ev"
  shows "fin_le 35 (fst (click_offset g ev i))" "fin_le 35 (snd (click_offset g ev i))"
proof -
  obtain left top width height bt bb mt where
    v: "g_handle_offset g i = (left, top)" "g_handle_size g i = (width, height)" "g_handle_border g i = (bt, bb, mt)"
    by (metis prod.exhaust)
  have f: "fin_le 30 left" "fin_le 30 top" "fin_le 30 width" "fin_le 30 height" "fin_le 30 bt" "fin_le 30 bb" "fin_le 30 mt"
    "fin_le 30 (ev_pageX ev)" "fin_le 30 (ev_pageY ev)"
    using assms v unfolding sane_geometry_def sane_event_def sane_pair_def by (metis fst_conv snd_conv case_prod_conv)+
  have h: "fin_le 30 (js_div width (Fin 2))" "fin_le 30 (js_div height (Fin 2))" using fin_le_half f by auto
  have m: "fin_le 30 x \<Longrightarrow> fin_le 31 x" "fin_le 30 x \<Longrightarrow> fin_le 32 x" "fin_le 30 x \<Longrightarrow> fin_le 33 x" "fin_le 30 x \<Longrightarrow> fin_le 34 x"
    "fin_le 32 x \<Longrightarrow> fin_le 35 x" for x
    by (auto elim: fin_le_mono)
  have "fin_le 32 (js_sub (js_sub (ev_pageX ev) left) (js_div width (Fin 2)))"
    using fin_le_sub [of 30 "ev_pageX ev" left] fin_le_sub [of 31 _ "js_div width (Fin 2)"] f h m(1) by simp
  then show "fin_le 35 (fst (click_offset g ev i))" by (simp add: click_offset_def v m(5))
  have "fin_le 31 (js_sub (ev_pageY ev) top)" using fin_le_sub [of 30] f by simp
  then have "fin_le 32 (js_sub (js_sub (ev_pageY ev) top) (js_div height (Fin 2)))"
    using fin_le_sub [of 31] h m(1) by simp
  then have "fin_le 33 (js_sub (js_sub (js_sub (ev_pageY ev) top) (js_div height (Fin 2))) bt)"
    using fin_le_sub [of 32] f m(2) by simp
  then have "fin_le 34 (js_sub (js_sub (js_sub (js_sub (ev_pageY ev) top) (js_div height (Fin 2))) bt) bb)"
    using fin_le_sub [of 33] f m(3) by simp
  then have "fin_le 35 (js_add (js_sub (js_sub (js_sub (js_sub (ev_pageY ev) top) (js_div height (Fin 2))) bt) bb) mt)"
    using fin_le_add [of 34] f m(4) by simp
  then show "fin_le 35 (snd (click_offset g ev i))" by (simp add: click_offset_def v)
qed

lemma mouseCapture_keeps:
  fixes cb :: "'w callback"
  assumes "sane_geometry g" "sane_event ev"
  shows "keeps_inv mn mx st (mouseCapture cb g ev)"
  unfolding sx_keeps_def
proof (intro allI impI)
  fix st' :: "slider \<times> 'w" assume i: "slider_inv mn mx st (fst st')"
  obtain s w where st': "st' = (s, w)" by fastforce
  define s1 where "s1 = s\<lparr>elementSize := g_size g, elementOffset := g_offset g\<rparr>"
  define nv where "nv = normValueFromMouse s1 (ev_pageX ev, ev_pageY ev)"
  define index where "index = closest s1 nv (length (handles s)) 0 (js_add (js_sub (valueMax s) (valueMin s)) (Fin 1)) None"
  have i1: "slider_inv mn mx st s1"
    using i assms(1) by (simp add: st' s1_def slider_inv_def value_count_def gridded_def sane_geometry_def)
  have "on_grid mn mx st nv"
    unfolding nv_def using assms(2) by (intro normValueFromMouse_on_grid i1) (auto simp: sane_event_def)
  then have nv: "nv \<noteq> NaN" by (rule on_grid_not_NaN)
  have vc: "value_count s1 = value_count s" by (simp add: s1_def value_count_def)
  have idx: "pred_option (\<lambda>i. i < value_count s1) index"
    using closest_index [of s1 nv "length (handles s)" 0 _ None] i unfolding index_def
    by (auto simp: slider_inv_def st' vc pred_option_def set_eq_iff split: option.splits)
  show "slider_inv mn mx st (fst (snd (mouseCapture cb g ev st')))"
  proof (cases "o_disabled s")
    case True
    with i show ?thesis by (simp add: st' mouseCapture_def with_slider_at)
  next
    case False
    obtain r w1 where r: "start cb index (s1, w) = (r, (s1, w1))"
      using trigger_run [of cb TStart "uiHash s1 index None None" s1 w] by (auto simp: start_def with_slider_at)
    define s2 where "s2 = s1\<lparr>mouseSliding := True, handleIndex := index\<rparr>"
    have i2: "slider_inv mn mx st s2"
      using i1 idx by (auto simp: s2_def slider_inv_def value_count_def gridded_def)
    have i3: "slider_inv mn mx st (s2\<lparr>clickOffset := Some (click_offset g ev j)\<rparr>)" for j
      using i2 click_offset_fin [OF assms] by (simp add: slider_inv_def value_count_def gridded_def)
    have i4: "slider_inv mn mx st (fst (snd (slide cb index nv (s2\<lparr>clickOffset := Some (click_offset g ev j)\<rparr>, w1))))" for j
      using idx by (intro slide_effect i3 nv) (simp add: s2_def value_count_def)
    have run: "mouseCapture cb g ev st' =
      (case r of
         Inl e \<Rightarrow> (Inl e, (s1, w1))
       | Inr allowed \<Rightarrow>
         if \<not> allowed then (Inr False, (s1, w1))
         else case index of
           None \<Rightarrow> (Inl TypeError, (s2, w1))
         | Some j \<Rightarrow> sx_seq (sx_when (\<not> g_hover g) (slide cb index nv)) (sx_return True)
             (s2\<lparr>clickOffset := Some (click_offset g ev j)\<rparr>, w1))"
      using False r
      by (cases r; cases index)
        (simp_all add: st' mouseCapture_def with_slider_at Let_def s1_def [symmetric] nv_def [symmetric]
          index_def [symmetric] on_slider_def s2_def)
    show ?thesis
      unfolding run using i1 i2 i3 i4
      by (cases r; cases index; cases "g_hover g") simp_all
  qed
qed

lemma mouseDrag_keeps:
  fixes cb :: "'w callback"
  assumes "sane_event ev"
  shows "keeps_inv mn mx st (mouseDrag cb ev)"
  unfolding sx_keeps_def
proof (intro allI impI)
  fix st' :: "slider \<times> 'w" assume i: "slider_inv mn mx st (fst st')"
  obtain s w where st': "st' = (s, w)" by fastforce
  have "on_grid mn mx st (normValueFromMouse s (ev_pageX ev, ev_pageY ev))"
    using i assms by (intro normValueFromMouse_on_grid) (auto simp: st' sane_event_def)
  then show "slider_inv mn mx st (fst (snd (mouseDrag cb ev st')))"
    unfolding st' mouseDrag_def with_slider_at
    using i by (intro slide_effect on_grid_not_NaN) (auto simp: st' slider_inv_def pred_option_def split: option.splits)
qed

lemma mouseStop_keeps: "keeps_inv mn mx st (mouseStop cb)"
  unfolding mouseStop_def by (intro sx_intros slider_intros stop_keeps_inv change_keeps_inv)

text \<open>The slider as a client of the mouse interaction.\<close>

lemma sx_keeps_imp: "(P \<Longrightarrow> sx_keeps I m) \<Longrightarrow> sx_keeps (\<lambda>s. P \<longrightarrow> I s) m"
  by (auto simp: sx_keeps_def)

interpretation slider_mouse: mouse_client "slider_methods cb g" sane_event
  "\<lambda>st'. sane_geometry g \<longrightarrow> slider_inv mn mx st (fst st')" for cb :: "'w callback" and g mn mx st
  by unfold_locales
    (auto simp: slider_methods_def
      intro!: sx_keeps_imp mouseCapture_keeps mouseDrag_keeps mouseStop_keeps sx_keeps_return)

definition whole_options :: "int \<Rightarrow> int \<Rightarrow> int \<Rightarrow> slider \<Rightarrow> bool" where
  "whole_options mn mx st s \<longleftrightarrow> o_min s = jint mn \<and> o_max s = jint mx \<and> o_step s = jint st \<and> 0 < st \<and> st \<le> 2 ^ 30 \<and>
     \<bar>mn\<bar> \<le> 2 ^ 30 \<and> \<bar>mx\<bar> \<le> 2 ^ 30 \<and> mn \<le> mx \<and> o_value s \<noteq> NaN \<and>
     (case o_values s of None \<Rightarrow> True | Some vs \<Rightarrow> NaN \<notin> set vs) \<and>
     sane_size (elementSize s) \<and> sane_pair (elementOffset s) \<and> clickOffset s = None"

lemma createRange_fields:
  "o_min (createRange s) = o_min s" "s_max (createRange s) = s_max s" "o_step (createRange s) = o_step s"
  "o_value (createRange s) = o_value s" "handleIndex (createRange s) = handleIndex s"
  "elementSize (createRange s) = elementSize s" "elementOffset (createRange s) = elementOffset s"
  "clickOffset (createRange s) = clickOffset s"
  by (auto simp: createRange_def Let_def split: option.splits)

lemma createRange_values:
  assumes "o_min s \<noteq> NaN" "case o_values s of None \<Rightarrow> True | Some vs \<Rightarrow> NaN \<notin> set vs"
  shows "case o_values (createRange s) of None \<Rightarrow> True | Some vs \<Rightarrow> NaN \<notin> set vs"
proof -
  have "hd vs \<noteq> NaN" if "o_values s = Some vs" "vs \<noteq> []" for vs using assms(2) that by (cases vs) auto
  with assms show ?thesis by (auto simp: createRange_def Let_def valueMin_def split: option.splits)
qed

lemma create_inv:
  assumes "whole_options mn mx st s"
  shows "slider_inv mn (mn + (mx - mn) div st * st) st (create s)"
proof -
  let ?s0 = "detectOrientation (s\<lparr>keySliding := False, mouseSliding := False, handleIndex := None\<rparr>)"
  let ?s1 = "calculateNewMax ?s0"
  have g: "gridded mn (mn + (mx - mn) div st * st) st ?s1"
    using assms by (intro calculateNewMax_whole) (auto simp: whole_options_def detectOrientation_def)
  have f: "o_min ?s1 = o_min s" "o_value ?s1 = o_value s" "o_values ?s1 = o_values s" "handleIndex ?s1 = None"
    "elementSize ?s1 = elementSize s" "elementOffset ?s1 = elementOffset s" "clickOffset ?s1 = clickOffset s"
    by (simp_all add: calculateNewMax_def detectOrientation_def Let_def)
  have v: "case o_values (createRange ?s1) of None \<Rightarrow> True | Some vs \<Rightarrow> NaN \<notin> set vs"
    using assms by (intro createRange_values) (simp_all add: f whole_options_def)
  have n: "length (handles (createHandles t)) = value_count (createHandles t)" for t
    by (simp add: createHandles_def value_count_def Let_def split: option.splits)
  have "slider_inv mn (mn + (mx - mn) div st * st) st (createHandles (createRange ?s1))"
    using g v n [of "createRange ?s1"] assms
    by (simp add: slider_inv_def whole_options_def createHandles_def createRange_fields f gridded_def Let_def)
  then show ?thesis by (simp add: create_def refresh_def inv_refreshValue)
qed

subsection \<open>Properties\<close>

text \<open>
  C13. The value of a slider with whole options stays on its grid: after any sequence of mouse events on a
  page with finite coordinates, whatever the callbacks do or throw, the value is a whole number
  between the minimum and the maximum and a whole number of steps above the minimum.
\<close>

theorem slider_value_on_grid:
  assumes "whole_options mn mx st s0" and "sane_geometry g"
    and "list_all (\<lambda>e. pred_option sane_event (input_event e)) es"
  shows "let (m, s, w) = mouse_run (slider_methods cb g) es (mouse_init distance delay ie, create s0, w0)
    in \<exists>k. whole (get_value s) k \<and> mn \<le> k \<and> k \<le> mx \<and> st dvd (k - mn)"
proof -
  let ?mx = "mn + (mx - mn) div st * st"
  have "slider_mouse.kept g mn ?mx st (mouse_init distance delay ie, create s0, w0)"
    using create_inv [OF assms(1)] by (simp add: slider_mouse.kept_def mouse_init_def)
  from slider_mouse.run_keeps [OF assms(3) this, of cb] assms(2)
  have "slider_inv mn ?mx st (fst (snd (mouse_run (slider_methods cb g) es (mouse_init distance delay ie, create s0, w0))))"
    unfolding slider_mouse.kept_def by blast
  from get_value_on_grid [OF this] div_bounds(1) [of st "mx - mn"] assms(1) show ?thesis
    by (fastforce simp: on_grid_def whole_options_def split: prod.splits)
qed

definition demo_slider :: slider where
  "demo_slider = \<lparr>o_disabled = False, o_max = Fin 10000, o_min = Fin 0, o_orientation = Horizontal, o_range = NoRange,
     o_step = Fin 1, o_value = Fin 0, o_values = None, keySliding = False, mouseSliding = False, handleIndex = None,
     lastChangedValue = None, clickOffset = None, s_orientation = Horizontal, s_max = Fin 0, handles = [], s_range = None,
     elementSize = (Fin 1, Fin 1), elementOffset = (Fin 0, Fin 0)\<rparr>"

definition demo_geometry :: geometry where
  "demo_geometry = \<lparr>g_size = (Fin 200, Fin 10), g_offset = (Fin 8, Fin 8), g_on_handle = False,
     g_handle_offset = (\<lambda>i. (Fin 0, Fin 0)), g_handle_size = (\<lambda>i. (Fin 10, Fin 10)),
     g_handle_border = (\<lambda>i. (Fin 0, Fin 0, Fin 0)), g_hover = False\<rparr>"

definition no_callback :: "unit callback" where
  "no_callback k h s = sx_return True"

lemma demo_slider_options: "whole_options 0 10000 1 demo_slider"
  by (simp add: whole_options_def demo_slider_def sane_size_def sane_pair_def fin_le_def)

lemma demo_geometry_sane: "sane_geometry demo_geometry" "sane_event (press 5)"
  by (simp_all add: sane_geometry_def demo_geometry_def sane_size_def sane_pair_def fin_le_def sane_event_def press_def)

theorem slider_value_on_grid_witness:
  "let (m, s, w) = mouse_run (slider_methods no_callback demo_geometry) [Down (press 5)]
      (mouse_init (Fin 0) (Fin 0) False, create demo_slider, ())
   in \<exists>k. whole (get_value s) k \<and> 0 \<le> k \<and> k \<le> 10000 \<and> 1 dvd (k - 0)"
  using slider_value_on_grid [OF demo_slider_options demo_geometry_sane(1), of "[Down (press 5)]" no_callback "Fin 0" "Fin 0" False "()"]
    demo_geometry_sane(2) by simp

text \<open>
  C14. Alignment: on a gridded slider the value of \<open>_trimAlignValue\<close> is a point of the grid nearest to the given
  number (up to the rounding of the arithmetic), the ends for numbers outside, and a point of the grid
  is returned as it is.
\<close>

theorem trimAlignValue_nearest:
  assumes "gridded mn mx st s" and "is_fin v"
  shows "\<exists>k. whole (trimAlignValue s v) k \<and> mn \<le> k \<and> k \<le> mx \<and> st dvd (k - mn) \<and>
    (num_val v \<le> of_int mn \<longrightarrow> k = mn) \<and> (of_int mx \<le> num_val v \<and> of_int mn < num_val v \<longrightarrow> k = mx) \<and>
    (of_int mn < num_val v \<and> num_val v < of_int mx \<longrightarrow> \<bar>of_int k - num_val v\<bar> \<le> of_int st / 2 + 1 / 2 ^ 21) \<and>
    (\<forall>j. num_val v = of_int j \<and> mn \<le> j \<and> j \<le> mx \<and> st dvd (j - mn) \<longrightarrow> k = j)"
proof -
  have g: "grid mn mx st" and w: "whole (o_min s) mn" "whole (s_max s) mx" "whole (o_step s) st"
    using assms(1) by (auto simp: gridded_def)
  have le: "js_le v (o_min s) \<longleftrightarrow> num_val v \<le> of_int mn" "js_le (s_max s) v \<longleftrightarrow> of_int mx \<le> num_val v"
    using w assms(2) by (auto simp: js_le_fin whole_def)
  have fixed: "whole (trimAlignValue s v) j" if "num_val v = of_int j" "mn \<le> j" "j \<le> mx" "st dvd (j - mn)" for j
    using trimAlignValue_fixed [OF assms(1) _ that(2-4)] that(1) assms(2) by (simp add: whole_def)
  have uniq: "whole x a \<Longrightarrow> whole x b \<Longrightarrow> a = b" for x a b by (simp add: whole_def)
  show ?thesis
  proof (cases "of_int mn < num_val v \<and> num_val v < of_int mx")
    case True
    then obtain k where k: "whole (align (o_min s) (o_step s) v) k" "mn \<le> k" "k \<le> mx" "st dvd (k - mn)"
      "\<bar>of_int k - num_val v\<bar> \<le> of_int st / 2 + 1 / 2 ^ 21"
      using align_whole [OF g assms(2) _ _ w(1,3)] by auto
    with True le have "whole (trimAlignValue s v) k" by (simp add: trimAlignValue_def valueMin_def valueMax_def)
    with k True fixed uniq show ?thesis by (intro exI [of _ k]) (auto simp del: of_int_le_iff)
  next
    case False
    let ?k = "if num_val v \<le> of_int mn then mn else mx"
    have "whole (trimAlignValue s v) ?k" using False le w by (auto simp: trimAlignValue_def valueMin_def valueMax_def)
    with False fixed uniq g show ?thesis by (intro exI [of _ ?k]) (auto simp: grid_def simp del: of_int_le_iff)
  qed
qed

lemma demo_slider_gridded: "gridded 0 10000 1 (create demo_slider)"
  using create_inv [OF demo_slider_options] by (simp add: slider_inv_def)

theorem trimAlignValue_nearest_witness:
  "\<exists>k. whole (trimAlignValue (create demo_slider) (Fin (17/4))) k \<and> \<bar>of_int k - (17/4 :: rat)\<bar> \<le> 1 / 2 + 1 / 2 ^ 21"
  using trimAlignValue_nearest [OF demo_slider_gridded, of "Fin (17/4)"] by auto

text \<open>
  The order of a slide: when a slide to another value is allowed, its callback runs first and sees
  the slider with the value it had before; only then is the new value stored. When the callback
  forbids the slide or throws, the slider is unchanged.
\<close>

theorem slide_after_callback:
  assumes "\<not> hasMultipleValues s" and "\<not> js_eq v (get_value s)"
  shows "slide cb i v (s, w) =
    (case cb TSlide \<lparr>h_index = i, h_value = v, h_values = None\<rparr> s w of
       (Inl e, w') \<Rightarrow> (Inl e, (s, w'))
     | (Inr False, w') \<Rightarrow> (Inr (), (s, w'))
     | (Inr True, w') \<Rightarrow> set_value cb v (s, w'))"
  using assms
  by (simp add: slide_def with_slider_at slide_target_def slide_current_def trigger_def uiHash_def sx_bind_def Let_def
      split: prod.splits sum.splits bool.splits)

theorem slide_after_callback_witness:
  "slide no_callback (Some 0) (Fin 7) (demo_slider, ()) = set_value no_callback (Fin 7) (demo_slider, ())"
proof -
  have "get_value demo_slider = Fin 0"
    by (simp add: get_value_def trimAlignValue_def valueMin_def demo_slider_def)
  then show ?thesis
    using slide_after_callback [of demo_slider "Fin 7" no_callback "Some 0" "()"]
    by (simp add: hasMultipleValues_def no_callback_def) (simp add: demo_slider_def)
qed



end
