(* ===== verification/AppRun.thy ===== *)
theory AppRun
  imports App Slider
begin

text \<open>
  The application in its browser: which event can happen in which state, as a step relation, and the
  states that are reachable from a freshly loaded page. A step is one event with the handler of
  \<open>app.js\<close> that runs for it; a handler that throws leaves the state it reached. The browser closes and
  opens sockets, delivers frames only on open ones, and fires timers that are set. The input slider
  is the widget of the theory \<open>Slider\<close> with \<open>sendData\<close> as its callback.
\<close>

subsection \<open>The input slider\<close>

text \<open>\<open>sendData\<close> reads the value of the slider from the widget.\<close>

definition input_callback :: "jsnum \<Rightarrow> 'p app callback" where
  "input_callback now k h s = (case k of
     TSlide \<Rightarrow> (\<lambda>a. case sendData now (a\<lparr>slider_value := get_value s\<rparr>) of
        (Inl e, a') \<Rightarrow> (Inl e, a') | (Inr _, a') \<Rightarrow> (Inr True, a'))
   | _ \<Rightarrow> sx_return True)"

definition slide_input :: "jsnum \<Rightarrow> jsnum \<Rightarrow> slider \<times> 'p app \<Rightarrow> slider \<times> 'p app" where
  "slide_input now v st = snd (slide (input_callback now) (Some 0) v st)"

text \<open>A checkbox that is clicked has changed before its handler runs.\<close>

definition toggle_checkbox :: "jsnum \<Rightarrow> nat \<Rightarrow> 'p app \<Rightarrow> unit js \<times> 'p app" where
  "toggle_checkbox now i a = sendData now (a\<lparr>checkboxes := (checkboxes a)[i := \<not> checkboxes a ! i]\<rparr>)"

subsection \<open>Steps\<close>

datatype app_event =
    DocumentReady
  | ApiOpened
  | ApiFrame
  | SocketOpened nat
  | SocketClosed nat
  | SocketFailed nat
  | SocketFrame nat
  | ReconnectTimeout
  | PlotInterval
  | Played
  | Paused
  | SpanSlid
  | RateSlid
  | InputSent
  | RangeSelected
  | NodeClicked
  | Unloading

definition socket_state :: "'p app \<Rightarrow> nat \<Rightarrow> ready_state" where
  "socket_state a i = sk_state (sockets a ! i)"

inductive app_step :: "'p flot \<Rightarrow> 'p app \<Rightarrow> app_event \<Rightarrow> 'p app \<Rightarrow> bool" for fl where
  ready: "api a = None \<Longrightarrow> app_step fl a DocumentReady (document_ready a)"
| api_opened: "api a = Some c \<Longrightarrow> sk_state (connection c) = CONNECTING \<Longrightarrow> app_step fl a ApiOpened (snd (app_api_open random a))"
| api_frame: "api a = Some c \<Longrightarrow> sk_state (connection c) = OPEN \<Longrightarrow> app_step fl a ApiFrame (snd (app_api_message frame a))"
| opened: "i < length (sockets a) \<Longrightarrow> socket_state a i = CONNECTING \<Longrightarrow> app_step fl a (SocketOpened i) (conn_onopen i a)"
| closed: "i < length (sockets a) \<Longrightarrow> socket_state a i \<noteq> CLOSED \<Longrightarrow> app_step fl a (SocketClosed i) (conn_onclose i reason a)"
| failed: "i < length (sockets a) \<Longrightarrow> socket_state a i \<noteq> CLOSED \<Longrightarrow> app_step fl a (SocketFailed i) (conn_onerror message a)"
| frame: "i < length (sockets a) \<Longrightarrow> socket_state a i = OPEN \<Longrightarrow> app_step fl a (SocketFrame i) (snd (conn_onmessage now data a))"
| timeout: "0 < reconnects a \<Longrightarrow> app_step fl a ReconnectTimeout (snd (reconnect a))"
| tick: "intervals a \<noteq> [] \<Longrightarrow> app_step fl a PlotInterval (snd (updatePlot fl now a))"
| played: "app_step fl a Played (snd (play_click a))"
| paused: "app_step fl a Paused (snd (pause_click a))"
| span: "app_step fl a SpanSlid (updatePlotWindow v a)"
| rate: "timer a \<noteq> None \<Longrightarrow> app_step fl a RateSlid (updaterate_slide v a)"
| send: "app_step fl a InputSent (snd (sendData now (a\<lparr>slider_value := v, checkboxes := boxes\<rparr>)))"
| select: "plot a \<noteq> None \<Longrightarrow> app_step fl a RangeSelected (select_range fl from to a)"
| node: "app_step fl a NodeClicked (select_button i a)"
| unload: "app_step fl a Unloading (snd (beforeunload a))"

inductive_cases app_stepE: "app_step fl a e b"

inductive reachable :: "'p flot \<Rightarrow> location \<Rightarrow> bool list \<Rightarrow> 'p app \<Rightarrow> bool" for fl l boxes where
  loaded: "reachable fl l boxes (app_init l boxes)"
| step: "reachable fl l boxes a \<Longrightarrow> app_step fl a e b \<Longrightarrow> reachable fl l boxes b"

subsection \<open>The invariant\<close>

definition timer_ok :: "'p app \<Rightarrow> bool" where
  "timer_ok a \<longleftrightarrow> (case api a of
     None \<Rightarrow> intervals a = [] \<and> timer a = None
   | Some c \<Rightarrow> (\<exists>t d. timer a = Some t \<and> intervals a = [(t, d)] \<and> t < next_timer a))"

definition node_ok :: "'p app \<Rightarrow> bool" where
  "node_ok a \<longleftrightarrow> (\<forall>n. currentNode a = Some n \<longrightarrow> is_websocket n) \<and>
     (sockets a \<noteq> [] \<or> 0 < reconnects a \<or> plotData a \<noteq> [] \<longrightarrow> currentNode a \<noteq> None) \<and>
     (\<forall>i. conn a = Some i \<longrightarrow> i < length (sockets a))"

definition app_inv :: "location \<Rightarrow> 'p app \<Rightarrow> bool" where
  "app_inv l a \<longleftrightarrow> timer_ok a \<and> node_ok a \<and> loc a = l"

lemma app_inv_init: "app_inv l (app_init l boxes)"
  by (simp add: app_inv_def timer_ok_def node_ok_def app_init_def)

lemma timer_ok_cong:
  "map_option (\<lambda>_. ()) (api b) = map_option (\<lambda>_. ()) (api a) \<Longrightarrow> timer b = timer a \<Longrightarrow> intervals b = intervals a \<Longrightarrow>
   next_timer b = next_timer a \<Longrightarrow> timer_ok b = timer_ok a"
  by (cases "api a"; cases "api b") (auto simp: timer_ok_def)

text \<open>Opening a socket keeps the invariant and leaves everything but the list of sockets alone.\<close>

lemma wsConnect_effect:
  "case wsConnect n a of
     (Inl e, b) \<Rightarrow> b = a \<and> (e = TypeError \<longrightarrow> n = None)
   | (Inr i, b) \<Rightarrow> n \<noteq> None \<and> i = length (sockets a) \<and> (\<exists>s. b = a\<lparr>sockets := sockets a @ [s]\<rparr> \<and> sk_state s = CONNECTING)"
  by (auto simp: wsConnect_def Let_def WebSocket_def split: option.splits)

lemma wsConnect_inv:
  assumes "app_inv l a" and "wsConnect (currentNode a) a = (r, b)"
  shows "app_inv l b" and "\<forall>i. r = Inr i \<longrightarrow> i < length (sockets b)"
  using assms wsConnect_effect [where n = "currentNode a" and a = a]
  by (auto simp: app_inv_def node_ok_def timer_ok_def split: sum.splits option.splits)

lemma select_named_websocket:
  "(case cur of None \<Rightarrow> True | Some n \<Rightarrow> is_websocket n) \<Longrightarrow>
   (case snd (select_named q ns cur) of None \<Rightarrow> cur = None | Some n \<Rightarrow> is_websocket n)"
proof (induction ns arbitrary: cur)
  case (Cons n ns)
  show ?case
  proof (cases "is_websocket n")
    case True
    then show ?thesis
      using Cons.IH [of "Some n"] Cons.IH [of cur] Cons.prems
      by (auto split: sum.splits option.splits)
  qed (use Cons in simp)
qed (auto split: option.splits)

lemma select_any_websocket:
  "(case cur of None \<Rightarrow> True | Some n \<Rightarrow> is_websocket n) \<Longrightarrow>
   (case select_any ns cur of None \<Rightarrow> True | Some n \<Rightarrow> is_websocket n)"
  by (induction ns arbitrary: cur) auto

lemma updateNodeList_fields [simp]:
  "currentNode (updateNodeList a) = currentNode a" "sockets (updateNodeList a) = sockets a"
  "reconnects (updateNodeList a) = reconnects a" "plotData (updateNodeList a) = plotData a"
  "conn (updateNodeList a) = conn a" "api (updateNodeList a) = api a" "timer (updateNodeList a) = timer a"
  "intervals (updateNodeList a) = intervals a" "next_timer (updateNodeList a) = next_timer a" "loc (updateNodeList a) = loc a"
  by (simp_all add: updateNodeList_def split: option.splits)

lemma app_inv_node:
  assumes "app_inv l a" and "case cur of None \<Rightarrow> currentNode a = None | Some n \<Rightarrow> is_websocket n"
  shows "app_inv l (a\<lparr>nodes := ns, currentNode := cur\<rparr>)"
  using assms timer_ok_cong [of "a\<lparr>nodes := ns, currentNode := cur\<rparr>" a]
  by (auto simp: app_inv_def node_ok_def split: option.splits)

lemma app_inv_updateNodeList: "app_inv l a \<Longrightarrow> app_inv l (updateNodeList a)"
  using timer_ok_cong [of "updateNodeList a" a] by (simp add: app_inv_def node_ok_def)

lemma app_inv_conn:
  assumes "app_inv l a" "i < length (sockets a)"
  shows "app_inv l (a\<lparr>conn := Some i\<rparr>)"
  using assms timer_ok_cong [of "a\<lparr>conn := Some i\<rparr>" a] by (auto simp: app_inv_def node_ok_def)

lemma nodes_response_inv:
  assumes "app_inv l a"
  shows "app_inv l (snd (nodes_response r a))"
proof (cases r)
  case None
  have "app_inv l (a\<lparr>nodes := None\<rparr>)"
    using app_inv_node [OF assms, of "currentNode a" None] assms
    by (auto simp: app_inv_def node_ok_def timer_ok_def split: option.splits)
  with None show ?thesis by (simp add: nodes_response_def)
next
  case (Some ns)
  have cur0: "case currentNode a of None \<Rightarrow> True | Some n \<Rightarrow> is_websocket n"
    using assms by (auto simp: app_inv_def node_ok_def split: option.splits)
  obtain res cur where sel: "select_named (search (loc a)) ns (currentNode a) = (res, cur)" by fastforce
  have cur: "case cur of None \<Rightarrow> currentNode a = None | Some n \<Rightarrow> is_websocket n"
    using select_named_websocket [OF cur0, of "search (loc a)" ns] sel by simp
  define cur' where "cur' = (if cur = None then select_any ns None else cur)"
  have cur': "case cur' of None \<Rightarrow> currentNode a = None | Some n \<Rightarrow> is_websocket n"
    using cur select_any_websocket [of None ns] by (auto simp: cur'_def split: option.splits if_splits)
  let ?b = "a\<lparr>nodes := Some ns, currentNode := cur\<rparr>" let ?c = "a\<lparr>nodes := Some ns, currentNode := cur'\<rparr>"
  have b: "app_inv l ?b" and c: "app_inv l (updateNodeList ?c)" "app_inv l ?c"
    using app_inv_node [OF assms cur] app_inv_node [OF assms cur'] by (auto intro: app_inv_updateNodeList)
  obtain q d where ws: "wsConnect cur' (updateNodeList ?c) = (q, d)" by fastforce
  have d: "app_inv l d" "q = Inr i \<Longrightarrow> app_inv l (d\<lparr>conn := Some i\<rparr>)" for i
    using wsConnect_inv [OF c(1), where r = q and b = d] ws by (auto intro: app_inv_conn)
  show ?thesis
    using Some sel ws b c d by (cases res; cases q) (auto simp: nodes_response_def Let_def cur'_def [symmetric])
qed

lemma app_inv_simple:
  assumes "app_inv l a" and "map_option (\<lambda>_. ()) (api b) = map_option (\<lambda>_. ()) (api a)" and "timer b = timer a"
    and "intervals b = intervals a" and "next_timer b = next_timer a" and "loc b = loc a" and "currentNode b = currentNode a"
    and "length (sockets b) = length (sockets a)" and "0 < reconnects b \<Longrightarrow> sockets a \<noteq> [] \<or> 0 < reconnects a" and "conn b = conn a"
    and "plotData b \<noteq> [] \<Longrightarrow> sockets a \<noteq> [] \<or> plotData a \<noteq> []"
  shows "app_inv l b"
proof -
  have "timer_ok b" using assms(1) timer_ok_cong [OF assms(2-5)] by (simp add: app_inv_def)
  moreover have "node_ok b"
    using assms(1,6-11) unfolding app_inv_def node_ok_def by (metis length_0_conv)
  ultimately show ?thesis using assms(1,6) by (simp add: app_inv_def)
qed

lemma api_message_inv:
  assumes "app_inv l a"
  shows "app_inv l (snd (app_api_message f a))"
proof (cases "api a")
  case (Some c)
  obtain r c' where m: "api_onmessage (\<lambda>h r. fst (nodes_response r a)) c f = (r, c')" by fastforce
  let ?b = "if calls c' = calls c then a else snd (nodes_response (snd (last (calls c'))) a)"
  have b: "app_inv l ?b" using assms nodes_response_inv by auto
  have "api (snd (nodes_response rr a)) = api a" for rr
    by (simp add: nodes_response_def wsConnect_def Let_def split: option.splits sum.splits prod.splits)
  then have "map_option (\<lambda>_. ()) (Some c') = map_option (\<lambda>_. ()) (api ?b)" using Some by simp
  then have "app_inv l (?b\<lparr>api := Some c'\<rparr>)" by (intro app_inv_simple [OF b]) auto
  then show ?thesis using Some m by (simp add: app_api_message_def)
qed (simp add: app_api_message_def assms)

lemma api_open_inv: "app_inv l a \<Longrightarrow> app_inv l (snd (app_api_open rg a))"
  by (erule app_inv_simple) (auto simp: app_api_open_def apiConnected_def split: option.splits prod.splits)

lemma set_state_fields [simp]:
  "api (set_state i st a) = api a" "timer (set_state i st a) = timer a" "intervals (set_state i st a) = intervals a"
  "next_timer (set_state i st a) = next_timer a" "loc (set_state i st a) = loc a"
  "currentNode (set_state i st a) = currentNode a" "length (sockets (set_state i st a)) = length (sockets a)"
  "reconnects (set_state i st a) = reconnects a" "conn (set_state i st a) = conn a" "plotData (set_state i st a) = plotData a"
  by (simp_all add: set_state_def)

lemma socket_events_inv:
  assumes "app_inv l a" "i < length (sockets a)"
  shows "app_inv l (conn_onopen i a)" "app_inv l (conn_onclose i reason a)" "app_inv l (conn_onerror message a)"
    "app_inv l (snd (conn_onmessage now data a))"
proof -
  have "sockets a \<noteq> []" using assms(2) by auto
  then show "app_inv l (conn_onopen i a)" "app_inv l (conn_onclose i reason a)" "app_inv l (conn_onerror message a)"
    "app_inv l (snd (conn_onmessage now data a))"
    by (auto intro!: app_inv_simple [OF assms(1)] simp: conn_onopen_def conn_onclose_def conn_onerror_def conn_onmessage_def
        split: sum.splits)
qed

lemma reconnect_inv:
  assumes "app_inv l a"
  shows "app_inv l (snd (reconnect a))"
proof -
  have "app_inv l (a\<lparr>reconnects := reconnects a - 1\<rparr>)" by (rule app_inv_simple [OF assms]) auto
  from wsConnect_inv(1) [OF this] show ?thesis
    by (auto simp: reconnect_def split: prod.splits sum.splits)
qed

lemma play_inv:
  assumes "app_inv l a"
  shows "app_inv l (snd (play_click a))"
proof -
  obtain r b where w: "wsConnect (currentNode a) a = (r, b)" by fastforce
  have "app_inv l (b\<lparr>conn := Some i, paused := False\<rparr>)" if "r = Inr i" for i
    using app_inv_conn [of l b i] wsConnect_inv [OF assms w] that
    by (auto intro!: app_inv_simple [of l "b\<lparr>conn := Some i\<rparr>"])
  with w wsConnect_inv(1) [OF assms w] show ?thesis by (auto simp: play_click_def split: sum.splits)
qed

lemma close_inv: "app_inv l a \<Longrightarrow> app_inv l (snd (close_connection a))"
  by (erule app_inv_simple) (auto simp: close_connection_def split: option.splits)

lemma pause_inv: "app_inv l a \<Longrightarrow> app_inv l (snd (pause_click a))"
  by (erule app_inv_simple) (auto simp: close_connection_def pause_click_def split: option.splits)

lemma unload_inv: "app_inv l a \<Longrightarrow> app_inv l (snd (beforeunload a))"
  by (erule app_inv_simple) (auto simp: close_connection_def beforeunload_def split: option.splits)

lemma sendData_fields [simp]:
  "api (snd (sendData now a)) = api a" "timer (snd (sendData now a)) = timer a" "intervals (snd (sendData now a)) = intervals a"
  "next_timer (snd (sendData now a)) = next_timer a" "loc (snd (sendData now a)) = loc a"
  "currentNode (snd (sendData now a)) = currentNode a" "sockets (snd (sendData now a)) = sockets a"
  "reconnects (snd (sendData now a)) = reconnects a" "conn (snd (sendData now a)) = conn a" "plotData (snd (sendData now a)) = plotData a"
  "sequence (snd (sendData now a)) = sequence a + 1"
  by (simp_all add: sendData_def Let_def split: sum.splits option.splits)

lemma updatePlot_inv: "app_inv l a \<Longrightarrow> app_inv l (snd (updatePlot fl now a))"
  by (erule app_inv_simple; cases "redrawPlot a") (auto simp: updatePlot_def Let_def split: sum.splits)

lemma plot_selected_fields [simp]:
  "api (plot_selected fl f t a) = api a" "timer (plot_selected fl f t a) = timer a" "intervals (plot_selected fl f t a) = intervals a"
  "next_timer (plot_selected fl f t a) = next_timer a" "loc (plot_selected fl f t a) = loc a"
  "currentNode (plot_selected fl f t a) = currentNode a" "sockets (plot_selected fl f t a) = sockets a"
  "reconnects (plot_selected fl f t a) = reconnects a" "conn (plot_selected fl f t a) = conn a" "plotData (plot_selected fl f t a) = plotData a"
  by (simp_all add: plot_selected_def split: option.splits)

lemma select_range_inv: "app_inv l a \<Longrightarrow> app_inv l (select_range fl from to a)"
proof -
  assume a: "app_inv l a"
  have "app_inv l ((plot_selected fl from to ^^ n) a)" for n
  proof (induction n)
    case (Suc n)
    then show ?case by (simp) (rule app_inv_simple [OF Suc], simp_all)
  qed (simp add: a)
  then show ?thesis by (simp add: select_range_def)
qed

lemma rate_inv:
  assumes "app_inv l a" "timer a \<noteq> None"
  shows "app_inv l (updaterate_slide v a)"
proof -
  obtain t d where t: "timer a = Some t" "intervals a = [(t, d)]"
    using assms by (auto simp: app_inv_def timer_ok_def split: option.splits)
  then show ?thesis
    using assms(1)
    by (auto simp: updaterate_slide_def setInterval_def clearInterval_def app_inv_def timer_ok_def node_ok_def split: option.splits)
qed

lemma ready_inv: "app_inv l a \<Longrightarrow> api a = None \<Longrightarrow> app_inv l (document_ready a)"
  by (auto simp: document_ready_def setInterval_def app_inv_def timer_ok_def node_ok_def)

lemma app_step_inv:
  assumes "app_inv l a" and "app_step fl a e b"
  shows "app_inv l b"
  using assms(2)
proof (cases rule: app_step.cases)
  case (span v)
  then show ?thesis by (auto intro!: app_inv_simple [OF assms(1)] simp: updatePlotWindow_def)
next
  case (send now v boxes)
  then show ?thesis by (auto intro!: app_inv_simple [OF assms(1)])
next
  case (rate v)
  then show ?thesis using rate_inv [OF assms(1)] by simp
next
  case (node i)
  then show ?thesis by (auto intro!: app_inv_simple [OF assms(1)] simp: select_button_def)
qed (use assms(1) ready_inv api_open_inv api_message_inv socket_events_inv reconnect_inv updatePlot_inv play_inv pause_inv
    select_range_inv unload_inv in auto)

lemma reachable_inv: "reachable fl l boxes a \<Longrightarrow> app_inv l a"
  by (induction rule: reachable.induct) (auto intro: app_inv_init app_step_inv)

subsection \<open>Received data\<close>

definition series :: "point list list \<Rightarrow> nat \<Rightarrow> point list" where
  "series ss j = (if j < length ss then ss ! j else [])"

definition point_of :: "msg \<Rightarrow> nat \<Rightarrow> point" where
  "point_of m j = (m_timestamp m, (case m_data m of Some xs \<Rightarrow> if j < length xs then xs ! j else NaN | None \<Rightarrow> NaN))"

definition new_points :: "msg list \<Rightarrow> nat \<Rightarrow> point list" where
  "new_points ms j = map (\<lambda>m. point_of m j) (filter (\<lambda>m. j < m_length m) ms)"

lemma length_add_points [simp]: "length (add_points n i m ss) = length ss"
  by (induction n arbitrary: i ss) auto

lemma nth_add_points:
  "i + n \<le> length ss \<Longrightarrow> j < length ss \<Longrightarrow>
   add_points n i m ss ! j = ss ! j @ (if i \<le> j \<and> j < i + n then [point_of m j] else [])"
proof (induction n arbitrary: i ss)
  case (Suc n)
  from Suc.IH [of "i + 1" "ss[i := ss ! i @ [point_of m i]]"] Suc.prems show ?case
    by (auto simp: nth_list_update point_of_def)
qed simp

lemma append_msgs_series:
  "series (append_msgs ms ss) j = series ss j @ new_points ms j"
  "length (append_msgs ms ss) = foldl max (length ss) (map m_length ms)"
proof -
  have "series (append_msgs ms ss) j = series ss j @ new_points ms j \<and>
      length (append_msgs ms ss) = foldl max (length ss) (map m_length ms)"
  proof (induction ms arbitrary: ss)
    case (Cons m ms)
    let ?s = "add_points (m_length m) 0 m (add_series (m_length m) ss)"
    have len: "length (add_series (m_length m) ss) = max (length ss) (m_length m)" by (simp add: add_series_def)
    have old: "series (add_series (m_length m) ss) j = series ss j" by (auto simp: series_def add_series_def nth_append)
    have "series ?s j = series ss j @ (if j < m_length m then [point_of m j] else [])"
      using nth_add_points [of 0 "m_length m" "add_series (m_length m) ss" j m] old len by (auto simp: series_def)
    with Cons [of ?s] len show ?case by (simp add: new_points_def)
  qed (simp add: new_points_def)
  then show "series (append_msgs ms ss) j = series ss j @ new_points ms j"
    "length (append_msgs ms ss) = foldl max (length ss) (map m_length ms)" by auto
qed

lemma prune_const: "snd (prune (\<lambda>_. t) past k s) = dropWhile (\<lambda>p. js_less (fst p) (js_sub t past)) s"
  by (induction s arbitrary: k) auto

lemma prune_all_const: "prune_all (\<lambda>_. t) past k ss = map (dropWhile (\<lambda>p. js_less (fst p) (js_sub t past))) ss"
proof (induction ss arbitrary: k)
  case (Cons s ss)
  then show ?case using prune_const [of t past k s] by (auto split: prod.splits)
qed simp

lemma frame_series:
  "case fromArrayBufferVector t data of
     Inl e \<Rightarrow> conn_onmessage (\<lambda>_. t) data a = (Inl e, a)
   | Inr msgs \<Rightarrow> (\<exists>b. conn_onmessage (\<lambda>_. t) data a = (Inr (), b) \<and> redrawPlot b \<and> sockets b = sockets a \<and>
       length (plotData b) = foldl max (length (plotData a)) (map m_length msgs) \<and>
       (\<forall>j. series (plotData b) j =
          dropWhile (\<lambda>p. js_less (fst p) (js_sub t (xPast a))) (series (plotData a) j) @ new_points msgs j))"
proof (cases "fromArrayBufferVector t data")
  case (Inr msgs)
  have "series (map f ss) j = f (series ss j)" if "f [] = []" for f ss j using that by (simp add: series_def)
  with Inr show ?thesis by (simp add: conn_onmessage_def prune_all_const append_msgs_series)
qed (simp add: conn_onmessage_def)

text \<open>
  C8. A received frame: when the frame decodes, every series of the plot loses the points at its front
  that are older than the window and gains, in order, one point for every message that has a value at
  its position; series are added as needed, nothing else of the data changes, and the plot is marked
  for redrawing. When it does not decode, nothing changes.
\<close>

theorem frame_updates_series:
  "case fromArrayBufferVector t data of
     Inl e \<Rightarrow> conn_onmessage (\<lambda>_. t) data a = (Inl e, a)
   | Inr msgs \<Rightarrow> (\<exists>b. conn_onmessage (\<lambda>_. t) data a = (Inr (), b) \<and> redrawPlot b \<and> sockets b = sockets a \<and>
       length (plotData b) = foldl max (length (plotData a)) (map m_length msgs) \<and>
       (\<forall>j. series (plotData b) j =
          dropWhile (\<lambda>p. js_less (fst p) (js_sub t (xPast a))) (series (plotData a) j) @ new_points msgs j))"
  by (rule frame_series)

subsection \<open>Connections\<close>

lemma sendData_closed:
  assumes "conn a = Some i" "sk_state (sockets a ! i) = CLOSED"
  shows "snd (sendData now a) = a\<lparr>sequence := sequence a + 1\<rparr>"
  using assms by (simp add: sendData_def sk_send_def Let_def split: sum.splits)

text \<open>
  C22. After a reconnection the inputs of the page are lost: the server closes the socket that \<open>connection\<close>
  names, the timeout opens a new one and it connects. The status says so and frames arrive again, but
  \<open>connection\<close> still names the closed socket, and whatever is sent afterwards is dropped without an error.
\<close>

theorem reconnect_drops_inputs:
  assumes "conn a = Some i" and "i < length (sockets a)" and "currentNode a = Some n" and "35 \<notin> set (wsUrl (loc a) (n_name n))"
  shows "let a1 = conn_onclose i reason a; a2 = snd (reconnect a1); a3 = conn_onopen (length (sockets a)) a2
    in fst (reconnect a1) = Inr () \<and> socket_state a3 (length (sockets a)) = OPEN \<and> status_text a3 = u ''Connected'' \<and>
       conn a3 = Some i \<and> outgoing (snd (sendData now a3)) = outgoing a \<and>
       outgoing (snd (sendData now' (snd (sendData now a3)))) = outgoing a"
proof -
  let ?a1 = "conn_onclose i reason a" let ?a2 = "snd (reconnect ?a1)" let ?a3 = "conn_onopen (length (sockets a)) ?a2"
  have l1: "length (sockets ?a1) = length (sockets a)" "currentNode ?a1 = Some n" "loc ?a1 = loc a" "conn ?a1 = Some i"
    "outgoing ?a1 = outgoing a" "sk_state (sockets ?a1 ! i) = CLOSED"
    using assms by (auto simp: conn_onclose_def set_state_def)
  obtain s where a2: "reconnect ?a1 = (Inr (), ?a1\<lparr>reconnects := reconnects ?a1 - 1, sockets := sockets ?a1 @ [s]\<rparr>)"
    using l1 assms(4) by (auto simp: reconnect_def wsConnect_def Let_def)
  have a3: "conn ?a3 = Some i" "sk_state (sockets ?a3 ! i) = CLOSED" "outgoing ?a3 = outgoing a"
    "sk_state (sockets ?a3 ! length (sockets a)) = OPEN" "status_text ?a3 = u ''Connected''"
    using l1 assms(2) by (auto simp: a2 conn_onopen_def set_state_def nth_append)
  let ?a4 = "?a3\<lparr>sequence := sequence ?a3 + 1\<rparr>"
  have "outgoing (snd (sendData now ?a3)) = outgoing a" "outgoing (snd (sendData now' (snd (sendData now ?a3)))) = outgoing a"
    using sendData_closed [OF a3(1,2), of now] sendData_closed [of ?a4 i now'] a3 by simp_all
  with a2 a3 show ?thesis by (simp add: Let_def socket_state_def)
qed

definition demo_node :: node where
  "demo_node = \<lparr>n_name = u ''ws'', n_type = u ''websocket'', n_description = None, n_out = Some (Some [Some (u ''U'')])\<rparr>"

definition demo_app :: "unit app" where
  "demo_app = (app_init demo_location [True, False])\<lparr>currentNode := Some demo_node, conn := Some 0,
     sockets := [\<lparr>sk_url = u ''ws://localhost:8080/ws'', sk_protocol = ''live'', sk_state = OPEN\<rparr>]\<rparr>"

lemma demo_app_fields:
  "conn demo_app = Some 0" "length (sockets demo_app) = 1" "currentNode demo_app = Some demo_node"
  "35 \<notin> set (wsUrl (loc demo_app) (n_name demo_node))" "sk_state (sockets demo_app ! 0) = OPEN" "socket_state demo_app 0 = OPEN"
  by (simp_all add: demo_app_def app_init_def demo_location_def demo_node_def wsUrl_def u_def Let_def socket_state_def)

theorem reconnect_drops_inputs_witness:
  "let a3 = conn_onopen 1 (snd (reconnect (conn_onclose 0 [] demo_app)))
   in socket_state a3 1 = OPEN \<and> outgoing (snd (sendData (Fin 5) a3)) = outgoing demo_app"
  using reconnect_drops_inputs [of demo_app 0 demo_node "[]" "Fin 5" "Fin 6"] demo_app_fields by (simp add: Let_def)

text \<open>
  Pausing does not last: the click closes the socket and sets \<open>paused\<close>, but when the close completes, the
  handler schedules a reconnection all the same, and a second later a new socket is opened while the
  page is still paused.
\<close>

theorem pause_reconnects:
  assumes "conn a = Some i" and "i < length (sockets a)" and "currentNode a = Some n" and "35 \<notin> set (wsUrl (loc a) (n_name n))"
  shows "let a1 = snd (pause_click a); a2 = conn_onclose i reason a1; a3 = snd (reconnect a2)
    in paused a1 \<and> reconnects a2 = reconnects a + 1 \<and> paused a3 \<and> length (sockets a3) = length (sockets a) + 1 \<and>
       socket_state a3 (length (sockets a)) = CONNECTING"
  using assms
  by (simp add: pause_click_def close_connection_def conn_onclose_def reconnect_def wsConnect_def set_state_def
      socket_state_def WebSocket_def nth_append Let_def)

theorem pause_reconnects_witness:
  "let a3 = snd (reconnect (conn_onclose 0 [] (snd (pause_click demo_app))))
   in paused a3 \<and> length (sockets a3) = 2"
  using pause_reconnects [of demo_app 0 demo_node "[]"] demo_app_fields by (simp add: Let_def)

subsection \<open>Reachable states\<close>

text \<open>
  C9. What holds in every reachable state of the application: \<open>connection\<close> names a socket that exists; once
  there is a socket, a pending reconnection or a data point, there is a current node, and it is a
  websocket node, so that the reconnection never fails for want of a node; and after the page is ready
  exactly one plot timer runs, the one that the variable names.
\<close>

theorem app_invariant:
  assumes "reachable fl l boxes a"
  shows "(\<forall>i. conn a = Some i \<longrightarrow> i < length (sockets a)) \<and>
    (sockets a \<noteq> [] \<or> plotData a \<noteq> [] \<longrightarrow> (\<exists>n. currentNode a = Some n \<and> is_websocket n)) \<and>
    (0 < reconnects a \<longrightarrow> fst (reconnect a) \<noteq> Inl TypeError) \<and>
    (api a \<noteq> None \<longrightarrow> (\<exists>t d. timer a = Some t \<and> intervals a = [(t, d)])) \<and> loc a = l"
proof -
  have inv: "timer_ok a" "node_ok a" "loc a = l" using reachable_inv [OF assms] by (auto simp: app_inv_def)
  have "fst (reconnect a) \<noteq> Inl TypeError" if "0 < reconnects a"
    using inv(2) that wsConnect_effect [where n = "currentNode a" and a = "a\<lparr>reconnects := reconnects a - 1\<rparr>"]
    by (auto simp: node_ok_def reconnect_def split: prod.splits sum.splits)
  with inv show ?thesis by (auto simp: node_ok_def timer_ok_def split: option.splits)
qed

text \<open>A flot that plots nothing.\<close>

definition no_flot :: "unit flot" where
  "no_flot = \<lparr>fl_plot = (\<lambda>d o1. Inr ()), fl_xaxes = (\<lambda>p. []), fl_set_xaxes = (\<lambda>x p. p), fl_setupGrid = (\<lambda>p. p),
     fl_draw = (\<lambda>p. p), fl_clearSelection = (\<lambda>p. p)\<rparr>"

theorem app_invariant_witness:
  "\<exists>t d. timer (document_ready (app_init demo_location [] :: unit app)) = Some t \<and>
     intervals (document_ready (app_init demo_location [] :: unit app)) = [(t, d)]"
proof -
  have "reachable no_flot demo_location [] (document_ready (app_init demo_location []))"
    by (rule reachable.step [OF reachable.loaded app_step.ready]) (simp add: app_init_def)
  from app_invariant [OF this] show ?thesis
    by (simp add: document_ready_def setInterval_def)
qed

subsection \<open>Timers and plot\<close>

text \<open>
  The update rate lags behind its slider: a slide replaces the timer, but its delay is computed from
  the rate before the slide. After sliding to \<open>v\<close> and then to \<open>w\<close>, the plot is redrawn at the rate \<open>v\<close>.
\<close>

theorem updaterate_lags:
  assumes "reachable fl l boxes a" and "timer a \<noteq> None"
  shows "let a1 = updaterate_slide v a; a2 = updaterate_slide w a1
    in map snd (intervals a1) = [js_div (Fin 1000) (updateRate a)] \<and> updateRate a1 = v \<and>
       map snd (intervals a2) = [js_div (Fin 1000) v] \<and> updateRate a2 = w"
proof -
  obtain t d where t: "timer a = Some t" "intervals a = [(t, d)]" "t < next_timer a"
    using reachable_inv [OF assms(1)] assms(2) by (auto simp: app_inv_def timer_ok_def split: option.splits)
  then show ?thesis by (simp add: updaterate_slide_def setInterval_def clearInterval_def Let_def)
qed

theorem updaterate_lags_witness:
  "let a = document_ready (app_init demo_location [] :: unit app)
   in map snd (intervals (updaterate_slide (Fin 50) a)) = [js_div (Fin 1000) (Fin 25)]"
proof -
  have "reachable no_flot demo_location [] (document_ready (app_init demo_location []))"
    by (rule reachable.step [OF reachable.loaded app_step.ready]) (simp add: app_init_def)
  from updaterate_lags [OF this, of "Fin 50" "Fin 50"] show ?thesis
    by (simp add: document_ready_def setInterval_def app_init_def Let_def)
qed

text \<open>
  The options that a redraw passes to the plotting library: the time axis ends \<open>xFuture\<close> after the
  current time and starts \<open>xPast\<close> before it, and the fixed options for the axis mode, the legend and the
  selection are all there, none of them overwriting the window.
\<close>

theorem plot_options_window:
  "let o1 = jq_extend JUndef [JBool True, window_options now past future, plotOptions]
   in value_at o1 [Key (u ''xaxis''), Key (u ''min'')] = JNum (js_sub (now 0) past) \<and>
      value_at o1 [Key (u ''xaxis''), Key (u ''max'')] = JNum (js_add (now 1) future) \<and>
      value_at o1 [Key (u ''xaxis''), Key (u ''mode'')] = JStr (u ''time'') \<and>
      value_at o1 [Key (u ''legend''), Key (u ''show'')] = JBool True \<and>
      value_at o1 [Key (u ''selection''), Key (u ''mode'')] = JStr (u ''x'')"
proof -
  let ?t = "window_options now past future"
  have p: "isPlainObject ?t" "isPlainObject plotOptions" "distinct_keys plotOptions"
    by (simp_all add: window_options_def plotOptions_def)
  have leaf: "value_at (jq_extend JUndef [JBool True, ?t, plotOptions]) q = value_at plotOptions q"
    if "inner plotOptions q" "\<not> container (value_at plotOptions q)" "value_at plotOptions q \<noteq> JUndef" for q
    using that p by (simp add: extend_deep_eq merge_val_path_leaf)
  have silent: "value_at (jq_extend JUndef [JBool True, ?t, plotOptions]) q = value_at ?t q"
    if "inner plotOptions q" "value_at plotOptions q = JUndef" "same_shape ?t plotOptions q" for q
    using that p by (simp add: extend_deep_eq merge_val_path_silent)
  have "value_at (jq_extend JUndef [JBool True, ?t, plotOptions]) [Key (u ''xaxis''), Key (u ''min'')] = JNum (js_sub (now 0) past)"
    by (subst silent) (simp_all add: plotOptions_def window_options_def get_def container_def)
  moreover have "value_at (jq_extend JUndef [JBool True, ?t, plotOptions]) [Key (u ''xaxis''), Key (u ''max'')] = JNum (js_add (now 1) future)"
    by (subst silent) (simp_all add: plotOptions_def window_options_def get_def container_def)
  moreover have "value_at (jq_extend JUndef [JBool True, ?t, plotOptions]) [Key (u ''xaxis''), Key (u ''mode'')] = JStr (u ''time'')"
    by (subst leaf) (simp_all add: plotOptions_def get_def container_def)
  moreover have "value_at (jq_extend JUndef [JBool True, ?t, plotOptions]) [Key (u ''legend''), Key (u ''show'')] = JBool True"
    by (subst leaf) (simp_all add: plotOptions_def get_def container_def)
  moreover have "value_at (jq_extend JUndef [JBool True, ?t, plotOptions]) [Key (u ''selection''), Key (u ''mode'')] = JStr (u ''x'')"
    by (subst leaf) (simp_all add: plotOptions_def get_def container_def)
  ultimately show ?thesis by (simp add: Let_def)
qed

text \<open>
  Redrawing: without new data a tick changes nothing; a redraw that the library accepts makes the
  next tick idle, and binds the selection handler once more; a redraw that throws leaves the state as
  it was.
\<close>

theorem redraw_once:
  "case updatePlot fl now a of
     (Inl e, b) \<Rightarrow> b = a
   | (Inr _, b) \<Rightarrow> updatePlot fl now' b = (Inr (), b) \<and>
       selection_handlers b = selection_handlers a + (if redrawPlot a then 1 else 0)"
  by (simp add: updatePlot_def Let_def split: sum.splits)

subsection \<open>Inputs\<close>

text \<open>The checkboxes as a number, the first box the lowest bit.\<close>

fun box_mask :: "bool list \<Rightarrow> int" where
  "box_mask [] = 0"
| "box_mask (c # cs) = (if c then 1 else 0) + 2 * box_mask cs"

lemma box_mask_bounds: "0 \<le> box_mask cs \<and> box_mask cs < 2 ^ length cs"
  by (induction cs) auto

lemma bit_box_mask: "i < length cs \<Longrightarrow> bit (box_mask cs) i = cs ! i"
proof (induction cs arbitrary: i)
  case (Cons c cs)
  then show ?case by (cases i; cases c) (simp_all add: bit_Suc bit_0)
qed simp

lemma checkbox_sum_mask:
  assumes "i + length cs \<le> 31" "0 \<le> acc" "acc < 2 ^ i"
  shows "checkbox_sum i cs (jint acc) = jint (acc + 2 ^ i * box_mask cs)"
  using assms
proof (induction cs arbitrary: i acc)
  case (Cons c cs)
  let ?w = "if c then 2 ^ i else 0 :: int"
  have i: "i < 31" using Cons.prems(1) by simp
  then have w: "(if c then shift_one i else 0) = ?w" by (simp add: shift_one_def)
  have b: "acc + ?w < 2 ^ (i + 1)" "0 \<le> acc + ?w" using Cons.prems by auto
  have "(2::int) ^ (i + 1) \<le> 2 ^ 53" using i by (intro power_increasing) auto
  then have "\<bar>acc + ?w\<bar> \<le> 2 ^ 53" using b by linarith
  then have "js_add (jint acc) (jint ?w) = jint (acc + ?w)" by (rule js_add_int)
  with Cons.IH [of "i + 1" "acc + ?w"] Cons.prems(1) b w show ?case
    by (simp add: algebra_simps del: of_int_add)
qed simp

lemma input_mask: "length (checkboxes a) \<le> 31 \<Longrightarrow> input_data a ! 1 = jint (box_mask (checkboxes a))"
  using checkbox_sum_mask [of 0 "checkboxes a" 0] by (simp add: input_data_def)

text \<open>
  The second value that is sent is the bit mask of the checkboxes: with at most 31 boxes it is the
  number whose bit \<open>i\<close> is box \<open>i\<close>, so that distinct settings send distinct numbers; a 32nd box would count
  negative, since the shift is signed.
\<close>

theorem checkbox_mask:
  assumes "length (checkboxes a) \<le> 31"
  shows "input_data a ! 1 = jint (box_mask (checkboxes a)) \<and> box_mask (checkboxes a) < 2 ^ length (checkboxes a) \<and>
    (\<forall>i < length (checkboxes a). bit (box_mask (checkboxes a)) i = checkboxes a ! i) \<and> shift_one 31 = - (2 ^ 31)"
  using assms input_mask [of a] box_mask_bounds [of "checkboxes a"] by (simp add: bit_box_mask shift_one_def)

theorem checkbox_mask_witness:
  "input_data demo_app ! 1 = jint (box_mask (checkboxes demo_app)) \<and> bit (box_mask (checkboxes demo_app)) 0"
  using checkbox_mask [of demo_app] by (simp add: demo_app_def app_init_def bit_box_mask)

definition sent_msg :: "jsnum \<Rightarrow> 'p app \<Rightarrow> msg" where
  "sent_msg now a = \<lparr>m_sequence = sequence a, m_length = 2, m_version = VERSION, m_type = TYPE_DATA, m_timestamp = now,
     m_data = Some (input_data a), m_blob = None\<rparr>"

lemma input_msg_sent: "input_msg now a = Inr (sent_msg now a)"
  by (simp add: input_msg_def Msg_def sent_msg_def no_args_def with_default_def input_data_def Let_def)

text \<open>
  What a send does in every state of the connection: the sequence number is always used up; without
  a connection it throws a TypeError, while connecting an InvalidStateError, on an open socket exactly one
  frame with the encoded message goes out on it, and on a closing or closed one the frame is dropped
  without an error.
\<close>

theorem send_outcomes:
  "case toArrayBuffer (sent_msg now a) of
     Inl e \<Rightarrow> fst (sendData now a) \<noteq> Inr ()
   | Inr bytes \<Rightarrow>
       sendData now a = (let b = a\<lparr>sequence := sequence a + 1\<rparr> in
         case conn a of
           None \<Rightarrow> (Inl TypeError, b)
         | Some i \<Rightarrow>
           (case sk_state (sockets a ! i) of
              CONNECTING \<Rightarrow> (Inl InvalidState, b)
            | OPEN \<Rightarrow> (Inr (), b\<lparr>outgoing := outgoing a @ [(i, bytes)]\<rparr>)
            | CLOSING \<Rightarrow> (Inr (), b)
            | CLOSED \<Rightarrow> (Inr (), b)))"
  by (simp add: sendData_def input_msg_sent sk_send_def Let_def split: sum.splits option.splits ready_state.splits)

text \<open>
  C23. The value that a slide of the input slider sends is the previous one: the widget runs \<open>sendData\<close> before
  it stores the new value, and \<open>sendData\<close> reads the stored one. On an open connection the frame carries the
  value before the slide, and the slider has the new value only afterwards; without a connection the
  handler throws and the slider does not move at all.
\<close>

theorem input_slider_lags:
  assumes "\<not> hasMultipleValues s" and "\<not> js_eq v (get_value s)"
    and "toArrayBuffer (sent_msg now (a\<lparr>slider_value := get_value s\<rparr>)) = Inr bytes"
  shows "input_data (a\<lparr>slider_value := get_value s\<rparr>) ! 0 = js_div (get_value s) (Fin 100) \<and>
    (conn a = Some i \<and> sk_state (sockets a ! i) = OPEN \<longrightarrow>
      outgoing (snd (slide_input now v (s, a))) = outgoing a @ [(i, bytes)] \<and>
      o_value (fst (slide_input now v (s, a))) = trimAlignValue s v) \<and>
    (conn a = None \<longrightarrow> fst (slide_input now v (s, a)) = s \<and> outgoing (snd (slide_input now v (s, a))) = outgoing a)"
proof -
  have run: "slide (input_callback now) (Some 0) v (s, a) =
    (case sendData now (a\<lparr>slider_value := get_value s\<rparr>) of
       (Inl e, a') \<Rightarrow> (Inl e, (s, a'))
     | (Inr _, a') \<Rightarrow> set_value (input_callback now) v (s, a'))"
    using assms(1,2)
    by (simp add: slide_def with_slider_at slide_target_def slide_current_def trigger_def uiHash_def sx_bind_def Let_def
        input_callback_def split: prod.splits sum.splits)
  have stored: "snd (set_value (input_callback now) v (s, a')) =
      ((let s' = refreshValue (s\<lparr>o_value := trimAlignValue s v\<rparr>) in
        if keySliding s' \<or> mouseSliding s' then s' else s'\<lparr>lastChangedValue := Some 0\<rparr>), a')" for a'
    by (simp add: set_value_def change_def with_slider_at on_slider_def trigger_def input_callback_def Let_def)
  show ?thesis
    using assms(3)
    by (auto simp: run stored input_data_def slide_input_def sendData_def input_msg_sent sk_send_def Let_def)
qed

lemma sent_msg_encodes: "\<exists>bytes. toArrayBuffer (sent_msg (Fin 0) a) = Inr bytes"
  by (simp add: toArrayBuffer_def sent_msg_def f32_set_def set_le_def Msg_bytes_def input_data_def Let_def)

theorem input_slider_lags_witness:
  "\<exists>bytes. outgoing (snd (slide_input (Fin 0) (Fin 7) (demo_slider, demo_app))) = outgoing demo_app @ [(0, bytes)] \<and>
     o_value (fst (slide_input (Fin 0) (Fin 7) (demo_slider, demo_app))) = trimAlignValue demo_slider (Fin 7)"
proof -
  have v: "get_value demo_slider = Fin 0"
    by (simp add: get_value_def trimAlignValue_def valueMin_def demo_slider_def)
  obtain bytes where "toArrayBuffer (sent_msg (Fin 0) (demo_app\<lparr>slider_value := get_value demo_slider\<rparr>)) = Inr bytes"
    using sent_msg_encodes by blast
  from input_slider_lags [OF _ _ this, of "Fin 7" 0] v demo_app_fields show ?thesis
    by (auto simp: hasMultipleValues_def demo_slider_def)
qed

subsection \<open>Choice of the node\<close>

definition last_of :: "'a list \<Rightarrow> 'a option \<Rightarrow> 'a option" where
  "last_of xs d = (if xs = [] then d else Some (last xs))"

lemma select_any_last: "select_any ns cur = last_of (filter is_websocket ns) cur"
  by (induction ns arbitrary: cur) (auto simp: last_of_def)

lemma select_named_last:
  "getParameterByName q (u ''node'') = Inr p \<Longrightarrow>
   select_named q ns cur = (Inr (), last_of (filter (\<lambda>n. is_websocket n \<and> p = Some (n_name n)) ns) cur)"
  by (induction ns arbitrary: cur) (auto simp: last_of_def)

lemma select_named_error:
  "getParameterByName q (u ''node'') = Inl e \<Longrightarrow> filter is_websocket ns \<noteq> [] \<Longrightarrow> select_named q ns cur = (Inl e, cur)"
  by (induction ns arbitrary: cur) auto

text \<open>
  C21. The node that the page connects to, after the first answer of the server: the last websocket node
  with the name in the query parameter \<open>node\<close>, if there is one, else the last websocket node; a connection
  to it is opened and one button per websocket node is shown, those with its name active. Without a
  websocket node there is no connection; a query that does not decode throws, and leaves the page
  without a node.
\<close>

theorem node_choice:
  assumes "currentNode a = None"
  shows "let ws = filter is_websocket ns; res = nodes_response (Some ns) a; b = snd res
    in case getParameterByName (search (loc a)) (u ''node'') of
         Inl e \<Rightarrow> if ws = [] then currentNode b = None else res = (Inl e, a\<lparr>nodes := Some ns\<rparr>)
       | Inr p \<Rightarrow> currentNode b = last_of (filter (\<lambda>n. p = Some (n_name n)) ws) (last_of ws None) \<and>
           (case currentNode b of
              None \<Rightarrow> conn b = conn a \<and> sockets b = sockets a
            | Some n \<Rightarrow> selector b = map (node_button n) ws \<and>
                (if 35 \<in> set (wsUrl (loc a) (n_name n)) then fst res = Inl SyntaxError
                 else sockets b = sockets a @ [WebSocket (wsUrl (loc a) (n_name n)) ''live''] \<and> conn b = Some (length (sockets a))))"
proof (cases "getParameterByName (search (loc a)) (u ''node'')")
  case (Inl e)
  have "filter is_websocket ns = [] \<Longrightarrow> select_named (search (loc a)) ns None = (Inr (), None)" for ns
    by (induction ns) (auto split: if_splits)
  then show ?thesis
    using Inl select_named_error [OF Inl, of ns] assms
    by (cases "filter is_websocket ns = []")
      (auto simp: nodes_response_def Let_def select_any_last last_of_def)
next
  case (Inr p)
  have f: "filter (\<lambda>n. is_websocket n \<and> p = Some (n_name n)) ns = filter (\<lambda>n. p = Some (n_name n)) (filter is_websocket ns)"
    by (auto intro: filter_cong)
  let ?cur = "last_of (filter (\<lambda>n. p = Some (n_name n)) (filter is_websocket ns)) (last_of (filter is_websocket ns) None)"
  define c where "c = ?cur"
  have "nodes_response (Some ns) a =
    (let b = a\<lparr>nodes := Some ns, currentNode := c\<rparr>
     in if c = None then (Inr (), b)
        else case wsConnect c (updateNodeList b) of
          (Inl e, b) \<Rightarrow> (Inl e, b) | (Inr i, b) \<Rightarrow> (Inr (), b\<lparr>conn := Some i\<rparr>))"
  proof -
    define m where "m = last_of (filter (\<lambda>n. p = Some (n_name n)) (filter is_websocket ns)) None"
    have sel: "select_named (search (loc a)) ns None = (Inr (), m)"
      using select_named_last [OF Inr, of ns None] unfolding m_def f .
    have "(if m = None then select_any ns None else m) = c"
      unfolding c_def m_def select_any_last last_of_def by simp
    with sel assms show ?thesis by (simp add: nodes_response_def Let_def)
  qed
  then show ?thesis
    using Inr c_def
    by (cases c) (auto simp: Let_def wsConnect_def updateNodeList_def)
qed

theorem node_choice_witness:
  "currentNode (snd (nodes_response (Some [demo_node]) (app_init demo_location [] :: unit app))) = Some demo_node"
proof -
  have q: "getParameterByName (search (loc (app_init demo_location [] :: unit app))) (u ''node'') = Inr None"
    by (simp add: getParameterByName_def app_init_def demo_location_def)
  have "is_websocket demo_node" by (simp add: is_websocket_def demo_node_def)
  with node_choice [of "app_init demo_location [] :: unit app" "[demo_node]"] q show ?thesis
    by (simp add: app_init_def last_of_def Let_def)
qed

text \<open>
  Leaving the page: with a connection, it and the socket of the remote-procedure client are closed;
  before there is a connection the handler throws a TypeError, and the client's socket stays open.
\<close>

theorem unload_closes:
  "case (conn a, api a) of
     (None, _) \<Rightarrow> beforeunload a = (Inl TypeError, a)
   | (Some i, Some c) \<Rightarrow> beforeunload a =
       (Inr (), a\<lparr>sockets := (sockets a)[i := sk_close (sockets a ! i)], api := Some (api_close c)\<rparr>)
   | (Some i, None) \<Rightarrow> fst (beforeunload a) = Inl TypeError"
  by (simp add: beforeunload_def close_connection_def split: option.splits)

end
