(* ===== verification/Link.thy ===== *)
theory Link
  imports VillasBinary AppRun
begin

text \<open>
  The link between the server and the browser, from end to end: that each side of the socket reads what the other
  side writes, and what that means for the application: an input of the page becomes a sample of the server, and
  the samples of the server become points of the plot.
\<close>

subsection \<open>The two formats\<close>

text \<open>The message of the browser as the server's structure.\<close>

definition cmsg_of_msg :: "msg \<Rightarrow> cmsg" where
  "cmsg_of_msg m = \<lparr>cm_reserved1 = 0, cm_type = m_type m mod 4, cm_version = m_version m mod 16, cm_id = 0,
     cm_length = m_length m, cm_sequence = m_sequence m, cm_sec = to_uint 32 (ts_sec (m_timestamp m)),
     cm_nsec = to_uint 32 (ts_nsec (m_timestamp m)),
     cm_data = (case m_data m of None \<Rightarrow> [] | Some xs \<Rightarrow> map f32_encode xs)\<rparr>"

text \<open>A sample of the server carries what a message of the browser says.\<close>

definition carries :: "msg \<Rightarrow> sample \<Rightarrow> bool" where
  "carries m smp \<longleftrightarrow> smp_sequence smp = m_sequence m \<and> smp_length smp = m_length m \<and>
     m_timestamp m = Fin (of_int (smp_sec smp) * 1000 + of_int (smp_nsec smp) / 10 ^ 6) \<and>
     m_data m \<noteq> None \<and> Some (map sd_f (take (smp_length smp) (smp_data smp))) = map_option (map to_f32) (m_data m)"

text \<open>Samples with room for \<open>n\<close> values, as the receiver allocates them.\<close>

definition room_for :: "nat \<Rightarrow> sample \<Rightarrow> bool" where
  "room_for n smp \<longleftrightarrow> n \<le> smp_capacity smp \<and> smp_capacity smp = length (smp_data smp)"

lemma encoded_is_stored:
  assumes "wf_msg m"
  shows "encoded m = wire_msg True (cmsg_of_msg m)"
  using assms
  by (rule encoded_layout)
    (simp add: wire_msg_def store_msg_def cmsg_of_msg_def head_bits_sum add.commute)

lemma cmsg_of_msg_wf:
  assumes "wf_msg m"
  shows "wf_cmsg (cmsg_of_msg m)" "cm_length (cmsg_of_msg m) = length (cm_data (cmsg_of_msg m))"
  using assms to_uint_bound [of 32 "ts_sec (m_timestamp m)"] to_uint_bound [of 32 "ts_nsec (m_timestamp m)"]
    f32_encode_bound
  by (auto simp: wf_msg_def wf_cmsg_def cmsg_of_msg_def list_all_iff split: option.splits)

lemma take_scanned_floats:
  assumes "n = length ws" and "n \<le> length ds" and "float_signals sigs n"
  shows "map sd_f (take n (map (scanned_value sigs ws ds) [0..<n] @ drop n ds)) = map f32_decode ws"
  using assms by (auto simp: scanned_value_def float_signals_def intro!: nth_equalityI)

lemma whole_ms_value:
  "t < 2 ^ 32 * 1000 \<Longrightarrow> of_nat (t div 1000) * 1000 + of_nat (t mod 1000 * 1000000) / 10 ^ 6 = (of_nat t :: rat)"
proof -
  have "of_nat (t div 1000) * 1000 + of_nat (t mod 1000) = (of_nat t :: rat)"
    by (metis div_mult_mod_eq of_nat_add of_nat_mult of_nat_numeral)
  then show ?thesis by simp
qed

lemma scanned_carries:
  assumes wf: "wf_msg m" and room: "m_length m \<le> smp_capacity smp" "smp_capacity smp = length (smp_data smp)"
    and fl: "float_signals sigs (m_length m)"
  shows "carries m (scanned sigs (cmsg_of_msg m) smp)"
proof -
  from wf obtain t where t: "m_timestamp m = jnat t" "t < 2 ^ 32 * 1000" by (auto simp: wf_msg_def elim: whole_msE)
  from wf obtain xs where xs: "m_data m = Some xs" "length xs = m_length m"
    by (auto simp: wf_msg_def split: option.splits)
  note sec = encoded_timestamp_fields [OF t(2)]
  have "map sd_f (take (m_length m) (map (scanned_value sigs (map f32_encode xs) (smp_data smp)) [0..<m_length m]
      @ drop (m_length m) (smp_data smp))) = map f32_decode (map f32_encode xs)"
    using room fl xs by (intro take_scanned_floats) auto
  then show ?thesis
    using whole_ms_value [OF t(2)]
    by (simp add: carries_def scanned_def cmsg_of_msg_def xs t sec f32_decode_encode o_def)
qed

lemma sent_stream_scanned:
  assumes "list_all wf_msg ms" and "list_all (\<lambda>m. m_version m = VERSION \<and> m_type m = TYPE_DATA) ms"
    and "list_all (\<lambda>m. m_length m \<le> vlist_length sigs) ms" and "float_signals sigs (vlist_length sigs)"
    and "length ms \<le> length smps" and "list_all (room_for (vlist_length sigs)) smps"
  shows "\<exists>out. sscan True sigs (concat (map encoded ms)) smps = Inr (length ms, length (concat (map encoded ms)), out) \<and>
     list_all2 carries ms out"
proof -
  let ?cs = "map cmsg_of_msg ms"
  have enc: "concat (map encoded ms) = concat (map (wire_msg True) ?cs)"
    using assms(1) encoded_is_stored by (auto simp: list_all_iff intro!: arg_cong [where f = concat])
  have zs: "set (zip ms smps) \<subseteq> set ms \<times> set smps" by (auto dest: set_zip_leftD set_zip_rightD)
  have acc: "list_all (\<lambda>(m, smp). accepts sigs m smp) (zip ?cs smps)"
    using assms zs cmsg_of_msg_wf
    by (fastforce simp: list_all_iff zip_map1 accepts_def room_for_def msg_verify_def cmsg_of_msg_def
        MSG_VERSION_def MSG_TYPE_DATA_def)
  have num: "numeric_signals sigs" using assms(4) by (simp add: numeric_signals_def float_signals_def)
  have "list_all2 carries ms (map (\<lambda>(m, smp). scanned sigs m smp) (zip ?cs smps))"
  proof (rule list_all2_all_nthI)
    show "length ms = length (map (\<lambda>(m, smp). scanned sigs m smp) (zip ?cs smps))" using assms(5) by simp
    fix i assume i: "i < length ms"
    have "m_length (ms ! i) \<le> vlist_length sigs" "room_for (vlist_length sigs) (smps ! i)" "wf_msg (ms ! i)"
      using assms i by (auto simp: list_all_length)
    then have "carries (ms ! i) (scanned sigs (cmsg_of_msg (ms ! i)) (smps ! i))"
      using assms(4) by (intro scanned_carries) (auto simp: room_for_def float_signals_def)
    then show "carries (ms ! i) (map (\<lambda>(m, smp). scanned sigs m smp) (zip ?cs smps) ! i)"
      using assms(5) i by simp
  qed
  with sscan_stream [OF num _ acc, of True] assms(5) show ?thesis unfolding enc by auto
qed

text \<open>
  C2. The server reads what the browser sends: \<open>sscan\<close> in the \<open>villas.web\<close> format accepts any sequence of
  messages that the browser's encoder produced (with the defaults for version and type), consumes
  every byte, and gives one sample per message with the same sequence number, length and timestamp
  and the values rounded to single precision.
\<close>

theorem browser_to_server:
  assumes "list_all wf_msg ms" and "list_all (\<lambda>m. m_version m = VERSION \<and> m_type m = TYPE_DATA) ms"
    and "list_all (\<lambda>m. m_length m \<le> vlist_length sigs) ms" and "float_signals sigs (vlist_length sigs)"
    and "length ms \<le> length smps" and "list_all (room_for (vlist_length sigs)) smps"
  shows "\<exists>out. sscan True sigs (concat (map encoded ms)) smps = Inr (length ms, length (concat (map encoded ms)), out) \<and>
     list_all2 carries ms out"
  using assms by (rule sent_stream_scanned)

definition demo_msg :: msg where
  "demo_msg = \<lparr>m_sequence = 7, m_length = 2, m_version = 2, m_type = 0, m_timestamp = Fin 1600000000123,
     m_data = Some [Fin (1/2), Fin (- 3)], m_blob = None\<rparr>"

definition demo_sample :: sample where
  "demo_sample = \<lparr>smp_sequence = 9, smp_length = 1, smp_capacity = 2, smp_flags = 0, smp_sec = 1600000000,
     smp_nsec = 5000000, smp_signals = vlist_of [FLOAT, FLOAT],
     smp_data = [\<lparr>sd_f = Fin (1/2), sd_i = 0\<rparr>, \<lparr>sd_f = Fin 0, sd_i = 0\<rparr>]\<rparr>"

lemma demo_msg_wf: "wf_msg demo_msg"
  by (simp add: wf_msg_def demo_msg_def whole_ms_def)

lemma demo_sample_wf: "wf_sample demo_sample" "float_signals (smp_signals demo_sample) (smp_length demo_sample)"
  by (simp_all add: wf_sample_def demo_sample_def float_signals_def vlist_of_def)

theorem browser_to_server_witness:
  "\<exists>out. sscan True (vlist_of [FLOAT, FLOAT]) (concat (map encoded [demo_msg])) [demo_sample] =
      Inr (1, length (concat (map encoded [demo_msg])), out) \<and> list_all2 carries [demo_msg] out"
  using browser_to_server [of "[demo_msg]" "vlist_of [FLOAT, FLOAT]" "[demo_sample]"] demo_msg_wf
  by (simp add: demo_msg_def demo_sample_def vlist_of_def float_signals_def room_for_def less_Suc_eq)

definition shows_sample :: "sample \<Rightarrow> msg \<Rightarrow> bool" where
  "shows_sample smp m \<longleftrightarrow> m_sequence m = smp_sequence smp mod 2 ^ 32 \<and> m_length m = smp_length smp \<and>
     m_version m = VERSION \<and> m_type m = TYPE_DATA \<and>
     m_timestamp m = decode_timestamp (nat (smp_sec smp mod 2 ^ 32)) (nat (smp_nsec smp mod 2 ^ 32)) \<and>
     m_data m = Some (map (to_f32 \<circ> sd_f) (take (smp_length smp) (smp_data smp)))"

lemma float_words:
  assumes "msg_from_sample smp (smp_signals smp) = Inr m" and "wf_sample smp"
    and "float_signals (smp_signals smp) (smp_length smp)"
  shows "map f32_decode (cm_data m) = map (to_f32 \<circ> sd_f) (take (smp_length smp) (smp_data smp))"
proof -
  have "from_sample_loop (smp_signals smp) 0 (take (smp_length smp) (smp_data smp)) =
      Some (map (f32_encode \<circ> sd_f) (take (smp_length smp) (smp_data smp)))"
    using assms(2,3) by (intro from_sample_loop_floats) (auto simp: float_signals_def wf_sample_def)
  with msg_from_sample_wf(12) [OF assms(1,2)]
  have "cm_data m = map (f32_encode \<circ> sd_f) (take (smp_length smp) (smp_data smp))" by simp
  then show ?thesis by (simp add: f32_decode_encode)
qed

lemma server_view_shows:
  assumes "server_ok smp" and "float_signals (smp_signals smp) (smp_length smp)"
  shows "shows_sample smp (server_view k smp)"
proof -
  from assms(1) obtain m where m: "msg_from_sample smp (smp_signals smp) = Inr m" and wf: "wf_sample smp"
    by (auto simp: server_ok_def split: sum.splits)
  with float_words [OF m wf assms(2)] show ?thesis by (simp add: shows_sample_def server_view_def m)
qed

lemma placed_list_all2:
  "(\<And>k m. m \<in> set ms \<Longrightarrow> P m (view k m)) \<Longrightarrow> list_all2 P ms (placed enc view k ms)"
  by (induction ms arbitrary: k) auto

lemma printed_stream_decoded:
  assumes "sprint True len smps = Inr (n, out)" and "list_all wf_sample smps"
    and "list_all (\<lambda>smp. float_signals (smp_signals smp) (smp_length smp)) smps"
  shows "\<exists>ms. fromArrayBufferVector now out = Inr ms \<and> list_all2 shows_sample (take n smps) ms"
proof -
  note w = sprint_web_bytes [OF assms(1,2)]
  have "list_all2 shows_sample (take n smps) (placed server_bytes server_view 0 (take n smps))"
    using w(2) assms(3) by (intro placed_list_all2 server_view_shows) (auto simp: list_all_iff dest: in_set_takeD)
  with server.vector_stream [OF w(2), of now] show ?thesis unfolding w(1) by blast
qed

text \<open>
  C1. The browser reads what the server sends: whatever prefix of the samples \<open>sprint\<close> managed to write
  into its buffer, the browser's vector decoder returns exactly one message per written sample, in
  order, with the sample's length, its sequence number and timestamp modulo the width of the fields,
  and the float values rounded to single precision.
\<close>

theorem server_to_browser:
  assumes "sprint True len smps = Inr (n, out)" and "list_all wf_sample smps"
    and "list_all (\<lambda>smp. float_signals (smp_signals smp) (smp_length smp)) smps"
  shows "\<exists>ms. fromArrayBufferVector now out = Inr ms \<and> list_all2 shows_sample (take n smps) ms"
  using assms by (rule printed_stream_decoded)

lemma demo_sprint: "\<exists>out. sprint True 100 [demo_sample] = Inr (1, out)"
proof -
  have "msg_from_sample demo_sample (smp_signals demo_sample) \<noteq> Inl ret" for ret
    by (simp add: msg_from_sample_def demo_sample_def vlist_of_def value_from_sample_def)
  then obtain m where "msg_from_sample demo_sample (smp_signals demo_sample) = Inr m"
    by (cases "msg_from_sample demo_sample (smp_signals demo_sample)") auto
  moreover have "smp_length demo_sample = 1" by (simp add: demo_sample_def)
  ultimately show ?thesis by (simp add: sprint_def MSG_LEN_def)
qed

theorem server_to_browser_witness:
  "\<exists>out ms. sprint True 100 [demo_sample] = Inr (1, out) \<and> fromArrayBufferVector (Fin 0) out = Inr ms \<and>
     list_all2 shows_sample [demo_sample] ms"
proof -
  from demo_sprint obtain out where o: "sprint True 100 [demo_sample] = Inr (1, out)" by blast
  from server_to_browser [OF this, of "Fin 0"] demo_sample_wf o show ?thesis by auto
qed

definition same_sample :: "sample \<Rightarrow> sample \<Rightarrow> bool" where
  "same_sample smp rx \<longleftrightarrow> smp_length rx = smp_length smp \<and> smp_sequence rx = smp_sequence smp mod 2 ^ 32 \<and>
     smp_sec rx = smp_sec smp mod 2 ^ 32 \<and> smp_nsec rx = smp_nsec smp mod 2 ^ 32 \<and>
     map sd_f (take (smp_length rx) (smp_data rx)) = map (to_f32 \<circ> sd_f) (take (smp_length smp) (smp_data smp))"

lemma scanned_same_sample:
  assumes m: "msg_from_sample smp (smp_signals smp) = Inr m" and wf: "wf_sample smp"
    and fl: "float_signals (smp_signals smp) (smp_length smp)" "float_signals sigs (smp_length smp)"
    and rx: "room_for (smp_length smp) rx"
  shows "same_sample smp (scanned sigs m rx)"
proof -
  note w = msg_from_sample_wf [OF m wf]
  have "map sd_f (take (smp_length smp) (map (scanned_value sigs (cm_data m) (smp_data rx)) [0..<smp_length smp]
      @ drop (smp_length smp) (smp_data rx))) = map f32_decode (cm_data m)"
    using fl(2) rx w(2,4) by (intro take_scanned_floats) (auto simp: room_for_def)
  with w(4,9-11) float_words [OF m wf fl(1)] show ?thesis
    by (simp add: same_sample_def scanned_def)
qed

text \<open>
  C4. The binary format is a round trip in both byte orders: scanning what \<open>sprint\<close> wrote, in network
  order as well as in the little-endian \<open>villas.web\<close> order, consumes the whole buffer and gives back
  each written sample's length and float values (in single precision), and its sequence number and
  timestamp modulo the width of their fields.
\<close>

theorem binary_format_roundtrip:
  assumes "sprint web len smps = Inr (n, out)" and "list_all wf_sample smps"
    and "list_all (\<lambda>smp. float_signals (smp_signals smp) (smp_length smp) \<and> smp_length smp \<le> vlist_length sigs) smps"
    and "float_signals sigs (vlist_length sigs)"
    and "n \<le> length rxs" and "list_all (room_for (vlist_length sigs)) rxs"
  shows "\<exists>rxs'. sscan web sigs out rxs = Inr (n, length out, rxs') \<and> list_all2 same_sample (take n smps) rxs'"
proof -
  from sprint_out [OF assms(1)] obtain ms where n: "n = length ms" "length ms \<le> length smps"
    and out: "out = concat (map (wire_msg web) ms)"
    and l: "list_all2 (\<lambda>smp m. msg_from_sample smp (smp_signals smp) = Inr m) (take n smps) ms" .
  have num: "numeric_signals sigs" using assms(4) by (simp add: numeric_signals_def float_signals_def)
  have at: "msg_from_sample (smps ! i) (smp_signals (smps ! i)) = Inr (ms ! i)" "wf_sample (smps ! i)"
    "float_signals (smp_signals (smps ! i)) (smp_length (smps ! i))" "smp_length (smps ! i) \<le> vlist_length sigs"
    "room_for (vlist_length sigs) (rxs ! i)" if "i < length ms" for i
    using that l n assms(2,3,5,6) by (auto simp: list_all2_conv_all_nth list_all_length)
  have acc: "list_all (\<lambda>(m, smp). accepts sigs m smp) (zip ms rxs)"
    unfolding list_all_length
  proof (intro allI impI)
    fix i assume "i < length (zip ms rxs)"
    then have i: "i < length ms" "i < length rxs" by simp_all
    show "case zip ms rxs ! i of (m, smp) \<Rightarrow> accepts sigs m smp"
      using i at(4,5) [OF i(1)] msg_from_sample_wf(1-4) [OF at(1,2) [OF i(1)]]
      by (auto simp: accepts_def room_for_def)
  qed
  have "list_all2 same_sample (take n smps) (map (\<lambda>(m, smp). scanned sigs m smp) (zip ms rxs))"
  proof (rule list_all2_all_nthI)
    show "length (take n smps) = length (map (\<lambda>(m, smp). scanned sigs m smp) (zip ms rxs))" using n assms(5) by simp
    fix i assume "i < length (take n smps)"
    then have i: "i < length ms" using n by simp
    have "same_sample (smps ! i) (scanned sigs (ms ! i) (rxs ! i))"
      using at [OF i] assms(4) by (intro scanned_same_sample) (auto simp: float_signals_def room_for_def)
    then show "same_sample (take n smps ! i) (map (\<lambda>(m, smp). scanned sigs m smp) (zip ms rxs) ! i)"
      using i n assms(5) by simp
  qed
  moreover have "length ms \<le> length rxs" using n assms(5) by simp
  ultimately show ?thesis using sscan_stream [OF num _ acc, of web] n(1) unfolding out by auto
qed

theorem binary_format_roundtrip_witness:
  "\<exists>out rxs'. sprint True 100 [demo_sample] = Inr (1, out) \<and>
     sscan True (vlist_of [FLOAT, FLOAT]) out [demo_sample] = Inr (1, length out, rxs') \<and>
     list_all2 same_sample [demo_sample] rxs'"
proof -
  from demo_sprint obtain out where o: "sprint True 100 [demo_sample] = Inr (1, out)" by blast
  have "float_signals (vlist_of [FLOAT, FLOAT]) (vlist_length (vlist_of [FLOAT, FLOAT]))"
    by (simp add: float_signals_def vlist_of_def less_Suc_eq)
  moreover have "list_all (room_for (vlist_length (vlist_of [FLOAT, FLOAT]))) [demo_sample]"
    "smp_length demo_sample \<le> vlist_length (vlist_of [FLOAT, FLOAT])"
    by (simp_all add: room_for_def demo_sample_def vlist_of_def)
  ultimately have "\<exists>rxs'. sscan True (vlist_of [FLOAT, FLOAT]) out [demo_sample] = Inr (1, length out, rxs') \<and>
     list_all2 same_sample (take 1 [demo_sample]) rxs'"
    using demo_sample_wf by (intro binary_format_roundtrip [OF o]) auto
  with o show ?thesis by auto
qed

subsection \<open>What the decoder hands to the application\<close>

text \<open>The type of a received message: every field in the range of its bits, a finite time that is not negative, and as
  many values as the length says, each one a single-precision number.\<close>

definition received_typed :: "msg \<Rightarrow> bool" where
  "received_typed m \<longleftrightarrow> m_version m < 16 \<and> m_type m < 4 \<and> m_length m < 2 ^ 16 \<and> m_sequence m < 2 ^ 32 \<and>
     is_fin (m_timestamp m) \<and> 0 \<le> num_val (m_timestamp m) \<and>
     (case m_data m of None \<Rightarrow> False | Some xs \<Rightarrow> length xs = m_length m \<and> list_all is_f32 xs)"

lemma get_le_bound: "get_le n buf k = Inr x \<Longrightarrow> x < 256 ^ n"
  using le_val_bound [of "take n (drop k buf)"] by (auto simp: get_le_def split: if_splits)

lemma dv_get_bound: "dv_get n v i = Inr x \<Longrightarrow> x < 256 ^ n"
  by (auto simp: dv_get_def dest: get_le_bound split: if_splits)

lemma f32_list_typed: "list_all is_f32 (f32_list buf k n) \<and> length (f32_list buf k n) = n"
  by (induction n arbitrary: k) (simp_all add: f32_decode_is_f32)

lemma rnd64_bounds:
  assumes "0 \<le> x" "x \<le> of_int n" "n \<le> 2 ^ 53"
  shows "0 \<le> rnd64 x" "rnd64 x \<le> of_int n"
proof -
  have "0 \<le> (of_int n :: rat)" using assms by linarith
  then have n: "\<bar>n\<bar> \<le> 2 ^ 53" using assms(3) by simp
  have "representable 53 (- 1074) (of_int 0)" by (rule representable_int) simp
  then show "0 \<le> rnd64 x" unfolding rnd64_def using assms(1) by (intro rnd_ge_representable) auto
  show "rnd64 x \<le> of_int n" unfolding rnd64_def using assms(2) representable_int [OF n] by (intro rnd_le_representable) auto
qed

lemma decoded_time_finite:
  assumes "sec < 2 ^ 32" "nsec < 2 ^ 32"
  shows "is_fin (decode_timestamp sec nsec) \<and> 0 \<le> num_val (decode_timestamp sec nsec)"
proof -
  let ?a = "js_mul (jnat sec) (Fin 1000)" and ?b = "js_mul (jnat nsec) lit_1em6"
  have a: "?a = jnat (sec * 1000)" using js_mul_int [of "int sec" 1000] assms(1) by simp
  have l: "is_fin lit_1em6" "0 \<le> num_val lit_1em6" "num_val lit_1em6 \<le> 1" by (simp_all add: lit_1em6_val)
  have n: "(of_nat nsec :: rat) \<le> of_int (2 ^ 32)" using assms(2) by (simp add: of_nat_less_iff [of nsec "2 ^ 32", where 'a = rat, simplified] less_imp_le)
  have m: "0 \<le> of_nat nsec * num_val lit_1em6" "of_nat nsec * num_val lit_1em6 \<le> of_int (2 ^ 32)"
    using l n mult_mono [of "of_nat nsec" "of_int (2 ^ 32)" "num_val lit_1em6" 1] by simp_all
  then have b: "is_fin ?b" "num_val ?b = rnd64 (of_nat nsec * num_val lit_1em6)"
    using js_mul_fin [of "jnat nsec" lit_1em6] l by simp_all
  have rb: "0 \<le> num_val ?b" "num_val ?b \<le> 2 ^ 32" using rnd64_bounds [OF m] b(2) by simp_all
  have ra: "(of_nat (sec * 1000) :: rat) \<le> 2 ^ 43" using assms(1) of_nat_le_iff [of "sec * 1000" "2 ^ 43", where 'a = rat] by simp
  have s: "0 \<le> of_nat (sec * 1000) + num_val ?b" "of_nat (sec * 1000) + num_val ?b \<le> of_int (2 ^ 53)" using ra rb by simp_all
  then have "\<bar>num_val (jnat (sec * 1000)) + num_val ?b\<bar> \<le> 2 ^ 53" by simp
  from js_add_fin [OF _ b(1) this] rnd64_bounds(1) [OF s] show ?thesis unfolding decode_timestamp_def a by simp
qed

lemma fromArrayBuffer_typed:
  assumes "fromArrayBuffer now v = Inr m"
  shows "received_typed m"
proof -
  from assms obtain bits len seq sec nsec vals blob where
    "dv_get 2 v 2 = Inr len" "dv_get 4 v 4 = Inr seq" "dv_get 4 v 8 = Inr sec" "dv_get 4 v 12 = Inr nsec"
    "Float32Array (dv_buffer v) (dv_offset v + 16) len = Inr vals"
    and m: "m = \<lparr>m_sequence = seq, m_length = len, m_version = drop_bit 4 bits AND 0xF, m_type = drop_bit 2 bits AND 0x3,
        m_timestamp = decode_timestamp sec nsec, m_data = Some vals, m_blob = blob\<rparr>"
    by (auto simp: fromArrayBuffer_def js_bind_eq_Inr Msg_def no_args_def with_default_def Let_def)
  moreover from this have "len < 2 ^ 16" "seq < 2 ^ 32" "sec < 2 ^ 32" "nsec < 2 ^ 32"
    by (auto dest!: dv_get_bound)
  moreover have "vals = f32_list (dv_buffer v) (dv_offset v + 16) len" using calculation by (simp add: Float32Array_def split: if_splits)
  ultimately show ?thesis using f32_list_typed decoded_time_finite [of sec nsec]
    by (simp add: received_typed_def and_15 and_3)
qed

lemma vector_loop_typed: "vector_loop now blob k = Inr ms \<Longrightarrow> list_all received_typed ms"
proof (induction now blob k arbitrary: ms rule: vector_loop.induct)
  case (1 now blob k)
  show ?case
  proof (cases "js_bind (DataView blob k None) (fromArrayBuffer now)")
    case (Inl e)
    with 1(2) show ?thesis by (simp add: vector_loop.simps [of now blob k] split: if_splits)
  next
    case (Inr m)
    then have "received_typed m" by (auto simp: js_bind_eq_Inr dest: fromArrayBuffer_typed)
    with Inr 1 show ?thesis by (auto simp: vector_loop.simps [of now blob k] js_bind_eq_Inr split: if_splits)
  qed
qed

text \<open>C7. Whatever bytes arrive, the messages that the vector decoder returns are well typed: version, type, length and
  sequence number lie in the ranges of their bits, the time is a finite number that is not negative, and there are
  exactly as many values as the length says, each one a single-precision number.\<close>

theorem decoded_messages_typed:
  "fromArrayBufferVector now blob = Inr ms \<Longrightarrow> list_all received_typed ms"
  unfolding fromArrayBufferVector_def by (rule vector_loop_typed)

theorem decoded_messages_typed_witness:
  "fromArrayBufferVector (Fin 0) (replicate 16 0) = Inr [\<lparr>m_sequence = 0, m_length = 0, m_version = 0, m_type = 0, m_timestamp = Fin 0,
     m_data = Some [], m_blob = Some (0, 16)\<rparr>] \<and>
   list_all received_typed [\<lparr>m_sequence = 0, m_length = 0, m_version = 0, m_type = 0, m_timestamp = Fin 0, m_data = Some [], m_blob = Some (0, 16)\<rparr>]"
proof -
  have "fromArrayBufferVector (Fin 0) (replicate 16 0) = Inr [\<lparr>m_sequence = 0, m_length = 0, m_version = 0, m_type = 0, m_timestamp = Fin 0,
     m_data = Some [], m_blob = Some (0, 16)\<rparr>]" by code_simp
  with decoded_messages_typed [OF this] show ?thesis by blast
qed

subsection \<open>From end to end\<close>

lemma open_socket_sends:
  assumes "conn a = Some i" "sk_state (sockets a ! i) = OPEN" "toArrayBuffer (sent_msg now a) = Inr bytes"
  shows "sendData now a = (Inr (), a\<lparr>sequence := sequence a + 1, outgoing := outgoing a @ [(i, bytes)]\<rparr>)"
  using assms by (simp add: sendData_def input_msg_sent sk_send_def Let_def)

lemma sent_msg_wf: "t < 2 ^ 32 * 1000 \<Longrightarrow> sequence a < 2 ^ 32 \<Longrightarrow> wf_msg (sent_msg (jnat t) a)"
  by (auto simp: wf_msg_def sent_msg_def whole_ms_def input_data_def)

lemma sent_msg_bytes: "toArrayBuffer (sent_msg now a) = Inr (encoded (sent_msg now a))"
  by (simp add: encoded_def toArrayBuffer_def sent_msg_def f32_set_def set_le_def Msg_bytes_def input_data_def Let_def)

text \<open>C5. An input of the page reaches the server: when the data socket is open, \<open>sendData\<close> (the handler of the slider and
  of the checkboxes) puts one frame on it, which the server's scanner accepts whole and turns into one sample with the
  sequence number of the page, the time of the clock, and two values: the slider's value divided by 100 in single
  precision, and exactly the bit mask of the checkboxes.\<close>

theorem input_reaches_server:
  assumes "conn a = Some i" "sk_state (sockets a ! i) = OPEN" "t < 2 ^ 32 * 1000" "sequence a < 2 ^ 32" "length (checkboxes a) \<le> 24"
    "2 \<le> vlist_length sigs" "float_signals sigs (vlist_length sigs)" "room_for (vlist_length sigs) smp"
  shows "\<exists>bytes smp'. sendData (jnat t) a = (Inr (), a\<lparr>sequence := sequence a + 1, outgoing := outgoing a @ [(i, bytes)]\<rparr>) \<and>
    sscan True sigs bytes [smp] = Inr (1, length bytes, [smp']) \<and> smp_sequence smp' = sequence a \<and> smp_length smp' = 2 \<and>
    of_int (smp_sec smp') * 1000 + of_int (smp_nsec smp') / 10 ^ 6 = (of_nat t :: rat) \<and>
    map sd_f (take 2 (smp_data smp')) = [to_f32 (js_div (slider_value a) (Fin 100)), jint (box_mask (checkboxes a))]"
proof -
  let ?m = "sent_msg (jnat t) a"
  have "\<exists>out. sscan True sigs (encoded ?m) [smp] = Inr (1, length (encoded ?m), out) \<and> list_all2 carries [?m] out"
    using sent_stream_scanned [of "[?m]" sigs "[smp]"] sent_msg_wf [OF assms(3,4)] assms(6-8) by (simp add: sent_msg_def)
  then obtain smp' where scan: "sscan True sigs (encoded ?m) [smp] = Inr (1, length (encoded ?m), [smp'])" and c: "carries ?m smp'"
    by (auto simp: list_all2_Cons1)
  have "box_mask (checkboxes a) < 2 ^ 24" "0 \<le> box_mask (checkboxes a)"
    using box_mask_bounds [of "checkboxes a"] assms(5) power_increasing [of "length (checkboxes a)" 24 "2::int"] by linarith+
  then have mask: "to_f32 (jint (box_mask (checkboxes a))) = jint (box_mask (checkboxes a))" by (intro to_f32_int) simp
  have inp: "input_data a = [js_div (slider_value a) (Fin 100), jint (box_mask (checkboxes a))]"
    using input_mask [of a] assms(5) by (simp add: input_data_def)
  have "smp_length smp' = 2" using c by (simp add: carries_def sent_msg_def)
  then have f: "smp_sequence smp' = sequence a" "smp_length smp' = 2" "of_int (smp_sec smp') * 1000 + of_int (smp_nsec smp') / 10 ^ 6 = (of_nat t :: rat)"
    "map sd_f (take 2 (smp_data smp')) = map to_f32 (input_data a)"
    using c by (simp_all add: carries_def sent_msg_def del: to_f32.simps)
  have "map sd_f (take 2 (smp_data smp')) = [to_f32 (js_div (slider_value a) (Fin 100)), jint (box_mask (checkboxes a))]"
    unfolding f(4) inp by (simp only: list.map mask)
  then show ?thesis
    by (intro exI [of _ "encoded ?m"] exI [of _ smp'] conjI open_socket_sends [OF assms(1,2) sent_msg_bytes] scan f(1-3))
qed

theorem input_reaches_server_witness:
  "\<exists>bytes smp'. sendData (jnat 1600000000123) demo_app = (Inr (), demo_app\<lparr>sequence := 1, outgoing := [(0, bytes)]\<rparr>) \<and>
    sscan True (vlist_of [FLOAT, FLOAT]) bytes [demo_sample] = Inr (1, length bytes, [smp']) \<and> sd_f (smp_data smp' ! 1) = jint 1"
proof -
  have "conn demo_app = Some 0" "sk_state (sockets demo_app ! 0) = OPEN" "sequence demo_app = 0" "checkboxes demo_app = [True, False]" "outgoing demo_app = []"
    by (simp_all add: demo_app_def app_init_def)
  moreover have "float_signals (vlist_of [FLOAT, FLOAT]) (vlist_length (vlist_of [FLOAT, FLOAT]))" "vlist_length (vlist_of [FLOAT, FLOAT]) = 2"
    by (simp_all add: float_signals_def vlist_of_def less_Suc_eq)
  moreover have "room_for 2 demo_sample" by (simp add: room_for_def demo_sample_def)
  ultimately obtain bytes smp' where s: "sendData (jnat 1600000000123) demo_app = (Inr (), demo_app\<lparr>sequence := 1, outgoing := [(0, bytes)]\<rparr>)"
    "sscan True (vlist_of [FLOAT, FLOAT]) bytes [demo_sample] = Inr (1, length bytes, [smp'])"
    and d: "map sd_f (take 2 (smp_data smp')) = [to_f32 (js_div (slider_value demo_app) (Fin 100)), jint (box_mask [True, False])]"
    using input_reaches_server [of demo_app 0 1600000000123 "vlist_of [FLOAT, FLOAT]" demo_sample] by auto
  from d have "sd_f (smp_data smp' ! 1) = jint 1"
    by (cases "smp_data smp'" rule: list.exhaust; cases "tl (smp_data smp')") auto
  with s show ?thesis by blast
qed

text \<open>The points that samples of the server add to series \<open>j\<close>.\<close>

definition sample_points :: "sample list \<Rightarrow> nat \<Rightarrow> point list" where
  "sample_points smps j =
     map (\<lambda>smp. (decode_timestamp (nat (smp_sec smp mod 2 ^ 32)) (nat (smp_nsec smp mod 2 ^ 32)), to_f32 (sd_f (smp_data smp ! j))))
       (filter (\<lambda>smp. j < smp_length smp) smps)"

lemma shown_points:
  assumes "list_all2 shows_sample smps ms" "list_all wf_sample smps"
  shows "new_points ms j = sample_points smps j"
  using assms
proof (induction rule: list_all2_induct)
  case (Cons smp smps m ms)
  then show ?case by (auto simp: new_points_def sample_points_def shows_sample_def point_of_def wf_sample_def)
qed (simp add: new_points_def sample_points_def)

text \<open>C6. The samples of the server reach the plot: when the frame that the server printed arrives, each series of the plot
  loses the points at its front that are older than the window and gains, in order, one point for every printed
  sample that has a value there, with the sample's time and its value in single precision.\<close>

theorem samples_reach_plot:
  assumes "sprint True len smps = Inr (n, out)" and "list_all wf_sample smps"
    and "list_all (\<lambda>smp. float_signals (smp_signals smp) (smp_length smp)) smps"
  shows "\<exists>b. conn_onmessage (\<lambda>_. t) out a = (Inr (), b) \<and> redrawPlot b \<and>
    (\<forall>j. series (plotData b) j =
       dropWhile (\<lambda>p. js_less (fst p) (js_sub t (xPast a))) (series (plotData a) j) @ sample_points (take n smps) j)"
proof -
  obtain ms where ms: "fromArrayBufferVector t out = Inr ms" "list_all2 shows_sample (take n smps) ms"
    using printed_stream_decoded [OF assms] by blast
  have "list_all wf_sample (take n smps)" using assms(2) by (auto simp: list_all_iff dest: in_set_takeD)
  with ms(2) have "new_points ms j = sample_points (take n smps) j" for j by (rule shown_points)
  with frame_series [of t out a] ms(1) show ?thesis by auto
qed

theorem samples_reach_plot_witness:
  "\<exists>out b. sprint True 100 [demo_sample] = Inr (1, out) \<and> conn_onmessage (\<lambda>_. Fin 0) out demo_app = (Inr (), b) \<and>
     map snd (series (plotData b) 0) = [to_f32 (Fin (1 / 2))]"
proof -
  from demo_sprint obtain out where o: "sprint True 100 [demo_sample] = Inr (1, out)" by blast
  from samples_reach_plot [OF o, of "Fin 0" demo_app] demo_sample_wf obtain b where
    b: "conn_onmessage (\<lambda>_. Fin 0) out demo_app = (Inr (), b)"
    "\<forall>j. series (plotData b) j = dropWhile (\<lambda>p. js_less (fst p) (js_sub (Fin 0) (xPast demo_app))) (series (plotData demo_app) j) @
      sample_points [demo_sample] j"
    by auto
  have "series (plotData demo_app) 0 = []" by (simp add: demo_app_def app_init_def series_def)
  with b(2) have "series (plotData b) 0 = sample_points [demo_sample] 0" by simp
  then have "map snd (series (plotData b) 0) = [to_f32 (Fin (1 / 2))]" by (simp add: sample_points_def demo_sample_def del: to_f32.simps)
  with o b(1) show ?thesis by (intro exI conjI)
qed

end
