(* ===== verification/Scripts.thy ===== *)
theory Scripts
  imports App
begin

text \<open>
  The remaining scripts of the repository. \<open>web/socket/file.js\<close> is meant to plot samples from a local file; the
  page does not load it. \<open>etc/js/config.js\<close> and \<open>etc/js/global.js\<close> compute an example configuration; what they
  take from outside (the plugins that are installed, the name of the host, the name of the log file,
  which has the time in it) are arguments.
\<close>

subsection \<open>Reading a file\<close>

definition is_break :: "nat \<Rightarrow> bool" where
  "is_break c \<longleftrightarrow> c = 13 \<or> c = 10"

text \<open>\<open>split(/[\r\n]+/g)\<close>: every run of line breaks separates two lines.\<close>

function split_lines :: "ustring \<Rightarrow> ustring list" where
  "split_lines s =
     (let line = takeWhile (\<lambda>c. \<not> is_break c) s; rest = dropWhile (\<lambda>c. \<not> is_break c) s
      in if rest = [] then [line] else line # split_lines (dropWhile is_break rest))"
  by pat_completeness auto
termination
proof (relation "measure length")
  fix s line rest :: ustring
  assume h: "line = takeWhile (\<lambda>c. \<not> is_break c) s" "rest = dropWhile (\<lambda>c. \<not> is_break c) s" "rest \<noteq> []"
  have "is_break (hd rest)" using h(3) unfolding h(2) by (metis hd_dropWhile)
  then have "length (dropWhile is_break rest) < length rest"
    using h(3) by (cases rest) (auto simp: le_imp_less_Suc length_dropWhile_le)
  also have "\<dots> \<le> length s" unfolding h(2) by (rule length_dropWhile_le)
  finally show "(dropWhile is_break rest, s) \<in> measure length" by simp
qed simp

declare split_lines.simps [simp del]

text \<open>\<open>msg.parse(line)\<close>: messages have no such method, so the call throws.\<close>

definition msg_parse :: "msg \<Rightarrow> ustring \<Rightarrow> msg js" where
  "msg_parse m line = Inl TypeError"

fun read_lines :: "jsnum \<Rightarrow> ustring list \<Rightarrow> msg list \<Rightarrow> msg list js" where
  "read_lines now [] msgs = Inr msgs"
| "read_lines now (l # ls) msgs =
     js_bind (Msg now None) (\<lambda>m. js_bind (msg_parse m l) (\<lambda>m. read_lines now ls (msgs @ [m])))"

text \<open>The rest of the handler: the property \<open>ts\<close> is missing, so the offset and the times are NaN, and the values
  are pushed into one flat array. Reading a value of a message without data throws.\<close>

fun flat_points :: "jsnum \<Rightarrow> msg list \<Rightarrow> jsval list js" where
  "flat_points offset [] = Inr []"
| "flat_points offset (m # ms) =
     (case m_data m of
        None \<Rightarrow> Inl TypeError
      | Some xs \<Rightarrow> js_bind (flat_points offset ms) (\<lambda>rest.
          Inr (JNum (js_add NaN offset) # (if xs = [] then JUndef else JNum (hd xs)) # rest)))"

definition file_onload :: "jsnum \<Rightarrow> ustring \<Rightarrow> jsval list \<Rightarrow> unit js \<times> jsval list" where
  "file_onload now contents plot_data =
     (case read_lines now (split_lines contents) [] of
        Inl e \<Rightarrow> (Inl e, plot_data)
      | Inr msgs \<Rightarrow>
          if msgs = [] then (Inr (), plot_data)
          else case flat_points (js_sub now NaN) msgs of
            Inl e \<Rightarrow> (Inl e, plot_data)
          | Inr data \<Rightarrow> (Inr (), plot_data @ [arr data]))"

fun join_breaks :: "ustring list \<Rightarrow> ustring" where
  "join_breaks [] = []"
| "join_breaks [l] = l"
| "join_breaks (l # ls) = l @ 10 # join_breaks ls"

lemma split_lines_not_Nil: "split_lines s \<noteq> []"
  by (subst split_lines.simps) (simp add: Let_def)

lemma split_join:
  assumes "ls \<noteq> []" "\<forall>l\<in>set ls. l \<noteq> [] \<and> (\<forall>c\<in>set l. \<not> is_break c)"
  shows "split_lines (join_breaks ls) = ls"
  using assms
proof (induction ls rule: join_breaks.induct)
  case (2 l)
  then have "takeWhile (\<lambda>c. \<not> is_break c) l = l" "dropWhile (\<lambda>c. \<not> is_break c) l = []"
    by (auto simp: takeWhile_eq_all_conv dropWhile_eq_Nil_conv)
  then show ?case by (subst split_lines.simps) simp
next
  case (3 l m ls)
  let ?t = "join_breaks (m # ls)"
  have l: "\<forall>c\<in>set l. \<not> is_break c" using 3 by simp
  have tw: "takeWhile (\<lambda>c. \<not> is_break c) (l @ 10 # ?t) = l" "dropWhile (\<lambda>c. \<not> is_break c) (l @ 10 # ?t) = 10 # ?t"
    using l by (auto simp: takeWhile_append dropWhile_append is_break_def takeWhile_eq_all_conv)
  obtain c m' where m: "m = c # m'" "\<not> is_break c" using 3 by (cases m) auto
  have "dropWhile is_break ?t = ?t" using m by (cases ls) auto
  then have "split_lines (l @ 10 # ?t) = l # split_lines ?t"
    using tw by (subst split_lines.simps) (simp add: is_break_def)
  with 3 show ?case by simp
qed simp

text \<open>
  Loading a file never works: whatever its text, even an empty one, the text has at least one line, the
  handler throws a TypeError at it, and the plot data stay as they were. The splitting itself does its
  work: it gives the lines back that were joined by line breaks.
\<close>

theorem file_never_loads:
  "file_onload now contents plot_data = (Inl TypeError, plot_data) \<and> split_lines contents \<noteq> [] \<and>
   split_lines (join_breaks [[65], [66, 67]]) = [[65], [66, 67]]"
proof -
  have "read_lines now ls [] = Inl TypeError" if "ls \<noteq> []" for ls
    using that by (cases ls) (simp_all add: Msg_def)
  with split_lines_not_Nil [of contents] split_join [of "[[65], [66, 67]]"] show ?thesis
    by (simp add: file_onload_def is_break_def)
qed

subsection \<open>The example configuration\<close>

definition global_config :: "ustring \<Rightarrow> ustring \<Rightarrow> (string \<times> jsval) list" where
  "global_config host logfile =
     [(''affinity'', JNum (Fin 1)), (''priority'', JNum (Fin 50)), (''stats'', JNum (Fin 3)), (''name'', JStr host),
      (''log'', obj [(''level'', JNum (Fin 5)), (''faciltities'', arr [JStr (u ''path''), JStr (u ''socket'')]), (''file'', JStr logfile)]),
      (''http'', obj [(''enabled'', JBool True), (''htdocs'', JStr (u ''/villas/web/socket/'')), (''port'', JNum (Fin 80))])]"

definition config_nodes :: "(string \<times> jsval) list" where
  "config_nodes =
     [(''loopback_node'', obj [(''vectorize'', JNum (Fin 1)), (''type'', JStr (u ''loopback'')), (''queuelen'', JNum (Fin 10240))]),
      (''socket_node'', obj [(''type'', JStr (u ''socket'')), (''local'', JStr (u ''*:12000'')), (''remote'', JStr (u ''127.0.0.1:12000''))])]"

definition config_paths :: "jsval list" where
  "config_paths =
     [obj [(''in'', JStr (u ''test_node'')), (''out'', JStr (u ''socket_node'')), (''queuelen'', JNum (Fin 10000))],
      obj [(''in'', JStr (u ''socket_node'')), (''out'', JStr (u ''test_node'')), (''queuelen'', JNum (Fin 10000)),
        (''hooks'', arr [obj [(''type'', JStr (u ''stats'')), (''warmup'', JNum (Fin 100)), (''verbose'', JBool True),
            (''format'', JStr (u ''human'')), (''output'', JStr (u ''./stats.log''))],
          obj [(''type'', JStr (u ''convert''))]])]]"

text \<open>The object that \<open>config.js\<close> prints: the global settings with plugins, nodes and paths.\<close>

definition config :: "ustring list \<Rightarrow> ustring \<Rightarrow> ustring \<Rightarrow> jsval" where
  "config plugins host logfile =
     put (put (put (obj (global_config host logfile))
       (Key (u ''plugins'')) (arr (map JStr plugins)))
       (Key (u ''nodes'')) (obj config_nodes))
       (Key (u ''paths'')) (arr config_paths)"

text \<open>The names that the paths use and the names of the nodes.\<close>

definition used_nodes :: "jsval \<Rightarrow> jsval list" where
  "used_nodes c = concat (map (\<lambda>(k, p). [get p (Key (u ''in'')), get p (Key (u ''out''))]) (elements (get c (Key (u ''paths'')))))"

definition declared :: "jsval \<Rightarrow> ustring \<Rightarrow> bool" where
  "declared c n \<longleftrightarrow> get (get c (Key (u ''nodes''))) (Key n) \<noteq> JUndef"

text \<open>
  The example configuration does not fit together: both of its paths name a node \<open>test_node\<close> that it
  does not declare, while the loopback node it declares is used by no path.
\<close>

theorem config_undeclared_node:
  "let c = config plugins host logfile
   in JStr (u ''test_node'') \<in> set (used_nodes c) \<and> \<not> declared c (u ''test_node'') \<and> declared c (u ''socket_node'') \<and>
      declared c (u ''loopback_node'') \<and> JStr (u ''loopback_node'') \<notin> set (used_nodes c)"
proof -
  let ?c = "config plugins host logfile"
  have n: "get ?c (Key (u ''nodes'')) = obj config_nodes" and p: "get ?c (Key (u ''paths'')) = arr config_paths"
    by (simp_all add: config_def get_def map_of_upd)
  have "used_nodes ?c = [JStr (u ''test_node''), JStr (u ''socket_node''), JStr (u ''socket_node''), JStr (u ''test_node'')]"
    unfolding used_nodes_def p
    by (simp add: elements_arr_map config_paths_def get_def u_def)
  then show ?thesis unfolding Let_def declared_def n by (simp add: get_def config_nodes_def u_def)
qed

end
