(* ===== verification/Callbacks.thy ===== *)
theory Callbacks
  imports JqCore
begin

text \<open>
  \<open>jQuery.Callbacks\<close>, the callback lists on which the library builds its deferred objects and with them the
  start of the application (\<open>$(document).ready\<close>). A callback may itself add, remove, fire, disable or lock
  any list while it runs. The lists are therefore a machine: a stack of tasks and a store of lists; the
  nested calls of the source are the tasks above the task that continues the interrupted loop. One step
  of the machine is one operation or one turn of a loop of \<open>fire\<close>.

  What a callback does when it is called is a parameter: the operations it performs, and whether it
  returned \<open>false\<close>. Callbacks that throw are not modelled. An operation may also be \<open>Ext x\<close>, an action on the
  state of a client, which the theory \<open>Deferred\<close> uses. \<open>'a\<close> is a context with its arguments.
\<close>

subsection \<open>A list\<close>

text \<open>\<open>cb_list\<close> is \<open>None\<close> when the list is spent (the empty text of the source), \<open>memory\<close> is \<open>None\<close> for every falsy value.\<close>

record ('f, 'a) cbs =
  o_once :: bool
  o_memory :: bool
  o_unique :: bool
  o_stopOnFalse :: bool
  firing :: bool
  memory :: "'a option"
  fired :: bool
  locked :: bool
  cb_list :: "'f list option"
  queue :: "'a list"
  firingIndex :: int

definition is_white :: "nat \<Rightarrow> bool" where
  "is_white c \<longleftrightarrow> c = 32 \<or> c = 9 \<or> c = 13 \<or> c = 10 \<or> c = 12"

text \<open>\<open>createOptions\<close>: the maximal runs of characters that are not white space are the flags.\<close>

function words_of :: "ustring \<Rightarrow> ustring list" where
  "words_of s =
     (let r = dropWhile is_white s
      in if r = [] then [] else takeWhile (\<lambda>c. \<not> is_white c) r # words_of (dropWhile (\<lambda>c. \<not> is_white c) r))"
  by pat_completeness auto
termination
proof (relation "measure length")
  fix s r :: ustring
  assume h: "r = dropWhile is_white s" "r \<noteq> []"
  have "\<not> is_white (hd r)" using h by (metis hd_dropWhile)
  then have "length (dropWhile (\<lambda>c. \<not> is_white c) r) < length r"
    using h(2) by (cases r) (auto simp: le_imp_less_Suc length_dropWhile_le)
  also have "\<dots> \<le> length s" unfolding h(1) by (rule length_dropWhile_le)
  finally show "(dropWhile (\<lambda>c. \<not> is_white c) r, s) \<in> measure length" by simp
qed simp

declare words_of.simps [simp del]

definition createOptions :: "ustring \<Rightarrow> ustring \<Rightarrow> bool" where
  "createOptions options flag \<longleftrightarrow> flag \<in> set (words_of options)"

definition Callbacks :: "ustring \<Rightarrow> ('f, 'a) cbs" where
  "Callbacks options = \<lparr>o_once = createOptions options (u ''once''), o_memory = createOptions options (u ''memory''),
     o_unique = createOptions options (u ''unique''), o_stopOnFalse = createOptions options (u ''stopOnFalse''),
     firing = False, memory = None, fired = False, locked = False, cb_list = Some [], queue = [], firingIndex = - 1\<rparr>"

subsection \<open>Operations\<close>

text \<open>The arguments of \<open>add\<close>: functions, arrays that are inspected recursively, and anything else, which is
  ignored.\<close>

datatype 'f cb_arg = FunArg 'f | ArrArg "'f cb_arg list" | OtherArg

fun flatten :: "'f cb_arg \<Rightarrow> 'f list" where
  "flatten (FunArg f) = [f]"
| "flatten (ArrArg as) = concat (map flatten as)"
| "flatten OtherArg = []"

fun push_all :: "bool \<Rightarrow> 'f list \<Rightarrow> 'f list \<Rightarrow> 'f list" where
  "push_all uniq xs [] = xs"
| "push_all uniq xs (f # fs) = push_all uniq (if uniq \<and> f \<in> set xs then xs else xs @ [f]) fs"

text \<open>\<open>remove\<close> of one function: every occurrence goes; the index of the running loop moves down for each one
  at or before it.\<close>

fun remove_fn :: "'f \<Rightarrow> nat \<Rightarrow> int \<Rightarrow> 'f list \<Rightarrow> 'f list \<times> int" where
  "remove_fn f i idx [] = ([], idx)"
| "remove_fn f i idx (x # xs) =
     (if x = f then remove_fn f i (if int i \<le> idx then idx - 1 else idx) xs
      else case remove_fn f (i + 1) idx xs of (ys, idx') \<Rightarrow> (x # ys, idx'))"

fun remove_fns :: "'f list \<Rightarrow> int \<Rightarrow> 'f list \<Rightarrow> 'f list \<times> int" where
  "remove_fns [] idx xs = (xs, idx)"
| "remove_fns (f # fs) idx xs = (case remove_fn f 0 idx xs of (ys, idx') \<Rightarrow> remove_fns fs idx' ys)"

definition cb_add :: "'f list \<Rightarrow> ('f, 'a) cbs \<Rightarrow> ('f, 'a) cbs" where
  "cb_add fs c = (case cb_list c of
     None \<Rightarrow> c
   | Some xs \<Rightarrow>
     (let c = (case memory c of
                 Some m \<Rightarrow> if firing c then c else c\<lparr>firingIndex := int (length xs) - 1, queue := queue c @ [m]\<rparr>
               | None \<Rightarrow> c)
      in c\<lparr>cb_list := Some (push_all (o_unique c) xs fs)\<rparr>))"

text \<open>Whether \<open>add\<close> goes on to \<open>fire\<close>.\<close>

definition add_fires :: "('f, 'a) cbs \<Rightarrow> bool" where
  "add_fires c \<longleftrightarrow> cb_list c \<noteq> None \<and> memory c \<noteq> None \<and> \<not> firing c"

definition cb_remove :: "'f list \<Rightarrow> ('f, 'a) cbs \<Rightarrow> ('f, 'a) cbs" where
  "cb_remove fs c = (case cb_list c of
     None \<Rightarrow> c
   | Some xs \<Rightarrow> (case remove_fns fs (firingIndex c) xs of (ys, i) \<Rightarrow> c\<lparr>cb_list := Some ys, firingIndex := i\<rparr>))"

definition cb_has :: "'f option \<Rightarrow> ('f, 'a) cbs \<Rightarrow> bool" where
  "cb_has f c = (case cb_list c of
     None \<Rightarrow> False
   | Some xs \<Rightarrow> (case f of Some f \<Rightarrow> - 1 < inArray f (Some xs) 0 | None \<Rightarrow> xs \<noteq> []))"

definition cb_empty :: "('f, 'a) cbs \<Rightarrow> ('f, 'a) cbs" where
  "cb_empty c = (if cb_list c = None then c else c\<lparr>cb_list := Some []\<rparr>)"

definition cb_disable :: "('f, 'a) cbs \<Rightarrow> ('f, 'a) cbs" where
  "cb_disable c = c\<lparr>locked := True, queue := [], cb_list := None, memory := None\<rparr>"

definition cb_disabled :: "('f, 'a) cbs \<Rightarrow> bool" where
  "cb_disabled c \<longleftrightarrow> cb_list c = None"

definition cb_lock :: "('f, 'a) cbs \<Rightarrow> ('f, 'a) cbs" where
  "cb_lock c =
     (let c = c\<lparr>locked := True, queue := []\<rparr>
      in if memory c = None \<and> \<not> firing c then c\<lparr>cb_list := None, memory := None\<rparr> else c)"

definition cb_locked :: "('f, 'a) cbs \<Rightarrow> bool" where
  "cb_locked c = locked c"

definition cb_fired :: "('f, 'a) cbs \<Rightarrow> bool" where
  "cb_fired c = fired c"

text \<open>\<open>fireWith\<close> up to the call of \<open>fire\<close>, and the begin and the end of \<open>fire\<close>.\<close>

definition enqueue :: "'a \<Rightarrow> ('f, 'a) cbs \<Rightarrow> ('f, 'a) cbs" where
  "enqueue args c = c\<lparr>queue := queue c @ [args]\<rparr>"

definition fire_begin :: "('f, 'a) cbs \<Rightarrow> ('f, 'a) cbs" where
  "fire_begin c = c\<lparr>locked := locked c \<or> o_once c, fired := True, firing := True\<rparr>"

definition fire_end :: "('f, 'a) cbs \<Rightarrow> ('f, 'a) cbs" where
  "fire_end c =
     (let c = c\<lparr>memory := if o_memory c then memory c else None, firing := False\<rparr>
      in if locked c then c\<lparr>cb_list := if memory c \<noteq> None then Some [] else None\<rparr> else c)"

text \<open>The updates of the two loops of \<open>fire\<close>.\<close>

definition list_length :: "('f, 'a) cbs \<Rightarrow> int" where
  "list_length c = (case cb_list c of None \<Rightarrow> 0 | Some xs \<Rightarrow> int (length xs))"

definition dequeue :: "('f, 'a) cbs \<Rightarrow> ('f, 'a) cbs" where
  "dequeue c = c\<lparr>memory := Some (hd (queue c)), queue := tl (queue c)\<rparr>"

definition advance :: "('f, 'a) cbs \<Rightarrow> ('f, 'a) cbs" where
  "advance c = c\<lparr>firingIndex := firingIndex c + 1\<rparr>"

definition rewind :: "('f, 'a) cbs \<Rightarrow> ('f, 'a) cbs" where
  "rewind c = c\<lparr>firingIndex := - 1\<rparr>"

definition interrupt :: "('f, 'a) cbs \<Rightarrow> ('f, 'a) cbs" where
  "interrupt c = c\<lparr>firingIndex := list_length c, memory := None\<rparr>"

subsection \<open>The machine\<close>

datatype ('f, 'a, 'x) action =
    Add nat "'f list"
  | Remove nat "'f list"
  | Fire nat 'a
  | Empty nat
  | Disable nat
  | Lock nat
  | Ext 'x

text \<open>\<open>Outer l\<close> is the head of the loop over the queue, \<open>Inner l\<close> that of the loop over the callbacks, \<open>After l b\<close> the
  return of a callback.\<close>

datatype ('f, 'a, 'x) task =
    Do "('f, 'a, 'x) action"
  | Outer nat
  | Inner nat
  | After nat bool

type_synonym ('f, 'a) lists = "nat \<Rightarrow> ('f, 'a) cbs"

type_synonym ('f, 'a, 'x) behaviour = "'f \<Rightarrow> 'a option \<Rightarrow> ('f, 'a, 'x) action list \<times> bool"

type_synonym ('f, 'a, 'x, 's) extension = "'x \<Rightarrow> 's \<Rightarrow> ('f, 'a, 'x) action list \<times> 's"

type_synonym ('f, 'a, 'x, 's) machine = "('f, 'a, 'x) task list \<times> ('f, 'a) lists \<times> 's"

fun do_action :: "('f, 'a, 'x, 's) extension \<Rightarrow> ('f, 'a, 'x) action \<Rightarrow> ('f, 'a) lists \<Rightarrow> 's \<Rightarrow> ('f, 'a, 'x, 's) machine" where
  "do_action ext (Add l fs) L s =
     (if add_fires (L l) then ([Outer l], L(l := fire_begin (cb_add fs (L l))), s) else ([], L(l := cb_add fs (L l)), s))"
| "do_action ext (Remove l fs) L s = ([], L(l := cb_remove fs (L l)), s)"
| "do_action ext (Fire l args) L s =
     (if locked (L l) then ([], L, s)
      else if firing (L l) then ([], L(l := enqueue args (L l)), s)
      else ([Outer l], L(l := fire_begin (enqueue args (L l))), s))"
| "do_action ext (Empty l) L s = ([], L(l := cb_empty (L l)), s)"
| "do_action ext (Disable l) L s = ([], L(l := cb_disable (L l)), s)"
| "do_action ext (Lock l) L s = ([], L(l := cb_lock (L l)), s)"
| "do_action ext (Ext x) L s = (case ext x s of (as, s') \<Rightarrow> (map Do as, L, s'))"

fun task_step :: "('f, 'a, 'x) behaviour \<Rightarrow> ('f, 'a, 'x, 's) extension \<Rightarrow> ('f, 'a, 'x) task \<Rightarrow> ('f, 'a) lists \<Rightarrow> 's \<Rightarrow> ('f, 'a, 'x, 's) machine" where
  "task_step beh ext (Do a) L s = do_action ext a L s"
| "task_step beh ext (Outer l) L s =
     (if queue (L l) = [] then ([], L(l := fire_end (L l)), s) else ([Inner l], L(l := dequeue (L l)), s))"
| "task_step beh ext (Inner l) L s =
     (let c = advance (L l)
      in if firingIndex c < list_length c
         then (case beh (the (cb_list c) ! nat (firingIndex c)) (memory c) of
           (as, b) \<Rightarrow> (map Do as @ [After l b], L(l := c), s))
         else ([Outer l], L(l := rewind c), s))"
| "task_step beh ext (After l b) L s =
     ([Inner l], (if b \<and> o_stopOnFalse (L l) then L(l := interrupt (L l)) else L), s)"

fun machine_step :: "('f, 'a, 'x) behaviour \<Rightarrow> ('f, 'a, 'x, 's) extension \<Rightarrow> ('f, 'a, 'x, 's) machine \<Rightarrow> ('f, 'a, 'x, 's) machine" where
  "machine_step beh ext ([], L, s) = ([], L, s)"
| "machine_step beh ext (t # ts, L, s) = (case task_step beh ext t L s of (new, L', s') \<Rightarrow> (new @ ts, L', s'))"

definition machine_run :: "('f, 'a, 'x) behaviour \<Rightarrow> ('f, 'a, 'x, 's) extension \<Rightarrow> nat \<Rightarrow> ('f, 'a, 'x, 's) machine \<Rightarrow> ('f, 'a, 'x, 's) machine" where
  "machine_run beh ext n m = (machine_step beh ext ^^ n) m"

subsection \<open>Invariants of lists\<close>

text \<open>What the operations keep of each list, the machine keeps, whatever the callbacks do.\<close>

locale list_invariant =
  fixes P :: "nat \<Rightarrow> ('f, 'a) cbs \<Rightarrow> bool"
  assumes add_keeps: "P l c \<Longrightarrow> P l (cb_add fs c)"
    and remove_keeps: "P l c \<Longrightarrow> P l (cb_remove fs c)"
    and empty_keeps: "P l c \<Longrightarrow> P l (cb_empty c)"
    and disable_keeps: "P l c \<Longrightarrow> P l (cb_disable c)"
    and lock_keeps: "P l c \<Longrightarrow> P l (cb_lock c)"
    and enqueue_keeps: "P l c \<Longrightarrow> \<not> locked c \<Longrightarrow> P l (enqueue a c)"
    and begin_keeps: "P l c \<Longrightarrow> P l (fire_begin c)"
    and end_keeps: "P l c \<Longrightarrow> P l (fire_end c)"
    and dequeue_keeps: "P l c \<Longrightarrow> queue c \<noteq> [] \<Longrightarrow> P l (dequeue c)"
    and advance_keeps: "P l c \<Longrightarrow> firingIndex c + 1 < list_length c \<Longrightarrow> P l (advance c)"
    and rewind_keeps: "P l c \<Longrightarrow> P l (rewind (advance c))"
    and interrupt_keeps: "P l c \<Longrightarrow> P l (interrupt c)"
begin

definition holds :: "('f, 'a) lists \<Rightarrow> bool" where
  "holds L \<longleftrightarrow> (\<forall>l. P l (L l))"

lemma holds_upd: "holds L \<Longrightarrow> P l c \<Longrightarrow> holds (L(l := c))"
  by (simp add: holds_def)

lemma action_keeps: "holds L \<Longrightarrow> do_action ext a L s = (ts, L', s') \<Longrightarrow> holds L'"
proof (cases a)
  case (Add l fs)
  assume h: "holds L" "do_action ext a L s = (ts, L', s')"
  have "P l (L l)" using h(1) by (simp add: holds_def)
  then have "P l (cb_add fs (L l))" "P l (fire_begin (cb_add fs (L l)))" by (simp_all add: add_keeps begin_keeps)
  with h Add show ?thesis by (auto split: if_splits intro: holds_upd)
next
  case (Fire l args)
  assume h: "holds L" "do_action ext a L s = (ts, L', s')"
  have "P l (L l)" using h(1) by (simp add: holds_def)
  then have "P l (enqueue args (L l))" "P l (fire_begin (enqueue args (L l)))" if "\<not> locked (L l)"
    using that by (simp_all add: enqueue_keeps begin_keeps)
  with h Fire show ?thesis by (auto split: if_splits intro: holds_upd)
qed (auto simp: holds_def remove_keeps empty_keeps disable_keeps lock_keeps split: prod.splits)

lemma task_keeps:
  assumes "holds L" "task_step beh ext t L s = (ts, L', s')"
  shows "holds L'"
proof (cases t)
  case (Do a)
  with assms action_keeps show ?thesis by simp
next
  case (Outer l)
  have "P l (L l)" using assms(1) by (simp add: holds_def)
  with Outer assms show ?thesis by (auto split: if_splits intro!: holds_upd end_keeps dequeue_keeps)
next
  case (Inner l)
  have p: "P l (L l)" using assms(1) by (simp add: holds_def)
  have "P l (advance (L l))" if "firingIndex (advance (L l)) < list_length (advance (L l))"
    using that p by (intro advance_keeps) (simp_all add: advance_def list_length_def)
  with Inner assms rewind_keeps [OF p] show ?thesis
    by (auto simp: Let_def split: if_splits prod.splits intro: holds_upd)
next
  case (After l b)
  have "P l (L l)" using assms(1) by (simp add: holds_def)
  with After assms show ?thesis by (auto split: if_splits intro!: holds_upd interrupt_keeps)
qed

lemma step_keeps: "holds (fst (snd m)) \<Longrightarrow> holds (fst (snd (machine_step beh ext m)))"
proof -
  assume h: "holds (fst (snd m))"
  obtain ts L s where m: "m = (ts, L, s)" by (cases m)
  show ?thesis
  proof (cases ts)
    case (Cons t ts')
    with h m task_keeps [of L beh ext t s] show ?thesis by (auto split: prod.splits)
  qed (use h m in simp)
qed

lemma run_keeps: "holds (fst (snd m)) \<Longrightarrow> holds (fst (snd (machine_run beh ext n m)))"
  unfolding machine_run_def by (induction n) (simp_all add: step_keeps)

end

text \<open>A list is in order when the index of the running loop stays within it and, with the option \<open>unique\<close>, no
  callback is in it twice.\<close>

definition list_ok :: "('f, 'a) cbs \<Rightarrow> bool" where
  "list_ok c \<longleftrightarrow> - 1 \<le> firingIndex c \<and> (case cb_list c of None \<Rightarrow> True | Some xs \<Rightarrow> o_unique c \<longrightarrow> distinct xs)"

lemma push_all_distinct: "distinct xs \<Longrightarrow> distinct (push_all True xs fs)"
  by (induction fs arbitrary: xs) auto

lemma remove_fn_ok:
  "remove_fn f i idx xs = (ys, j) \<Longrightarrow> - 1 \<le> idx \<Longrightarrow> ys = filter (\<lambda>x. x \<noteq> f) xs \<and> - 1 \<le> j"
proof (induction f i idx xs arbitrary: ys j rule: remove_fn.induct)
  case (2 f i idx x xs)
  then show ?case by (auto split: if_splits prod.splits)
qed simp

lemma remove_fns_ok:
  "remove_fns fs idx xs = (ys, j) \<Longrightarrow> - 1 \<le> idx \<Longrightarrow> ys = filter (\<lambda>x. x \<notin> set fs) xs \<and> - 1 \<le> j"
proof (induction fs arbitrary: idx xs)
  case (Cons f fs)
  obtain zs k where z: "remove_fn f 0 idx xs = (zs, k)" by fastforce
  from remove_fn_ok [OF z] Cons.prems(2) have zs: "zs = filter (\<lambda>x. x \<noteq> f) xs" and k: "- 1 \<le> k" by auto
  from Cons.prems(1) z have "remove_fns fs k zs = (ys, j)" by simp
  from Cons.IH [OF this k] show ?case by (simp add: zs conj_commute)
qed simp

lemma list_ok_add: "list_ok c \<Longrightarrow> list_ok (cb_add fs c)"
  using push_all_distinct [of _ fs] by (cases "cb_list c"; cases "memory c"; cases "o_unique c") (auto simp: list_ok_def cb_add_def Let_def)

lemma list_ok_remove: "list_ok c \<Longrightarrow> list_ok (cb_remove fs c)"
proof (cases "cb_list c")
  case (Some xs)
  assume c: "list_ok c"
  obtain ys j where r: "remove_fns fs (firingIndex c) xs = (ys, j)" by fastforce
  from c remove_fns_ok [OF r] Some r show ?thesis by (auto simp: list_ok_def cb_remove_def)
qed (simp add: list_ok_def cb_remove_def)

interpretation lists_ok: list_invariant "\<lambda>l. list_ok"
  by unfold_locales
    ((rule list_ok_add | rule list_ok_remove), assumption |
      auto simp: list_ok_def cb_empty_def cb_disable_def cb_lock_def enqueue_def fire_begin_def fire_end_def dequeue_def
      advance_def rewind_def interrupt_def list_length_def Let_def split: option.splits)+

text \<open>A locked list stays locked; a list with the option \<open>once\<close> that has fired is locked.\<close>

interpretation stays_locked: list_invariant "\<lambda>l c. l = l0 \<longrightarrow> locked c" for l0
  by unfold_locales
    (auto simp: cb_add_def cb_remove_def cb_empty_def cb_disable_def cb_lock_def enqueue_def fire_begin_def fire_end_def
      dequeue_def advance_def rewind_def interrupt_def Let_def split: option.splits prod.splits)

interpretation once_fired: list_invariant "\<lambda>l c. o_once c \<and> fired c \<longrightarrow> locked c"
  by unfold_locales
    (auto simp: cb_add_def cb_remove_def cb_empty_def cb_disable_def cb_lock_def enqueue_def fire_begin_def fire_end_def
      dequeue_def advance_def rewind_def interrupt_def Let_def split: option.splits prod.splits)

text \<open>A spent list stays spent.\<close>

definition spent :: "('f, 'a) cbs \<Rightarrow> bool" where
  "spent c \<longleftrightarrow> locked c \<and> cb_list c = None \<and> queue c = [] \<and> memory c = None"

interpretation stays_spent: list_invariant "\<lambda>l c. l = l0 \<longrightarrow> spent c" for l0
  by unfold_locales
    (auto simp: spent_def cb_add_def cb_remove_def cb_empty_def cb_disable_def cb_lock_def enqueue_def fire_begin_def
      fire_end_def dequeue_def advance_def rewind_def interrupt_def Let_def split: option.splits prod.splits)

subsection \<open>Runs\<close>

lemma run_Suc: "machine_run beh ext (Suc n) m = machine_run beh ext n (machine_step beh ext m)"
  by (simp add: machine_run_def funpow_swap1)

lemma run_0 [simp]: "machine_run beh ext 0 m = m"
  by (simp add: machine_run_def)

lemma run_add: "machine_run beh ext (a + b) m = machine_run beh ext b (machine_run beh ext a m)"
  by (simp add: machine_run_def add.commute [of a b] funpow_add)

lemma run_seq: "machine_run beh ext a m = m' \<Longrightarrow> machine_run beh ext b m' = m'' \<Longrightarrow> machine_run beh ext (a + b) m = m''"
  by (simp add: run_add)

lemmas run_steps = run_Suc numeral_eq_Suc

text \<open>Callbacks that only record their calls: each call appends the callback and its arguments to the state. \<open>r f\<close>
  tells whether \<open>f\<close> returns \<open>false\<close>.\<close>

definition recording :: "('f \<Rightarrow> bool) \<Rightarrow> ('f, 'a, 'f \<times> 'a option) behaviour" where
  "recording r f a = ([Ext (f, a)], r f)"

definition record_call :: "('f, 'a, 'f \<times> 'a option, ('f \<times> 'a option) list) extension" where
  "record_call x s = ([], s @ [x])"

abbreviation rec_run where
  "rec_run r \<equiv> machine_run (recording r) record_call"

text \<open>The callbacks that one turn of the queue calls.\<close>

fun called :: "bool \<Rightarrow> ('f \<Rightarrow> bool) \<Rightarrow> 'f list \<Rightarrow> 'f list" where
  "called stop r [] = []"
| "called stop r (f # fs) = f # (if stop \<and> r f then [] else called stop r fs)"

fun interrupted :: "bool \<Rightarrow> ('f \<Rightarrow> bool) \<Rightarrow> 'f list \<Rightarrow> bool" where
  "interrupted stop r fs \<longleftrightarrow> stop \<and> (\<exists>f \<in> set fs. r f)"

lemma called_all: "\<not> interrupted stop r fs \<Longrightarrow> called stop r fs = fs"
  by (induction fs) auto

lemma inner_run:
  assumes "cb_list c = Some (xs @ ys)" "firingIndex c = int (length xs) - 1" "memory c = Some a"
  shows "rec_run r (3 * length (called (o_stopOnFalse c) r ys) + 1) (Inner l # ts, L(l := c), s)
    = (Outer l # ts, L(l := c\<lparr>firingIndex := - 1, memory := if interrupted (o_stopOnFalse c) r ys then None else Some a\<rparr>),
       s @ map (\<lambda>f. (f, Some a)) (called (o_stopOnFalse c) r ys))"
  using assms
proof (induction ys arbitrary: xs c s)
  case Nil
  have "c\<lparr>firingIndex := - 1, memory := Some a\<rparr> = c\<lparr>firingIndex := - 1\<rparr>" using Nil by (cases c) simp
  note m = this
  from Nil show ?case by (simp add: run_steps advance_def list_length_def rewind_def m fun_eq_iff)
next
  case (Cons f fs)
  define c1 where "c1 = c\<lparr>firingIndex := int (length xs)\<rparr>"
  have c1: "cb_list c1 = Some ((xs @ [f]) @ fs)" "firingIndex c1 = int (length (xs @ [f])) - 1" "memory c1 = Some a"
    "o_stopOnFalse c1 = o_stopOnFalse c"
    using Cons.prems by (simp_all add: c1_def)
  have adv: "advance c = c1" using Cons.prems by (simp add: advance_def c1_def)
  show ?case
  proof (cases "o_stopOnFalse c \<and> r f")
    case True
    then show ?thesis using Cons.prems
      by (simp add: run_steps adv) (simp add: c1_def advance_def list_length_def recording_def record_call_def interrupt_def rewind_def fun_eq_iff)
  next
    case False
    have "rec_run r 3 (Inner l # ts, L(l := c), s) = (Inner l # ts, L(l := c1), s @ [(f, Some a)])"
      using Cons.prems False by (simp add: run_steps adv)
        (auto simp: c1_def list_length_def recording_def record_call_def fun_eq_iff)
    then have "rec_run r (3 + (3 * length (called (o_stopOnFalse c) r fs) + 1)) (Inner l # ts, L(l := c), s) =
        rec_run r (3 * length (called (o_stopOnFalse c1) r fs) + 1) (Inner l # ts, L(l := c1), s @ [(f, Some a)])"
      by (simp only: run_add c1)
    also note Cons.IH [OF c1(1-3)]
    finally have run: "rec_run r (3 + (3 * length (called (o_stopOnFalse c) r fs) + 1)) (Inner l # ts, L(l := c), s)
      = (Outer l # ts, L(l := c1\<lparr>firingIndex := - 1, memory := if interrupted (o_stopOnFalse c1) r fs then None else Some a\<rparr>),
         (s @ [(f, Some a)]) @ map (\<lambda>f. (f, Some a)) (called (o_stopOnFalse c1) r fs))" .
    have e: "called (o_stopOnFalse c) r (f # fs) = f # called (o_stopOnFalse c) r fs"
      "interrupted (o_stopOnFalse c) r (f # fs) = interrupted (o_stopOnFalse c) r fs"
      "\<And>m. c1\<lparr>firingIndex := - 1, memory := m\<rparr> = c\<lparr>firingIndex := - 1, memory := m\<rparr>"
      using False by (auto simp: c1_def)
    have n: "3 * length (f # called (o_stopOnFalse c) r fs) + 1 = 3 + (3 * length (called (o_stopOnFalse c) r fs) + 1)" by simp
    show ?thesis unfolding e n run by (simp only: c1(4) e append_assoc append.simps list.map)
  qed
qed

definition idle :: "('f, 'a) cbs \<Rightarrow> bool" where
  "idle c \<longleftrightarrow> \<not> firing c \<and> queue c = [] \<and> firingIndex c = - 1"

lemma outer_run:
  assumes "cb_list c = Some (xs @ ys)" "firingIndex c = int (length xs) - 1" "queue c = [a]"
  shows "rec_run r (3 * length (called (o_stopOnFalse c) r ys) + 3) (Outer l # ts, L(l := c), s)
    = (ts, L(l := fire_end (c\<lparr>queue := [], firingIndex := - 1,
          memory := if interrupted (o_stopOnFalse c) r ys then None else Some a\<rparr>)),
       s @ map (\<lambda>f. (f, Some a)) (called (o_stopOnFalse c) r ys))"
proof -
  define c1 where "c1 = dequeue c"
  have c1: "cb_list c1 = Some (xs @ ys)" "firingIndex c1 = int (length xs) - 1" "memory c1 = Some a"
    "o_stopOnFalse c1 = o_stopOnFalse c"
    using assms by (simp_all add: c1_def dequeue_def)
  let ?k = "3 * length (called (o_stopOnFalse c) r ys)"
  let ?c2 = "c1\<lparr>firingIndex := - 1, memory := if interrupted (o_stopOnFalse c) r ys then None else Some a\<rparr>"
  have one: "rec_run r 1 (Outer l # ts, L(l := c), s) = (Inner l # ts, L(l := c1), s)"
    using assms by (simp add: run_steps c1_def)
  have two: "rec_run r (?k + 1) (Inner l # ts, L(l := c1), s)
    = (Outer l # ts, L(l := ?c2), s @ map (\<lambda>f. (f, Some a)) (called (o_stopOnFalse c) r ys))"
    using inner_run [OF c1(1-3)] unfolding c1(4) .
  have q: "queue ?c2 = []" "?c2 = c\<lparr>queue := [], firingIndex := - 1,
      memory := if interrupted (o_stopOnFalse c) r ys then None else Some a\<rparr>"
    using assms by (simp_all add: c1_def dequeue_def)
  have three: "rec_run r 1 (Outer l # ts, L(l := ?c2), s') = (ts, L(l := fire_end ?c2), s')" for s'
    using q(1) by (simp add: run_steps)
  have n: "?k + 3 = 1 + ((?k + 1) + 1)" by simp
  show ?thesis unfolding n by (rule run_seq [OF one run_seq [OF two three, unfolded q(2)]])
qed

definition demo_list :: "ustring \<Rightarrow> (nat, nat) cbs" where
  "demo_list opts = cb_add [1, 2] (Callbacks opts)"

lemma demo_once_memory:
  "cb_list (demo_list (u ''once memory'')) = Some [1, 2]" "idle (demo_list (u ''once memory''))"
  "\<not> locked (demo_list (u ''once memory''))" "\<not> o_stopOnFalse (demo_list (u ''once memory''))"
  by code_simp+

text \<open>C32. Firing an idle list that is not locked calls its callbacks once each, in the order of the list and with the
  given arguments, up to the first one that returns \<open>false\<close> if the list stops there; the list then remembers the
  arguments when it has the option \<open>memory\<close> and was not interrupted, and is closed when it has the option \<open>once\<close>.\<close>

theorem fire_calls_in_order:
  fixes L :: "('f, 'a) lists" and r :: "'f \<Rightarrow> bool" and a :: 'a
  assumes "cb_list (L l) = Some xs" "idle (L l)" "\<not> locked (L l)"
  defines "stop \<equiv> o_stopOnFalse (L l)"
  defines "mem \<equiv> if o_memory (L l) \<and> \<not> interrupted stop r xs then Some a else None"
  shows "rec_run r (3 * length (called stop r xs) + 4) (Do (Fire l a) # ts, L, s)
    = (ts, L(l := (L l)\<lparr>locked := o_once (L l), fired := True, memory := mem,
         cb_list := if o_once (L l) then (if mem = None then None else Some []) else Some xs\<rparr>),
       s @ map (\<lambda>f. (f, Some a)) (called stop r xs))"
proof -
  define c where "c = fire_begin (enqueue a (L l))"
  have c: "cb_list c = Some ([] @ xs)" "firingIndex c = int (length []) - 1" "queue c = [a]" "o_stopOnFalse c = stop"
    using assms by (simp_all add: c_def fire_begin_def enqueue_def idle_def)
  have one: "rec_run r 1 (Do (Fire l a) # ts, L, s) = (Outer l # ts, L(l := c), s)"
    using assms by (simp add: run_steps c_def idle_def)
  have fin: "fire_end (c\<lparr>queue := [], firingIndex := - 1, memory := if interrupted stop r xs then None else Some a\<rparr>)
    = (L l)\<lparr>locked := o_once (L l), fired := True, memory := mem,
         cb_list := if o_once (L l) then (if mem = None then None else Some []) else Some xs\<rparr>"
    using assms(1-3) by (cases "L l") (auto simp: c_def fire_end_def fire_begin_def enqueue_def idle_def mem_def Let_def)
  have n: "3 * length (called stop r xs) + 4 = 1 + (3 * length (called stop r xs) + 3)" by simp
  show ?thesis unfolding n by (rule run_seq [OF one outer_run [OF c(1-3), where r = r, unfolded c(4) fin]])
qed

theorem fire_calls_in_order_witness:
  "snd (snd (rec_run (\<lambda>_. False) 10 ([Do (Fire 0 7)], \<lambda>_. demo_list (u ''once memory''), []))) = [(1, Some 7), (2, Some 7)]"
  using fire_calls_in_order [of "\<lambda>_. demo_list (u ''once memory'')" 0 "[1, 2]" "\<lambda>_. False" 7 "[]" "[]"] demo_once_memory
  by simp

lemma push_all_append: "\<exists>ys. push_all uniq xs fs = xs @ ys"
proof (induction fs arbitrary: xs)
  case (Cons f fs)
  from Cons [of "xs @ [f]"] Cons [of xs] show ?case by auto
qed simp

text \<open>A callback added to an idle list that remembers its last arguments is called at once with them; the
  callbacks that were already there are not called again.\<close>

theorem add_replays_memory:
  fixes L :: "('f, 'a) lists" and fs :: "'f list"
  assumes "cb_list (L l) = Some xs" "idle (L l)" "memory (L l) = Some a"
  defines "new \<equiv> drop (length xs) (push_all (o_unique (L l)) xs fs)"
  shows "\<exists>L'. rec_run r (3 * length (called (o_stopOnFalse (L l)) r new) + 4) (Do (Add l fs) # ts, L, s)
    = (ts, L', s @ map (\<lambda>f. (f, Some a)) (called (o_stopOnFalse (L l)) r new))"
proof -
  define c where "c = fire_begin (cb_add fs (L l))"
  from push_all_append obtain ys where ys: "push_all (o_unique (L l)) xs fs = xs @ ys" by blast
  then have new: "new = ys" by (simp add: new_def)
  have c: "cb_list c = Some (xs @ new)" "firingIndex c = int (length xs) - 1" "queue c = [a]" "o_stopOnFalse c = o_stopOnFalse (L l)"
    using assms(1-3) ys new by (simp_all add: c_def fire_begin_def cb_add_def idle_def)
  let ?k = "3 * length (called (o_stopOnFalse (L l)) r new)"
  have one: "rec_run r 1 (Do (Add l fs) # ts, L, s) = (Outer l # ts, L(l := c), s)"
    using assms(1-3) by (simp add: run_steps c_def idle_def add_fires_def)
  have n: "?k + 4 = 1 + (?k + 3)" by simp
  show ?thesis unfolding n by (rule exI, rule run_seq [OF one outer_run [OF c(1-3), unfolded c(4)]])
qed

theorem add_replays_memory_witness:
  "snd (snd (rec_run (\<lambda>_. False) 7 ([Do (Add 0 [3])], \<lambda>_. (demo_list (u ''memory''))\<lparr>memory := Some 7\<rparr>, []))) = [(3, Some 7)]"
proof -
  have "cb_list (demo_list (u ''memory'')) = Some [1, 2]" "idle (demo_list (u ''memory''))"
    "\<not> o_stopOnFalse (demo_list (u ''memory''))" "\<not> o_unique (demo_list (u ''memory''))"
    by code_simp+
  with add_replays_memory [of "\<lambda>_. (demo_list (u ''memory''))\<lparr>memory := Some 7\<rparr>" 0 "[1, 2]" 7 "\<lambda>_. False" "[3]" "[]" "[]"]
  show ?thesis by (auto simp: idle_def)
qed


definition demo_run :: "(nat, nat, nat \<times> nat option, (nat \<times> nat option) list) machine" where
  "demo_run = rec_run (\<lambda>_. False) 4 ([Do (Fire 0 7)], \<lambda>l. Callbacks (u ''once memory''), [])"


end
