(* ===== verification/Deferred.thy ===== *)
theory Deferred
  imports Callbacks
begin

text \<open>
  \<open>jQuery.Deferred\<close> with its promises, \<open>then\<close>, and the deferred \<open>readyList\<close> on which the application starts. A deferred
  is six callback lists: for each of progress, done and fail the list of the callbacks and the list of the
  handlers of \<open>then\<close>. The machine of \<open>Callbacks\<close> runs them; what a deferred keeps besides its lists (the state, the
  depth of the resolution of a \<open>then\<close>, the timers) is the state of the extension.

  The functions that the client passes are programs over the operations of deferred objects (\<open>'r prog\<close>). A
  handler of \<open>then\<close> ends with a value or an exception; a callback of \<open>done\<close>, \<open>fail\<close> or \<open>progress\<close> does not throw. The
  values of the model are those of the client, the promises of the library and \<open>undefined\<close>: a thenable of another
  library is not modelled, nor are \<open>pipe\<close>, \<open>jQuery.when\<close> and the two debugging hooks.
\<close>

subsection \<open>Values, functions and programs\<close>

datatype 'v dval = Undefined | Val 'v | Promise nat | SelfResolution

datatype 'v outcome = Returned "'v dval" | Thrown "'v dval"

type_synonym 'v call_args = "'v dval \<times> 'v dval list"

datatype pstate = Pending | Resolved | Rejected

text \<open>The functions in the lists: the callback of a client, the four functions of the constructor (set the state,
  disable the opposite list, lock progress, fire the handlers), and what \<open>resolve\<close> of \<open>then\<close> returns, for the
  deferred \<open>d\<close> of that \<open>then\<close>. The handlers of \<open>then\<close> are the functions of the client, the two substitutes, or again
  what \<open>resolve\<close> returned.\<close>

datatype 'h dfn =
    Callback 'h
  | SetState nat pstate
  | DisableOf nat
  | LockOf nat
  | FireOf nat
  | Handler 'h
  | Identity
  | Thrower
  | ResolveFn nat nat "'h dfn" bool

datatype ('v, 'h) dop =
    NewDeferred
  | Listen nat nat 'h
  | ThenOp nat "'h option" "'h option" "'h option"
  | FireWith nat nat "'v call_args"
  | ThrowLater "'v dval"

datatype ('v, 'h, 'r) prog = Ret 'r | Op "('v, 'h) dop" "nat \<Rightarrow> ('v, 'h, 'r) prog"

text \<open>The lists of a deferred: \<open>cb_of d i\<close> and \<open>handlers_of d i\<close> with \<open>i\<close> = 0 for progress, 1 for done, 2 for fail.\<close>

definition cb_of :: "nat \<Rightarrow> nat \<Rightarrow> nat" where
  "cb_of d i = 6 * d + 2 * i"

definition handlers_of :: "nat \<Rightarrow> nat \<Rightarrow> nat" where
  "handlers_of d i = 6 * d + 2 * i + 1"

text \<open>The constructor: the options of the lists, and the functions that it adds to the lists of callbacks.\<close>

definition list_options :: "nat \<Rightarrow> ustring" where
  "list_options i = (if i = 0 then u ''memory'' else u ''once memory'')"

definition own_fns :: "nat \<Rightarrow> nat \<Rightarrow> 'h dfn list" where
  "own_fns d i =
     (if i = 0 then []
      else [SetState d (if i = 1 then Resolved else Rejected), DisableOf (cb_of d (3 - i)), LockOf (cb_of d 0)])
     @ [FireOf (handlers_of d i)]"

definition deferred_lists :: "('h dfn, 'v call_args) lists" where
  "deferred_lists l =
     (let d = l div 6; i = l mod 6 div 2
      in if even l then cb_add (own_fns d i) (Callbacks (list_options i)) else Callbacks (list_options i))"

subsection \<open>Resolution\<close>

text \<open>A frame is a call of \<open>process\<close> that waits for its handler: the arguments of \<open>resolve\<close>, and the context and the
  arguments with which the handler was called. A computation is a call of a function, or the return to the
  frames below it, or a program of the client with what happens to its result.\<close>

record ('v, 'h) frame =
  depth :: nat
  target :: nat
  handler :: "'h dfn"
  special :: bool
  call_args :: "'v call_args"

datatype ('v, 'h) comp =
    Assign nat pstate
  | RunCallback "('v, 'h, unit) prog"
  | RunHandler "('v, 'h, 'v outcome) prog" "('v, 'h) frame list"
  | Call "'h dfn" "'v call_args" "('v, 'h) frame list"
  | Process "('v, 'h) frame" "('v, 'h) frame list"
  | Return "'v outcome" "('v, 'h) frame list"

text \<open>A timer runs a process, or throws an error (\<open>jQuery.readyException\<close>). An error that nothing catches is an
  uncaught error of the page.\<close>

datatype ('v, 'h) timer = ProcessTimer "('v, 'h) frame" | ThrowTimer "'v dval"

record ('v, 'h) dstate =
  next_id :: nat
  dstate :: "nat \<Rightarrow> pstate"
  maxDepth :: "nat \<Rightarrow> nat"
  timers :: "('v, 'h) timer list"
  uncaught :: "'v dval list"

type_synonym ('v, 'h) dact = "('h dfn, 'v call_args, ('v, 'h) comp) action"

type_synonym ('v, 'h) dext = "('v, 'h) dact list \<times> ('v, 'h) dstate"

definition first_arg :: "'v call_args \<Rightarrow> 'v dval" where
  "first_arg a = (case snd a of [] \<Rightarrow> Undefined | v # _ \<Rightarrow> v)"

text \<open>\<open>then\<close>: a new deferred, and one function in each list of handlers. \<open>hs\<close> are the handlers for progress, done
  and fail.\<close>

definition then_actions :: "nat \<Rightarrow> 'h dfn \<Rightarrow> 'h dfn \<Rightarrow> 'h dfn \<Rightarrow> nat \<Rightarrow> ('v, 'h) dact list" where
  "then_actions d onF onR onP new =
     [Add (handlers_of d 0) [ResolveFn 0 new onP True],
      Add (handlers_of d 1) [ResolveFn 0 new onF False],
      Add (handlers_of d 2) [ResolveFn 0 new onR False]]"

definition as_handler :: "'h dfn \<Rightarrow> 'h option \<Rightarrow> 'h dfn" where
  "as_handler other h = (case h of Some h \<Rightarrow> Handler h | None \<Rightarrow> other)"

definition dthen :: "nat \<Rightarrow> 'h option \<Rightarrow> 'h option \<Rightarrow> 'h option \<Rightarrow> ('v, 'h) dstate \<Rightarrow> ('v, 'h) dext" where
  "dthen d onF onR onP s =
     (then_actions d (as_handler Identity onF) (as_handler Thrower onR) (as_handler Identity onP) (next_id s),
      s\<lparr>next_id := next_id s + 1\<rparr>)"

text \<open>The operations of the client; the number is the deferred that the operation returned.\<close>

fun do_op :: "('v, 'h) dop \<Rightarrow> ('v, 'h) dstate \<Rightarrow> ('v, 'h) dact list \<times> ('v, 'h) dstate \<times> nat" where
  "do_op NewDeferred s = ([], s\<lparr>next_id := next_id s + 1\<rparr>, next_id s)"
| "do_op (Listen d i h) s = ([Add (cb_of d i) [Callback h]], s, d)"
| "do_op (ThenOp d onF onR onP) s = (case dthen d onF onR onP s of (as, s') \<Rightarrow> (as, s', next_id s))"
| "do_op (FireWith d i args) s = ([Fire (cb_of d i) args], s, d)"
| "do_op (ThrowLater e) s = ([], s\<lparr>timers := timers s @ [ThrowTimer e]\<rparr>, 0)"

text \<open>The end of \<open>mightThrow\<close> and \<open>process\<close> of the frame \<open>f\<close>, whose handler has ended, with the frames \<open>fs\<close> below.\<close>

definition reject_frame :: "('v, 'h) frame \<Rightarrow> 'v dval \<Rightarrow> ('v, 'h) frame list \<Rightarrow> ('v, 'h) dstate \<Rightarrow> ('v, 'h) dext" where
  "reject_frame f e fs s =
     (if special f then ([Ext (Return (Thrown e) fs)], s)
      else ((if maxDepth s (target f) \<le> depth f + 1
             then [Fire (cb_of (target f) 2) (if handler f = Thrower then call_args f else (Undefined, [e]))]
             else []) @ [Ext (Return (Returned Undefined) fs)], s))"

definition adopt :: "('v, 'h) frame \<Rightarrow> nat \<Rightarrow> ('v, 'h) dstate \<Rightarrow> ('v, 'h) dext" where
  "adopt f q s =
     (let d = target f; m = (if special f then maxDepth s d else maxDepth s d + 1); new = next_id s
      in (then_actions q (ResolveFn m d Identity (special f)) (ResolveFn m d Thrower (special f))
            (if special f then Identity else ResolveFn m d Identity True) new,
          s\<lparr>next_id := new + 1, maxDepth := (maxDepth s)(d := m)\<rparr>))"

definition settle_frame :: "('v, 'h) frame \<Rightarrow> 'v dval \<Rightarrow> ('v, 'h) dact" where
  "settle_frame f v = Fire (cb_of (target f) (if special f then 0 else 1))
     (if handler f = Identity then call_args f else (Undefined, [v]))"

definition handler_returned :: "('v, 'h) frame \<Rightarrow> 'v dval \<Rightarrow> ('v, 'h) frame list \<Rightarrow> ('v, 'h) dstate \<Rightarrow> ('v, 'h) dext" where
  "handler_returned f v fs s =
     (if v = Promise (target f) then reject_frame f SelfResolution fs s
      else case v of
        Promise q \<Rightarrow> (case adopt f q s of (as, s') \<Rightarrow> (as @ [Ext (Return (Returned Undefined) fs)], s'))
      | _ \<Rightarrow> ([settle_frame f v, Ext (Return (Returned Undefined) fs)], s))"

fun d_return :: "'v outcome \<Rightarrow> ('v, 'h) frame list \<Rightarrow> ('v, 'h) dstate \<Rightarrow> ('v, 'h) dext" where
  "d_return (Returned v) [] s = ([], s)"
| "d_return (Thrown e) [] s = ([], s\<lparr>uncaught := uncaught s @ [e]\<rparr>)"
| "d_return (Returned v) (f # fs) s = handler_returned f v fs s"
| "d_return (Thrown e) (f # fs) s = reject_frame f e fs s"

definition process :: "('v, 'h) frame \<Rightarrow> ('v, 'h) frame list \<Rightarrow> ('v, 'h) dstate \<Rightarrow> ('v, 'h) dext" where
  "process f fs s =
     (if depth f < maxDepth s (target f) then ([Ext (Return (Returned Undefined) fs)], s)
      else ([Ext (Call (handler f) (call_args f) (f # fs))], s))"

text \<open>What \<open>resolve\<close> returned, when it is called: the process runs at once or with a timer.\<close>

definition resolve_fn :: "nat \<Rightarrow> nat \<Rightarrow> 'h dfn \<Rightarrow> bool \<Rightarrow> 'v call_args \<Rightarrow> ('v, 'h) frame" where
  "resolve_fn dep d h sp args = \<lparr>depth = dep, target = d, handler = h, special = sp, call_args = args\<rparr>"

fun d_call :: "('h \<Rightarrow> 'v call_args \<Rightarrow> ('v, 'h, 'v outcome) prog) \<Rightarrow> 'h dfn \<Rightarrow> 'v call_args \<Rightarrow> ('v, 'h) frame list \<Rightarrow> ('v, 'h) dstate
    \<Rightarrow> ('v, 'h) dext" where
  "d_call code Identity args fs s = ([Ext (Return (Returned (first_arg args)) fs)], s)"
| "d_call code Thrower args fs s = ([Ext (Return (Thrown (first_arg args)) fs)], s)"
| "d_call code (Handler h) args fs s = ([Ext (RunHandler (code h args) fs)], s)"
| "d_call code (ResolveFn dep d h sp) args fs s =
     (if 0 < dep then ([Ext (Process (resolve_fn dep d h sp args) fs)], s)
      else ([Ext (Return (Returned Undefined) fs)], s\<lparr>timers := timers s @ [ProcessTimer (resolve_fn dep d h sp args)]\<rparr>))"
| "d_call code _ args fs s = ([Ext (Return (Returned Undefined) fs)], s)"

fun d_ext :: "('h \<Rightarrow> 'v call_args \<Rightarrow> ('v, 'h, 'v outcome) prog) \<Rightarrow> ('h dfn, 'v call_args, ('v, 'h) comp, ('v, 'h) dstate) extension" where
  "d_ext code (Assign d st) s = ([], s\<lparr>dstate := (dstate s)(d := st)\<rparr>)"
| "d_ext code (RunCallback (Ret r)) s = ([], s)"
| "d_ext code (RunCallback (Op opr k)) s = (case do_op opr s of (as, s', n) \<Rightarrow> (as @ [Ext (RunCallback (k n))], s'))"
| "d_ext code (RunHandler (Ret r) fs) s = ([Ext (Return r fs)], s)"
| "d_ext code (RunHandler (Op opr k) fs) s = (case do_op opr s of (as, s', n) \<Rightarrow> (as @ [Ext (RunHandler (k n) fs)], s'))"
| "d_ext code (Call f args fs) s = d_call code f args fs s"
| "d_ext code (Process f fs) s = process f fs s"
| "d_ext code (Return r fs) s = d_return r fs s"

text \<open>What the functions of a list do when the list calls them.\<close>

fun d_beh :: "('h \<Rightarrow> 'v call_args \<Rightarrow> ('v, 'h, unit) prog) \<Rightarrow> ('h dfn, 'v call_args, ('v, 'h) comp) behaviour" where
  "d_beh cb (Callback h) a = (case a of None \<Rightarrow> ([], False) | Some args \<Rightarrow> ([Ext (RunCallback (cb h args))], False))"
| "d_beh cb (SetState d st) a = ([Ext (Assign d st)], False)"
| "d_beh cb (DisableOf l) a = ([Disable l], False)"
| "d_beh cb (LockOf l) a = ([Lock l], False)"
| "d_beh cb (FireOf l) a = (case a of None \<Rightarrow> ([], False) | Some args \<Rightarrow> ([Fire l args], False))"
| "d_beh cb f a = (case a of None \<Rightarrow> ([], False) | Some args \<Rightarrow> ([Ext (Call f args [])], False))"

subsection \<open>The page\<close>

text \<open>The machine with the events of the page: when no call is running, the browser runs the next timer or starts
  a program of the client.\<close>

type_synonym ('v, 'h) dmachine = "('h dfn, 'v call_args, ('v, 'h) comp, ('v, 'h) dstate) machine"

definition d_init :: "('v, 'h) dmachine" where
  "d_init = ([], deferred_lists, \<lparr>next_id = 0, dstate = \<lambda>_. Pending, maxDepth = \<lambda>_. 0, timers = [], uncaught = []\<rparr>)"

definition d_machine_step :: "('h \<Rightarrow> 'v call_args \<Rightarrow> ('v, 'h, unit) prog) \<Rightarrow> ('h \<Rightarrow> 'v call_args \<Rightarrow> ('v, 'h, 'v outcome) prog)
    \<Rightarrow> ('v, 'h) dmachine \<Rightarrow> ('v, 'h) dmachine" where
  "d_machine_step cb code = machine_step (d_beh cb) (d_ext code)"

fun timer_comp :: "('v, 'h) timer \<Rightarrow> ('v, 'h) comp" where
  "timer_comp (ProcessTimer f) = Process f []"
| "timer_comp (ThrowTimer e) = Return (Thrown e) []"

definition timer_start :: "('v, 'h) dmachine \<Rightarrow> ('v, 'h) dmachine" where
  "timer_start m = (case m of (ts, L, s) \<Rightarrow>
     (Do (Ext (timer_comp (hd (timers s)))) # ts, L, s\<lparr>timers := tl (timers s)\<rparr>))"

definition client_start :: "('v, 'h, unit) prog \<Rightarrow> ('v, 'h) dmachine \<Rightarrow> ('v, 'h) dmachine" where
  "client_start p m = (case m of (ts, L, s) \<Rightarrow> (Do (Ext (RunCallback p)) # ts, L, s))"

inductive d_step :: "('h \<Rightarrow> 'v call_args \<Rightarrow> ('v, 'h, unit) prog) \<Rightarrow> ('h \<Rightarrow> 'v call_args \<Rightarrow> ('v, 'h, 'v outcome) prog)
    \<Rightarrow> ('v, 'h) dmachine \<Rightarrow> ('v, 'h) dmachine \<Rightarrow> bool" for cb code where
  running: "fst m \<noteq> [] \<Longrightarrow> d_step cb code m (d_machine_step cb code m)"
| timer: "fst m = [] \<Longrightarrow> timers (snd (snd m)) \<noteq> [] \<Longrightarrow> d_step cb code m (timer_start m)"
| client: "fst m = [] \<Longrightarrow> d_step cb code m (client_start p m)"

inductive d_reach :: "('h \<Rightarrow> 'v call_args \<Rightarrow> ('v, 'h, unit) prog) \<Rightarrow> ('h \<Rightarrow> 'v call_args \<Rightarrow> ('v, 'h, 'v outcome) prog)
    \<Rightarrow> ('v, 'h) dmachine \<Rightarrow> bool" for cb code where
  init: "d_reach cb code d_init"
| step: "d_reach cb code m \<Longrightarrow> d_step cb code m m' \<Longrightarrow> d_reach cb code m'"

subsection \<open>A deferred is settled at most once\<close>

text \<open>The functions of the constructor stand only in the lists of their own deferred; no action of the library
  removes functions, and none but those functions disables a list or assigns a state.\<close>

fun plain :: "'h dfn \<Rightarrow> bool" where
  "plain (SetState d st) = False"
| "plain (DisableOf l) = False"
| "plain (LockOf l) = False"
| "plain f = True"

fun is_assign :: "('v, 'h) comp \<Rightarrow> bool" where
  "is_assign (Assign d st) = True"
| "is_assign x = False"

fun neutral :: "('v, 'h) dact \<Rightarrow> bool" where
  "neutral (Add l fs) = list_all plain fs"
| "neutral (Fire l a) = True"
| "neutral (Ext x) = (\<not> is_assign x)"
| "neutral a = False"

definition own :: "nat \<Rightarrow> 'h dfn \<Rightarrow> bool" where
  "own l f \<longleftrightarrow> plain f \<or> even l \<and> f \<in> set (own_fns (l div 6) (l mod 6 div 2))"

fun members :: "('f, 'a) cbs \<Rightarrow> 'f set" where
  "members c = (case cb_list c of None \<Rightarrow> {} | Some xs \<Rightarrow> set xs)"

declare members.simps [simp del]

lemma do_op_neutral: "do_op opr s = (as, s', n) \<Longrightarrow> list_all neutral as \<and> dstate s' = dstate s"
  by (cases opr) (auto simp: dthen_def then_actions_def)

lemma reject_neutral: "reject_frame f e fs s = (as, s') \<Longrightarrow> list_all neutral as \<and> dstate s' = dstate s"
  by (auto simp: reject_frame_def split: if_splits)

lemma returned_neutral: "handler_returned f v fs s = (as, s') \<Longrightarrow> list_all neutral as \<and> dstate s' = dstate s"
  using reject_neutral [of f SelfResolution fs s as s']
  by (auto simp: handler_returned_def adopt_def then_actions_def settle_frame_def Let_def split: if_splits dval.splits)

lemma return_neutral: "d_return r fs s = (as, s') \<Longrightarrow> list_all neutral as \<and> dstate s' = dstate s"
  by (cases r; cases fs) (auto dest: reject_neutral returned_neutral)

lemma call_neutral: "d_call code f args fs s = (as, s') \<Longrightarrow> list_all neutral as \<and> dstate s' = dstate s"
  by (cases f) (auto split: if_splits)

lemma process_neutral: "process f fs s = (as, s') \<Longrightarrow> list_all neutral as \<and> dstate s' = dstate s"
  by (auto simp: process_def split: if_splits)

lemma ext_neutral:
  assumes "d_ext code x s = (as, s')"
  shows "list_all neutral as \<and> (\<not> is_assign x \<longrightarrow> dstate s' = dstate s)"
proof (cases x)
  case (RunCallback p)
  with assms show ?thesis by (cases p) (auto split: prod.splits dest: do_op_neutral)
next
  case (RunHandler p fs)
  with assms show ?thesis by (cases p) (auto split: prod.splits dest: do_op_neutral)
qed (use assms in \<open>auto dest: return_neutral call_neutral process_neutral\<close>)

lemma beh_plain: "plain f \<Longrightarrow> d_beh cb f a = (as, b) \<Longrightarrow> list_all neutral as"
  by (cases f) (auto split: option.splits)

lemma cb_of_parts [simp]: "i < 3 \<Longrightarrow> cb_of d i div 6 = d" "i < 3 \<Longrightarrow> cb_of d i mod 6 div 2 = i" "even (cb_of d i)"
  by (auto simp: cb_of_def)

lemma cb_of_inj: "i < 3 \<Longrightarrow> j < 3 \<Longrightarrow> cb_of d i = cb_of e j \<longleftrightarrow> d = e \<and> i = j"
  by (metis cb_of_parts)

lemma even_cb_of: "even l \<Longrightarrow> l = cb_of (l div 6) (l mod 6 div 2)" "l mod 6 div 2 < (3::nat)"
  unfolding cb_of_def by presburger+

definition final :: "nat \<Rightarrow> pstate" where
  "final i = (if i = 1 then Resolved else Rejected)"

lemma beh_own:
  assumes "own l f" "d_beh cb f a = (as, b)"
  shows "list_all neutral as \<or> (\<exists>d i. i \<in> {1, 2} \<and> l = cb_of d i \<and>
    (as = [Ext (Assign d (final i))] \<or> as = [Disable (cb_of d (3 - i))] \<or> as = [Lock (cb_of d 0)]))"
proof (cases "plain f")
  case True
  with assms show ?thesis using beh_plain by blast
next
  case False
  let ?d = "l div 6" and ?i = "l mod 6 div 2"
  from assms(1) False have e: "even l" and f: "f \<in> set (own_fns ?d ?i)" by (auto simp: own_def)
  define d i where "d = ?d" and "i = ?i"
  from f have f: "f \<in> set (own_fns d i)" by (simp add: d_def i_def)
  with False have i: "i \<noteq> 0" by (auto simp: own_fns_def split: if_splits)
  then have "i \<in> {1, 2}" using even_cb_of(2) [of l] by (auto simp: i_def)
  moreover have "as = [Ext (Assign d (final i))] \<or> as = [Disable (cb_of d (3 - i))] \<or> as = [Lock (cb_of d 0)]"
    using f False i assms(2) by (auto simp: own_fns_def final_def)
  ultimately show ?thesis using even_cb_of(1) [OF e] unfolding d_def i_def by blast
qed

lemma members_ops:
  "members (cb_add fs c) \<subseteq> members c \<union> set fs" "members (cb_remove fs c) \<subseteq> members c" "members (cb_empty c) \<subseteq> members c"
  "members (cb_disable c) \<subseteq> members c" "members (cb_lock c) \<subseteq> members c" "members (enqueue a c) = members c"
  "members (fire_begin c) = members c" "members (fire_end c) \<subseteq> members c" "members (dequeue c) = members c"
  "members (advance c) = members c" "members (rewind c) = members c" "members (interrupt c) = members c"
proof -
  have push: "set (push_all uniq xs fs) \<subseteq> set xs \<union> set fs" for uniq and xs fs :: "'a list"
  proof (induction fs arbitrary: xs)
    case (Cons f fs)
    from Cons [of xs] Cons [of "xs @ [f]"] show ?case by auto
  qed simp
  then show "members (cb_add fs c) \<subseteq> members c \<union> set fs"
    by (force simp: members.simps cb_add_def Let_def split: option.splits)
  have "fst (remove_fn f i idx xs) = filter (\<lambda>x. x \<noteq> f) xs" for f i idx and xs :: "'a list"
    by (induction xs arbitrary: i idx) (auto split: prod.splits, metis fst_conv)
  then have "set (fst (remove_fns fs idx xs)) \<subseteq> set xs" for fs idx and xs :: "'a list"
  proof (induction fs arbitrary: idx xs)
    case (Cons f fs)
    obtain ys j where r: "remove_fn f 0 idx xs = (ys, j)" by fastforce
    with Cons.prems [of f 0 idx xs] have "set ys \<subseteq> set xs" by auto
    with Cons.IH [of j ys] Cons.prems r show ?case by auto
  qed simp
  from this [of fs "firingIndex c"] show "members (cb_remove fs c) \<subseteq> members c"
    by (auto simp: members.simps cb_remove_def split: option.splits prod.splits) (metis fst_conv subsetD)
qed (auto simp: members.simps cb_empty_def cb_disable_def cb_lock_def enqueue_def fire_begin_def fire_end_def dequeue_def
    advance_def rewind_def interrupt_def Let_def split: option.splits)

fun tame :: "('h dfn, 'v call_args, ('v, 'h) comp) task \<Rightarrow> bool" where
  "tame (Do (Add l fs)) = list_all plain fs"
| "tame t = True"

lemma tame_neutral: "list_all neutral as \<Longrightarrow> list_all tame (map Do as)"
proof (induction as)
  case (Cons a as)
  then show ?case by (cases a) auto
qed simp

definition owned :: "('h dfn, 'v call_args) lists \<Rightarrow> bool" where
  "owned L \<longleftrightarrow> (\<forall>l. \<forall>f \<in> members (L l). own l f)"

lemma owned_upd: "owned L \<Longrightarrow> members c \<subseteq> members (L l) \<union> {f. plain f} \<Longrightarrow> owned (L(l := c))"
  by (auto simp: owned_def own_def)

lemma owned_same: "owned L \<Longrightarrow> members c \<subseteq> members (L l) \<Longrightarrow> owned (L(l := c))"
  by (auto intro: owned_upd)

lemma members_firing: "members (fire_begin c) = members c" "members (enqueue a c) = members c"
  by (simp_all add: members_ops)

lemmas members_sub = members_ops(2-5,8) eq_refl [OF members_ops(6)] eq_refl [OF members_ops(7)] eq_refl [OF members_ops(9)]
  eq_refl [OF members_ops(10)] eq_refl [OF members_ops(12)]

lemma current_member:
  assumes "lists_ok.holds L" "firingIndex (advance (L l)) < list_length (advance (L l))"
  shows "the (cb_list (advance (L l))) ! nat (firingIndex (advance (L l))) \<in> members (L l)"
proof -
  have "- 1 \<le> firingIndex (L l)" using assms(1) by (simp add: lists_ok.holds_def list_ok_def)
  with assms(2) show ?thesis by (auto simp: members.simps advance_def list_length_def split: option.splits)
qed

text \<open>What every step keeps, of all deferred objects at once.\<close>

definition sound :: "('v, 'h) dmachine \<Rightarrow> bool" where
  "sound m \<longleftrightarrow> list_all tame (fst m) \<and> owned (fst (snd m)) \<and> lists_ok.holds (fst (snd m))"

abbreviation d_task where
  "d_task cb code \<equiv> task_step (d_beh cb) (d_ext code)"

lemma tame_beh: "own l f \<Longrightarrow> d_beh cb f a = (as, b) \<Longrightarrow> list_all tame (map Do as)"
  using beh_own [of l f cb a as b] tame_neutral by auto

lemma action_sound:
  assumes "owned L" "tame (Do a)" "do_action (d_ext code) a L s = (new, L', s')"
  shows "owned L' \<and> list_all tame new"
proof (cases a)
  case (Add l fs)
  then have fs: "set fs \<subseteq> {f. plain f}" using assms(2) by (auto simp: list_all_iff)
  then have "members (cb_add fs (L l)) \<subseteq> members (L l) \<union> {f. plain f}" using members_ops(1) [of fs "L l"] by (meson subset_trans Un_mono order_refl)
  then have "owned (L(l := cb_add fs (L l)))" "owned (L(l := fire_begin (cb_add fs (L l))))"
    using owned_upd [OF assms(1)] by (simp_all only: members_firing)
  with assms(3) Add show ?thesis by (cases "add_fires (L l)") auto
next
  case (Ext x)
  obtain as s'' where e: "d_ext code x s = (as, s'')" by fastforce
  with ext_neutral [OF e] tame_neutral assms Ext show ?thesis by auto
qed (use assms in \<open>auto split: if_splits intro!: owned_same members_sub simp: members_firing\<close>)

lemma task_sound:
  assumes "owned L" "lists_ok.holds L" "tame t" "d_task cb code t L s = (new, L', s')"
  shows "owned L' \<and> list_all tame new"
proof (cases t)
  case (Do a)
  with assms action_sound show ?thesis by simp
next
  case (Outer l)
  with assms show ?thesis by (auto split: if_splits intro!: owned_same members_sub)
next
  case (Inner l)
  show ?thesis
  proof (cases "firingIndex (advance (L l)) < list_length (advance (L l))")
    case True
    let ?f = "the (cb_list (advance (L l))) ! nat (firingIndex (advance (L l)))"
    obtain as b where b: "d_beh cb ?f (memory (advance (L l))) = (as, b)" by fastforce
    have "own l ?f" using current_member [OF assms(2) True] assms(1) by (auto simp: owned_def)
    from tame_beh [OF this b] Inner True b assms show ?thesis by (auto intro!: owned_same members_sub simp: Let_def)
  qed (use Inner assms in \<open>auto intro!: owned_same simp: Let_def members_ops\<close>)
next
  case (After l b)
  with assms show ?thesis by (auto split: if_splits intro!: owned_same members_sub)
qed

lemma machine_sound:
  assumes "sound m"
  shows "sound (d_machine_step cb code m)"
proof -
  obtain ts L s where m: "m = (ts, L, s)" by (cases m)
  have "lists_ok.holds (fst (snd (d_machine_step cb code m)))"
    using assms lists_ok.step_keeps [of m "d_beh cb" "d_ext code"] by (simp add: sound_def d_machine_step_def)
  then show ?thesis
    using assms m task_sound [of L _ cb code s]
    by (cases ts) (auto simp: sound_def d_machine_step_def split: prod.splits)
qed

lemma push_all_plain [simp]: "push_all False xs fs = xs @ fs"
  by (induction fs arbitrary: xs) auto

lemma list_opts:
  "createOptions (u ''memory'') (u ''once'') = False" "createOptions (u ''memory'') (u ''memory'') = True"
  "createOptions (u ''memory'') (u ''unique'') = False" "createOptions (u ''memory'') (u ''stopOnFalse'') = False"
  "createOptions (u ''once memory'') (u ''once'') = True" "createOptions (u ''once memory'') (u ''memory'') = True"
  "createOptions (u ''once memory'') (u ''unique'') = False" "createOptions (u ''once memory'') (u ''stopOnFalse'') = False"
  by code_simp+

lemma fresh_lists:
  "lists_ok.holds deferred_lists" "owned deferred_lists"
proof -
  have c: "cb_list (deferred_lists l) = Some (if even l then own_fns (l div 6) (l mod 6 div 2) else [])"
    "firingIndex (deferred_lists l) = - 1" "\<not> o_unique (deferred_lists l)" for l
    using list_opts by (auto simp: deferred_lists_def cb_add_def Callbacks_def Let_def list_options_def)
  show "lists_ok.holds deferred_lists" by (simp add: lists_ok.holds_def list_ok_def c)
  show "owned deferred_lists" by (auto simp: owned_def members.simps c own_def split: if_splits)
qed

text \<open>A pending deferred: its lists wait, and no task of the stack concerns them.\<close>

fun quiet :: "nat \<Rightarrow> ('h dfn, 'v call_args, ('v, 'h) comp) task \<Rightarrow> bool" where
  "quiet d (Do a) \<longleftrightarrow> neutral a \<or> (\<exists>e st. e \<noteq> d \<and> a = Ext (Assign e st)) \<or>
     (\<exists>e i. e \<noteq> d \<and> i \<in> {1, 2} \<and> a = Disable (cb_of e i)) \<or> (\<exists>e. a = Lock (cb_of e 0))"
| "quiet d (Outer l) \<longleftrightarrow> l \<noteq> cb_of d 1 \<and> l \<noteq> cb_of d 2"
| "quiet d (Inner l) \<longleftrightarrow> l \<noteq> cb_of d 1 \<and> l \<noteq> cb_of d 2"
| "quiet d (After l b) \<longleftrightarrow> l \<noteq> cb_of d 1 \<and> l \<noteq> cb_of d 2"

definition waiting :: "nat \<Rightarrow> nat \<Rightarrow> ('h dfn, 'v call_args) cbs \<Rightarrow> bool" where
  "waiting d i c \<longleftrightarrow> (\<exists>us. cb_list c = Some (own_fns d i @ us)) \<and> idle c \<and> \<not> locked c \<and> memory c = None \<and>
     o_once c \<and> o_memory c \<and> \<not> o_unique c \<and> \<not> o_stopOnFalse c"

definition pending :: "nat \<Rightarrow> ('v, 'h) dmachine \<Rightarrow> bool" where
  "pending d m \<longleftrightarrow> (case m of (ts, L, s) \<Rightarrow>
     dstate s d = Pending \<and> waiting d 1 (L (cb_of d 1)) \<and> waiting d 2 (L (cb_of d 2)) \<and> list_all (quiet d) ts)"

definition settled :: "nat \<Rightarrow> nat \<Rightarrow> ('v, 'h) dmachine \<Rightarrow> bool" where
  "settled d i m \<longleftrightarrow> (case m of (ts, L, s) \<Rightarrow>
     i \<in> {1, 2} \<and> dstate s d = final i \<and> spent (L (cb_of d (3 - i))) \<and>
     (\<forall>st. Do (Ext (Assign d st)) \<in> set ts \<longrightarrow> st = final i))"

lemma quiet_neutral: "list_all neutral as \<Longrightarrow> list_all (quiet d) (map Do as)"
  by (auto simp: list_all_iff)

lemma waiting_add: "waiting d i c \<Longrightarrow> waiting d i (cb_add fs c) \<and> \<not> add_fires c"
  by (auto simp: waiting_def cb_add_def idle_def add_fires_def)

lemma quiet_action:
  assumes "quiet d (Do a)" "\<And>i b. i \<in> {1, 2} \<Longrightarrow> a \<noteq> Fire (cb_of d i) b" "do_action (d_ext code) a L s = (new, L', s')"
    "waiting d 1 (L (cb_of d 1))" "waiting d 2 (L (cb_of d 2))"
  shows "list_all (quiet d) new \<and> dstate s' d = dstate s d \<and> waiting d 1 (L' (cb_of d 1)) \<and> waiting d 2 (L' (cb_of d 2))"
proof (cases a)
  case (Add l fs)
  with assms(3-5) waiting_add [of d 1 "L (cb_of d 1)" fs] waiting_add [of d 2 "L (cb_of d 2)" fs]
  show ?thesis by (auto split: if_splits)
next
  case (Fire l b)
  with assms(2) [of 1 b] assms(2) [of 2 b] assms(3-5) show ?thesis by (auto split: if_splits)
next
  case (Disable l)
  with assms show ?thesis by (auto simp: cb_of_inj)
next
  case (Lock l)
  with assms show ?thesis by (auto simp: cb_of_inj)
next
  case (Ext x)
  obtain as s'' where e: "d_ext code x s = (as, s'')" by fastforce
  have "dstate s'' d = dstate s d" using ext_neutral [OF e] Ext assms(1) e by (cases "is_assign x") auto
  with e ext_neutral [OF e] quiet_neutral assms Ext show ?thesis by auto
qed (use assms in auto)

lemma quiet_own:
  assumes "own l f" "d_beh cb f a = (as, b)" "l \<noteq> cb_of d 1" "l \<noteq> cb_of d 2"
  shows "list_all (quiet d) (map Do as)"
  using beh_own [OF assms(1,2)]
proof
  assume "\<exists>e i. i \<in> {1, 2} \<and> l = cb_of e i \<and>
    (as = [Ext (Assign e (final i))] \<or> as = [Disable (cb_of e (3 - i))] \<or> as = [Lock (cb_of e 0)])"
  then obtain e i where i: "i \<in> {1, 2}" "l = cb_of e i"
    and as: "as = [Ext (Assign e (final i))] \<or> as = [Disable (cb_of e (3 - i))] \<or> as = [Lock (cb_of e 0)]" by blast
  from i assms(3,4) have "e \<noteq> d" by auto
  moreover have "3 - i \<in> {1, 2}" using i(1) by auto
  ultimately have "quiet d (Do (Ext (Assign e (final i))))" "quiet d (Do (Disable (cb_of e (3 - i))))" "quiet d (Do (Lock (cb_of e 0)))"
    unfolding quiet.simps by blast+
  then show ?thesis using as by (auto simp del: quiet.simps)
qed (rule quiet_neutral)

lemma pending_step:
  assumes "sound m" "pending d m" "fst m = t # ts" "\<And>i b. i \<in> {1, 2} \<Longrightarrow> t \<noteq> Do (Fire (cb_of d i) b)"
  shows "pending d (d_machine_step cb code m)"
proof -
  obtain L s where m: "m = (t # ts, L, s)" using assms(3) by (cases m) auto
  have p: "dstate s d = Pending" "waiting d 1 (L (cb_of d 1))" "waiting d 2 (L (cb_of d 2))" "quiet d t" "list_all (quiet d) ts"
    using assms(2) m by (auto simp: pending_def)
  obtain new L' s' where n: "d_task cb code t L s = (new, L', s')" by (cases "d_task cb code t L s")
  have "list_all (quiet d) new \<and> dstate s' d = dstate s d \<and> waiting d 1 (L' (cb_of d 1)) \<and> waiting d 2 (L' (cb_of d 2))"
  proof (cases t)
    case (Do a)
    with n p assms(4) show ?thesis by (intro quiet_action [of d a code L s]) auto
  next
    case (Inner l)
    show ?thesis
    proof (cases "firingIndex (advance (L l)) < list_length (advance (L l))")
      case True
      let ?f = "the (cb_list (advance (L l))) ! nat (firingIndex (advance (L l)))"
      obtain as b where b: "d_beh cb ?f (memory (advance (L l))) = (as, b)" by fastforce
      have h: "lists_ok.holds L" "owned L" using assms(1) m by (auto simp: sound_def)
      then have "own l ?f" using current_member [OF h(1) True] by (auto simp: owned_def)
      from quiet_own [OF this b] Inner True b n p show ?thesis by (auto simp: Let_def)
    qed (use Inner n p in \<open>auto simp: Let_def\<close>)
  qed (use n p in \<open>auto split: if_splits\<close>)
  then show ?thesis using m n p by (simp add: d_machine_step_def pending_def)
qed

text \<open>The first steps of the firing of a pending deferred set its state and close the opposite list.\<close>

definition starts_firing :: "nat \<Rightarrow> nat \<Rightarrow> ('v, 'h) dmachine \<Rightarrow> bool" where
  "starts_firing d i m \<longleftrightarrow> i \<in> {1, 2} \<and> pending d m \<and> (\<exists>a ts. fst m = Do (Fire (cb_of d i) a) # ts)"

lemma firing_run:
  fixes m :: "('v, 'h) dmachine" and cb :: "'h \<Rightarrow> 'v call_args \<Rightarrow> ('v, 'h, unit) prog"
    and code :: "'h \<Rightarrow> 'v call_args \<Rightarrow> ('v, 'h, 'v outcome) prog"
  assumes "starts_firing d i m"
  defines "run k \<equiv> (d_machine_step cb code ^^ k) m"
  shows "fst (run 1) \<noteq> [] \<and> fst (run 2) \<noteq> [] \<and> fst (run 3) \<noteq> [] \<and> fst (run 4) \<noteq> [] \<and> fst (run 5) \<noteq> [] \<and> fst (run 6) \<noteq> []"
    and "dstate (snd (snd (run 1))) d = Pending \<and> dstate (snd (snd (run 2))) d = Pending \<and> dstate (snd (snd (run 3))) d = Pending"
    and "dstate (snd (snd (run 4))) d = final i \<and> dstate (snd (snd (run 5))) d = final i \<and> dstate (snd (snd (run 6))) d = final i"
    and "settled d i (run 7)"
proof -
  obtain a ts L s where m: "m = (Do (Fire (cb_of d i) a) # ts, L, s)" and i: "i = 1 \<or> i = 2" and p: "pending d m"
    using assms(1) by (cases m) (auto simp: starts_firing_def)
  define R where "R = cb_of d i"
  define J where "J = cb_of d (3 - i)"
  have RJ: "J \<noteq> R" "3 - i \<noteq> i" using i by (auto simp: R_def J_def cb_of_inj)
  have "waiting d i (L R)" using p m i by (auto simp: pending_def R_def)
  then obtain us where w: "cb_list (L R) = Some (own_fns d i @ us)" "\<not> firing (L R)" "queue (L R) = []" "firingIndex (L R) = - 1"
    "\<not> locked (L R)" "memory (L R) = None" "\<not> o_stopOnFalse (L R)" by (auto simp: waiting_def idle_def)
  have own: "own_fns d i = [SetState d (final i), DisableOf J, LockOf (cb_of d 0), FireOf (handlers_of d i)]"
    using i by (auto simp: own_fns_def final_def J_def)
  define c where "c k = (fire_begin (enqueue a (L R)))\<lparr>queue := [], memory := Some a, firingIndex := k\<rparr>" for k :: int
  have c: "list_length (c k) = int (length us) + 4" "advance (c k) = c (k + 1)" "firingIndex (c k) = k" "\<not> o_stopOnFalse (c k)"
    "cb_list (c k) = Some (own_fns d i @ us)" for k
    using w by (simp_all add: c_def list_length_def own advance_def fire_begin_def enqueue_def)
  let ?step = "d_machine_step cb code" and ?s = "s\<lparr>dstate := (dstate s)(d := final i)\<rparr>"
  have s1: "?step m = (Outer R # ts, L(R := fire_begin (enqueue a (L R))), s)"
    using w by (simp add: m d_machine_step_def R_def [symmetric])
  have s2: "?step (Outer R # ts, L(R := fire_begin (enqueue a (L R))), s) = (Inner R # ts, L(R := c (- 1)), s)"
    using w by (cases "L R") (simp add: d_machine_step_def c_def dequeue_def enqueue_def fire_begin_def)
  have s3: "?step (Inner R # ts, L(R := c (- 1)), s) = (Do (Ext (Assign d (final i))) # After R False # ts, L(R := c 0), s)"
    by (simp add: d_machine_step_def c) (simp add: own)
  have s4: "?step (Do (Ext (Assign d (final i))) # After R False # ts, L(R := c 0), s) = (After R False # ts, L(R := c 0), ?s)"
    by (simp add: d_machine_step_def)
  have s5: "?step (After R False # ts, L(R := c 0), ?s) = (Inner R # ts, L(R := c 0), ?s)"
    by (simp add: d_machine_step_def c)
  have s6: "?step (Inner R # ts, L(R := c 0), ?s) = (Do (Disable J) # After R False # ts, L(R := c 1), ?s)"
    by (simp add: d_machine_step_def c) (simp add: own)
  have s7: "?step (Do (Disable J) # After R False # ts, L(R := c 1), ?s)
    = (After R False # ts, L(R := c 1, J := cb_disable (L J)), ?s)"
    using RJ by (simp add: d_machine_step_def)
  have pend: "dstate s d = Pending" using p m by (simp add: pending_def)
  have quiet: "\<forall>st. Do (Ext (Assign d st)) \<notin> set ts" using p m by (auto simp: pending_def list_all_iff)
  show "fst (run 1) \<noteq> [] \<and> fst (run 2) \<noteq> [] \<and> fst (run 3) \<noteq> [] \<and> fst (run 4) \<noteq> [] \<and> fst (run 5) \<noteq> [] \<and> fst (run 6) \<noteq> []"
    by (simp add: run_def numeral_eq_Suc s1 s2 s3 s4 s5 s6)
  show "dstate (snd (snd (run 1))) d = Pending \<and> dstate (snd (snd (run 2))) d = Pending \<and> dstate (snd (snd (run 3))) d = Pending"
    by (simp add: run_def numeral_eq_Suc s1 s2 s3 pend)
  show "dstate (snd (snd (run 4))) d = final i \<and> dstate (snd (snd (run 5))) d = final i \<and> dstate (snd (snd (run 6))) d = final i"
    by (simp add: run_def numeral_eq_Suc s1 s2 s3 s4 s5 s6)
  show "settled d i (run 7)" using i RJ quiet
    by (simp add: run_def numeral_eq_Suc s1 s2 s3 s4 s5 s6 s7) (auto simp: settled_def spent_def cb_disable_def J_def)
qed

lemma settled_step:
  assumes "sound m" "settled d i m"
  shows "settled d i (d_machine_step cb code m)"
proof -
  let ?J = "cb_of d (3 - i)"
  obtain ts L s where m: "m = (ts, L, s)" by (cases m)
  have p: "i \<in> {1, 2}" "dstate s d = final i" "spent (L ?J)" "\<And>st. Do (Ext (Assign d st)) \<in> set ts \<Longrightarrow> st = final i"
    using assms(2) m by (auto simp: settled_def)
  have ok: "lists_ok.holds L" "owned L" using assms(1) m by (auto simp: sound_def)
  show ?thesis
  proof (cases ts)
    case Nil
    with assms(2) m show ?thesis by (simp add: d_machine_step_def)
  next
    case (Cons t us)
    obtain new L' s' where n: "d_task cb code t L s = (new, L', s')" by (cases "d_task cb code t L s")
    have "stays_spent.holds ?J L" using p(3) by (simp add: stays_spent.holds_def)
    then have "stays_spent.holds ?J L'" using stays_spent.task_keeps [OF _ n] by blast
    then have sp: "spent (L' ?J)" by (simp add: stays_spent.holds_def)
    have "dstate s' d = final i \<and> (\<forall>st. Do (Ext (Assign d st)) \<in> set new \<longrightarrow> st = final i)"
    proof (cases t)
      case (Do a)
      show ?thesis
      proof (cases a)
        case (Ext x)
        obtain as s'' where e: "d_ext code x s = (as, s'')" by fastforce
        have "dstate s'' d = final i" using ext_neutral [OF e] p(2) e p(4) Do Ext Cons by (cases "is_assign x"; cases x) auto
        with ext_neutral [OF e] e n Do Ext show ?thesis by (fastforce simp: list_all_iff)
      qed (use Do n p(2) in \<open>auto split: if_splits\<close>)
    next
      case (Inner l)
      show ?thesis
      proof (cases "firingIndex (advance (L l)) < list_length (advance (L l))")
        case True
        let ?f = "the (cb_list (advance (L l))) ! nat (firingIndex (advance (L l)))"
        obtain as b where b: "d_beh cb ?f (memory (advance (L l))) = (as, b)" by fastforce
        have mem: "?f \<in> members (L l)" by (rule current_member [OF ok(1) True])
        then have own: "own l ?f" using ok(2) by (auto simp: owned_def)
        have "l \<noteq> ?J" using mem p(3) by (auto simp: members.simps spent_def)
        then have "\<forall>st. Ext (Assign d st) \<in> set as \<longrightarrow> st = final i"
          using beh_own [OF own b] p(1) by (auto simp: list_all_iff)
        with Inner True b n p(2) show ?thesis by (auto simp: Let_def)
      qed (use Inner n p(2) in \<open>auto simp: Let_def\<close>)
    qed (use n p(2) in \<open>auto split: if_splits\<close>)
    with sp p Cons m n show ?thesis by (auto simp: d_machine_step_def settled_def)
  qed
qed

definition phase_of :: "('h \<Rightarrow> 'v call_args \<Rightarrow> ('v, 'h, unit) prog) \<Rightarrow> ('h \<Rightarrow> 'v call_args \<Rightarrow> ('v, 'h, 'v outcome) prog)
    \<Rightarrow> nat \<Rightarrow> ('v, 'h) dmachine \<Rightarrow> bool" where
  "phase_of cb code d m \<longleftrightarrow> pending d m \<or> (\<exists>i. settled d i m) \<or>
     (\<exists>m0 i k. starts_firing d i m0 \<and> k \<in> {1, 2, 3, 4, 5, 6} \<and> m = (d_machine_step cb code ^^ k) m0)"

lemma phase_step:
  assumes "sound m" "phase_of cb code d m" "fst m \<noteq> []"
  shows "phase_of cb code d (d_machine_step cb code m) \<and>
    (dstate (snd (snd m)) d \<noteq> Pending \<longrightarrow> dstate (snd (snd (d_machine_step cb code m))) d = dstate (snd (snd m)) d)"
  using assms(2) [unfolded phase_of_def]
proof (elim disjE exE conjE)
  assume p: "pending d m"
  then have "dstate (snd (snd m)) d = Pending" by (auto simp: pending_def)
  moreover have "pending d (d_machine_step cb code m) \<or> (\<exists>i. starts_firing d i m)"
  proof -
    obtain t ts where t: "fst m = t # ts" using assms(3) by (cases "fst m") auto
    show ?thesis
    proof (cases "\<exists>i \<in> {1, 2}. \<exists>a. t = Do (Fire (cb_of d i) a)")
      case True
      with p t show ?thesis by (auto simp: starts_firing_def)
    next
      case False
      then have "t \<noteq> Do (Fire (cb_of d i) b)" if "i \<in> {1, 2}" for i b using that by blast
      from pending_step [OF assms(1) p t this] show ?thesis by blast
    qed
  qed
  moreover have "\<exists>m0 i k. starts_firing d i m0 \<and> k \<in> {1, 2, 3, 4, 5, 6} \<and> d_machine_step cb code m = (d_machine_step cb code ^^ k) m0"
    if "starts_firing d i m" for i
    using that by (intro exI [of _ m] exI [of _ i] exI [of _ 1]) simp
  ultimately show "phase_of cb code d (d_machine_step cb code m) \<and>
    (dstate (snd (snd m)) d \<noteq> Pending \<longrightarrow> dstate (snd (snd (d_machine_step cb code m))) d = dstate (snd (snd m)) d)"
    unfolding phase_of_def by blast
next
  fix i assume s: "settled d i m"
  from settled_step [OF assms(1) s, of cb code] s
  show "phase_of cb code d (d_machine_step cb code m) \<and>
    (dstate (snd (snd m)) d \<noteq> Pending \<longrightarrow> dstate (snd (snd (d_machine_step cb code m))) d = dstate (snd (snd m)) d)"
    unfolding phase_of_def by (auto simp: settled_def)
next
  fix m0 i k assume f: "starts_firing d i m0" and k: "k \<in> {1, 2, 3, 4, 5, 6}" and m: "m = (d_machine_step cb code ^^ k) m0"
  have next_step: "d_machine_step cb code m = (d_machine_step cb code ^^ Suc k) m0" using m by simp
  have "k = 6 \<or> Suc k \<in> {1, 2, 3, 4, 5, 6}" using k by auto
  then have "phase_of cb code d (d_machine_step cb code m)"
  proof
    assume "k = 6"
    then have "d_machine_step cb code m = (d_machine_step cb code ^^ 7) m0" using next_step by (simp add: numeral_eq_Suc)
    with firing_run(4) [OF f, of cb code] show ?thesis by (auto simp: phase_of_def)
  qed (use f next_step in \<open>auto simp only: phase_of_def\<close>)
  moreover have "dstate (snd (snd (d_machine_step cb code m))) d = dstate (snd (snd m)) d" if "dstate (snd (snd m)) d \<noteq> Pending"
  proof -
    have k4: "k = 4 \<or> k = 5 \<or> k = 6" using that firing_run(2) [OF f, of cb code] k m by auto
    have "dstate (snd (snd ((d_machine_step cb code ^^ 7) m0))) d = final i"
      using firing_run(4) [OF f, of cb code] by (auto simp: settled_def)
    with k4 firing_run(3) [OF f, of cb code] next_step m show ?thesis by (auto simp: numeral_eq_Suc)
  qed
  ultimately show "phase_of cb code d (d_machine_step cb code m) \<and>
    (dstate (snd (snd m)) d \<noteq> Pending \<longrightarrow> dstate (snd (snd (d_machine_step cb code m))) d = dstate (snd (snd m)) d)" by blast
qed

lemma start_keeps:
  assumes "fst m = []" "sound m" "phase_of cb code d m" "\<not> is_assign x"
    "m' = (Do (Ext x) # fst m, fst (snd m), s')" "dstate s' = dstate (snd (snd m))"
  shows "sound m' \<and> phase_of cb code d m'"
proof -
  from assms(3) have "pending d m \<or> (\<exists>i. settled d i m)" unfolding phase_of_def
  proof (elim disjE exE conjE)
    fix m0 i k assume f: "starts_firing d i m0" and k: "k \<in> {1, 2, 3, 4, 5, 6}" and m: "m = (d_machine_step cb code ^^ k) m0"
    from firing_run(1) [OF f, of cb code] k m assms(1) have False by auto
    then show ?thesis ..
  qed auto
  then have "pending d m' \<or> (\<exists>i. settled d i m')"
    using assms by (cases m) (auto simp: pending_def settled_def)
  with assms show ?thesis by (auto simp: sound_def phase_of_def)
qed

lemma timer_not_assign: "\<not> is_assign (timer_comp t)"
  by (cases t) auto

lemma fresh_pending: "pending d d_init"
proof -
  have w: "waiting d i (deferred_lists (cb_of d i))" if "i = 1 \<or> i = 2" for i
    using that list_opts
    by (auto simp: waiting_def deferred_lists_def cb_add_def Callbacks_def Let_def list_options_def idle_def)
  show ?thesis using w [of 1] w [of 2] by (simp add: pending_def d_init_def)
qed

lemma reach_phase: "d_reach cb code m \<Longrightarrow> sound m \<and> (\<forall>d. phase_of cb code d m)"
proof (induction rule: d_reach.induct)
  case init
  show ?case using fresh_pending fresh_lists by (auto simp: phase_of_def sound_def d_init_def)
next
  case (step m m')
  from step(2) show ?case
  proof cases
    case running
    with step(3) phase_step machine_sound show ?thesis by blast
  next
    case timer
    with step(3) start_keeps [of m cb code _ "timer_comp (hd (timers (snd (snd m))))" m']
      timer_not_assign [of "hd (timers (snd (snd m)))"] show ?thesis
      by (cases m) (auto simp: timer_start_def)
  next
    case (client p)
    with step(3) start_keeps [of m cb code _ "RunCallback p" m'] show ?thesis
      by (cases m) (auto simp: client_start_def)
  qed
qed

text \<open>C34. A deferred is settled at most once: in every reachable state of the page, whatever the callbacks and the
  handlers of the client do, a step leaves the state of a deferred that is resolved or rejected as it is.\<close>

theorem settled_once:
  assumes "d_reach cb code m" "d_step cb code m m'" "dstate (snd (snd m)) d \<noteq> Pending"
  shows "dstate (snd (snd m')) d = dstate (snd (snd m)) d"
  using assms(2)
proof cases
  case running
  with reach_phase [OF assms(1)] phase_step [of m cb code d] assms(3) show ?thesis by blast
qed (auto simp: timer_start_def client_start_def split: prod.splits)

lemma reach_run:
  assumes "d_reach cb code m"
  shows "d_reach cb code ((d_machine_step cb code ^^ n) m)"
proof (induction n)
  case (Suc n)
  let ?m = "(d_machine_step cb code ^^ n) m"
  show ?case
  proof (cases "fst ?m = []")
    case True
    then have "d_machine_step cb code ?m = ?m" by (cases ?m) (simp add: d_machine_step_def)
    with Suc show ?thesis by simp
  next
    case False
    from d_reach.step [OF Suc d_step.running [OF this]] show ?thesis by simp
  qed
qed (use assms in simp)

definition demo_resolved :: "nat \<Rightarrow> (nat, nat) dmachine" where
  "demo_resolved n = (d_machine_step (\<lambda>_ _. Ret ()) (\<lambda>_ _. Ret (Returned Undefined)) ^^ n)
     (client_start (Op (FireWith 0 1 (Undefined, [])) (\<lambda>_. Ret ())) d_init)"

theorem settled_once_witness:
  "dstate (snd (snd (demo_resolved 5))) 0 = Resolved \<and> dstate (snd (snd (demo_resolved 6))) 0 = Resolved"
proof -
  let ?cb = "\<lambda>_ _. Ret ()" and ?code = "\<lambda>_ _. Ret (Returned Undefined)"
  have r: "dstate (snd (snd (demo_resolved 5))) 0 = Resolved" and f: "fst (demo_resolved 5) \<noteq> []" by code_simp+
  have "d_reach ?cb ?code (demo_resolved 5)" unfolding demo_resolved_def
    by (intro reach_run d_reach.step [OF d_reach.init d_step.client]) (simp add: d_init_def)
  moreover have "d_step ?cb ?code (demo_resolved 5) (demo_resolved 6)"
    using d_step.running [OF f, of ?cb ?code] by (simp add: demo_resolved_def numeral_eq_Suc)
  ultimately have "dstate (snd (snd (demo_resolved 6))) 0 = dstate (snd (snd (demo_resolved 5))) 0"
    using settled_once [of ?cb ?code "demo_resolved 5" "demo_resolved 6" 0] r by simp
  with r show ?thesis by simp
qed

end
