(* ===== verification/Ready.thy ===== *)
theory Ready
  imports Deferred
begin

text \<open>
  The start of the application: \<open>$(document).ready(fn)\<close> registers \<open>fn\<close> on the deferred \<open>readyList\<close>, which \<open>jQuery.ready\<close>
  resolves once the document is loaded. The events of the document and \<open>holdReady\<close> act on a counter; the
  registered functions run from timers, in the order of their registration.
\<close>

subsection \<open>The ready list\<close>

text \<open>The handlers on the list: the functions of the client, and the function that \<open>ready\<close> attaches with \<open>catch\<close>.\<close>

datatype 'h ready_fn = ReadyFn 'h | CatchFn

definition ready :: "nat \<Rightarrow> 'h \<Rightarrow> ('v, 'h ready_fn, unit) prog" where
  "ready readyList fn =
     Op (ThenOp readyList (Some (ReadyFn fn)) None None) (\<lambda>p. Op (ThenOp p None (Some CatchFn) None) (\<lambda>_. Ret ()))"

definition readyException :: "'v dval \<Rightarrow> ('v, 'h ready_fn, 'v outcome) prog" where
  "readyException e = Op (ThrowLater e) (\<lambda>_. Ret (Returned Undefined))"

fun ready_code :: "('h \<Rightarrow> 'v call_args \<Rightarrow> ('v, 'h ready_fn, 'v outcome) prog) \<Rightarrow> 'h ready_fn \<Rightarrow> 'v call_args
    \<Rightarrow> ('v, 'h ready_fn, 'v outcome) prog" where
  "ready_code code (ReadyFn h) args = code h args"
| "ready_code code CatchFn args = readyException (first_arg args)"

definition resolve_ready :: "nat \<Rightarrow> 'v \<Rightarrow> 'v \<Rightarrow> ('v, 'h, unit) prog" where
  "resolve_ready readyList document jQ = Op (FireWith readyList 1 (Val document, [Val jQ])) (\<lambda>_. Ret ())"

subsection \<open>When the list is resolved\<close>

record doc_ready =
  isReady :: bool
  readyWait :: int
  listening :: bool

text \<open>\<open>jQuery.ready\<close> on every path; the second component tells whether it resolves the list.\<close>

definition jq_ready :: "bool \<Rightarrow> doc_ready \<Rightarrow> doc_ready \<times> bool" where
  "jq_ready wait d =
     (if wait then
        (let d = d\<lparr>readyWait := readyWait d - 1\<rparr>
         in if readyWait d \<noteq> 0 then (d, False) else (d\<lparr>isReady := True\<rparr>, True))
      else if isReady d then (d, False)
      else
        (let d = d\<lparr>isReady := True, readyWait := readyWait d - 1\<rparr>
         in if 0 < readyWait d then (d, False) else (d, True)))"

definition holdReady :: "bool \<Rightarrow> doc_ready \<Rightarrow> doc_ready \<times> bool" where
  "holdReady hold d = (if hold then (d\<lparr>readyWait := readyWait d + 1\<rparr>, False) else jq_ready True d)"

definition completed :: "doc_ready \<Rightarrow> doc_ready \<times> bool" where
  "completed d = jq_ready False (d\<lparr>listening := False\<rparr>)"

text \<open>The start of the library: with a complete document a timer calls \<open>jQuery.ready\<close>, otherwise \<open>completed\<close> waits
  for the two events.\<close>

datatype readyState = Loading | Interactive | Complete

definition library_start :: "readyState \<Rightarrow> bool \<Rightarrow> doc_ready" where
  "library_start rs doScroll =
     \<lparr>isReady = False, readyWait = 1, listening = \<not> (rs = Complete \<or> rs \<noteq> Loading \<and> \<not> doScroll)\<rparr>"

text \<open>What can happen: an event of the document (heard only while listening), the timer of a complete document, a
  hold and a release.\<close>

datatype doc_event = DocumentEvent | ReadyTimer | Hold | Release

fun doc_step :: "doc_event \<Rightarrow> doc_ready \<Rightarrow> doc_ready \<times> bool" where
  "doc_step DocumentEvent d = (if listening d then completed d else (d, False))"
| "doc_step ReadyTimer d = jq_ready False d"
| "doc_step Hold d = holdReady True d"
| "doc_step Release d = holdReady False d"

fun doc_run :: "doc_event list \<Rightarrow> doc_ready \<Rightarrow> bool list" where
  "doc_run [] d = []"
| "doc_run (e # es) d = (case doc_step e d of (d', b) \<Rightarrow> b # doc_run es d')"

text \<open>Holds that are matched by releases.\<close>

fun balance :: "doc_event list \<Rightarrow> int" where
  "balance [] = 0"
| "balance (Hold # es) = balance es + 1"
| "balance (Release # es) = balance es - 1"
| "balance (_ # es) = balance es"

fun released_after_hold :: "int \<Rightarrow> doc_event list \<Rightarrow> bool" where
  "released_after_hold n [] = True"
| "released_after_hold n (Release # es) = (0 < n \<and> released_after_hold (n - 1) es)"
| "released_after_hold n (Hold # es) = released_after_hold (n + 1) es"
| "released_after_hold n (_ # es) = released_after_hold n es"

lemma doc_waiting:
  assumes "readyWait d = 1 + n" "\<not> isReady d" "listening d" "0 \<le> n" "released_after_hold n es" "ReadyTimer \<notin> set es"
  shows "(True \<in> set (doc_run es d) \<longrightarrow> DocumentEvent \<in> set es) \<and>
    (DocumentEvent \<in> set es \<and> n + balance es = 0 \<longrightarrow> True \<in> set (doc_run es d))"
  using assms
proof (induction es arbitrary: d n)
  case (Cons e es)
  have after: "n + balance es = 0 \<longrightarrow> True \<in> set (doc_run es d) \<or> n = 0"
    if "readyWait d = n" "isReady d" "\<not> listening d" "0 \<le> n" "released_after_hold n es" "ReadyTimer \<notin> set es" for d n
    using that
  proof (induction es arbitrary: d n)
    case (Cons e es)
    show ?case
    proof (cases e)
      case Hold
      with Cons.prems Cons.IH [of "d\<lparr>readyWait := n + 1\<rparr>" "n + 1"] show ?thesis by (auto simp: holdReady_def)
    next
      case Release
      show ?thesis
      proof (cases "n = 1")
        case True
        with Release Cons.prems show ?thesis by (simp add: holdReady_def jq_ready_def Let_def split: prod.split)
      next
        case False
        then have "doc_step e d = (d\<lparr>readyWait := n - 1\<rparr>, False)"
          using Release Cons.prems(1) by (simp add: holdReady_def jq_ready_def Let_def)
        with False Release Cons.prems Cons.IH [of "d\<lparr>readyWait := n - 1\<rparr>" "n - 1"] show ?thesis by (simp add: algebra_simps)
      qed
    next
      case DocumentEvent
      with Cons.prems Cons.IH [of d n] show ?thesis by auto
    qed (use Cons.prems in simp)
  qed simp
  show ?case
  proof (cases e)
    case Hold
    with Cons.prems Cons.IH [of "d\<lparr>readyWait := 1 + (n + 1)\<rparr>" "n + 1"] show ?thesis by (auto simp: holdReady_def algebra_simps)
  next
    case Release
    then have "0 < n" using Cons.prems by simp
    then have "doc_step e d = (d\<lparr>readyWait := 1 + (n - 1)\<rparr>, False)"
      using Release Cons.prems(1) by (simp add: holdReady_def jq_ready_def Let_def)
    with Release Cons.prems Cons.IH [of "d\<lparr>readyWait := 1 + (n - 1)\<rparr>" "n - 1"] show ?thesis by (simp add: algebra_simps)
  next
    case DocumentEvent
    with Cons.prems after [of "d\<lparr>listening := False, isReady := True, readyWait := n\<rparr>" n] show ?thesis
      by (auto simp: completed_def jq_ready_def Let_def)
  qed (use Cons.prems in simp)
qed simp



subsection \<open>The registered functions\<close>

definition readyList_made :: "('v, 'h ready_fn) dmachine" where
  "readyList_made = (case d_init of (ts, L, s) \<Rightarrow> (ts, L, s\<lparr>next_id := 1\<rparr>))"

text \<open>A call of \<open>ready\<close> takes nine steps of the machine.\<close>

definition register :: "('h ready_fn \<Rightarrow> 'v call_args \<Rightarrow> ('v, 'h ready_fn, unit) prog) \<Rightarrow> ('h \<Rightarrow> 'v call_args \<Rightarrow> ('v, 'h ready_fn, 'v outcome) prog)
    \<Rightarrow> 'h \<Rightarrow> ('v, 'h ready_fn) dmachine \<Rightarrow> ('v, 'h ready_fn) dmachine" where
  "register cb code h m = machine_run (d_beh cb) (d_ext (ready_code code)) 9 (client_start (ready 0 h) m)"

definition handler_fns :: "'h list \<Rightarrow> 'h ready_fn dfn list" where
  "handler_fns hs = map (\<lambda>j. ResolveFn 0 (1 + 2 * j) (Handler (ReadyFn (hs ! j))) False) [0..<length hs]"

definition unfired :: "'f list \<Rightarrow> ('f, 'a) cbs \<Rightarrow> bool" where
  "unfired xs c \<longleftrightarrow> cb_list c = Some xs \<and> idle c \<and> \<not> locked c \<and> memory c = None \<and> \<not> o_unique c \<and> \<not> o_stopOnFalse c"

definition registered :: "'h list \<Rightarrow> ('v, 'h ready_fn) dmachine \<Rightarrow> bool" where
  "registered hs m \<longleftrightarrow> (case m of (ts, L, s) \<Rightarrow>
     ts = [] \<and> next_id s = 1 + 2 * length hs \<and> timers s = [] \<and> maxDepth s = (\<lambda>_. 0) \<and>
     unfired (own_fns 0 1) (L (cb_of 0 1)) \<and> unfired (handler_fns hs) (L (handlers_of 0 1)) \<and>
     (\<exists>xs. unfired xs (L (handlers_of 0 0))) \<and> (\<exists>xs. unfired xs (L (handlers_of 0 2))) \<and>
     (\<forall>l \<ge> 6 * next_id s. L l = deferred_lists l))"

lemma unfired_add: "unfired xs c \<Longrightarrow> unfired (xs @ fs) (cb_add fs c) \<and> \<not> add_fires c"
  by (auto simp: unfired_def cb_add_def add_fires_def idle_def)

lemma fresh_handlers: "unfired [] (deferred_lists (handlers_of d i))" if "i < 3"
proof -
  have "odd (handlers_of d i)" by (simp add: handlers_of_def)
  then show ?thesis using list_opts
    by (auto simp: deferred_lists_def unfired_def Callbacks_def Let_def list_options_def idle_def)
qed

lemma handler_fns_snoc:
  "handler_fns (hs @ [h]) = handler_fns hs @ [ResolveFn 0 (1 + 2 * length hs) (Handler (ReadyFn h)) False]"
  by (auto simp: handler_fns_def nth_append)

lemma handlers_of_inj [simp]: "i < 3 \<Longrightarrow> j < 3 \<Longrightarrow> handlers_of d i = handlers_of e j \<longleftrightarrow> d = e \<and> i = j"
  unfolding handlers_of_def by presburger

lemma handlers_of_cb [simp]: "handlers_of d i \<noteq> cb_of e j"
  unfolding handlers_of_def cb_of_def by presburger

lemma add_step:
  "unfired xs (L l) \<Longrightarrow> machine_step beh ext (Do (Add l fs) # ts, L, s) = (ts, L(l := cb_add fs (L l)), s)"
  using unfired_add [of xs "L l" fs] by simp

text \<open>The lists after \<open>then\<close>.\<close>

definition then_lists :: "nat \<Rightarrow> 'h dfn \<Rightarrow> 'h dfn \<Rightarrow> 'h dfn \<Rightarrow> nat \<Rightarrow> ('h dfn, 'v call_args) lists \<Rightarrow> ('h dfn, 'v call_args) lists" where
  "then_lists d onF onR onP new L = L(
     handlers_of d 0 := cb_add [ResolveFn 0 new onP True] (L (handlers_of d 0)),
     handlers_of d 1 := cb_add [ResolveFn 0 new onF False] (L (handlers_of d 1)),
     handlers_of d 2 := cb_add [ResolveFn 0 new onR False] (L (handlers_of d 2)))"

lemma then_run:
  assumes "unfired xs (L (handlers_of d 0))" "unfired ys (L (handlers_of d 1))" "unfired zs (L (handlers_of d 2))"
  shows "machine_run beh ext 3 (map Do (then_actions d onF onR onP new) @ ts, L, s) = (ts, then_lists d onF onR onP new L, s)"
  using assms by (simp add: run_steps(1) numeral_3_eq_3 then_actions_def add_step [of xs] add_step [of ys] add_step [of zs] then_lists_def del: machine_step.simps)

lemma then_lists_unfired:
  assumes "unfired xs (L (handlers_of d 0))" "unfired ys (L (handlers_of d 1))" "unfired zs (L (handlers_of d 2))"
  shows "unfired (xs @ [ResolveFn 0 new onP True]) (then_lists d onF onR onP new L (handlers_of d 0))"
    "unfired (ys @ [ResolveFn 0 new onF False]) (then_lists d onF onR onP new L (handlers_of d 1))"
    "unfired (zs @ [ResolveFn 0 new onR False]) (then_lists d onF onR onP new L (handlers_of d 2))"
  using unfired_add [OF assms(1)] unfired_add [OF assms(2)] unfired_add [OF assms(3)] by (simp_all add: then_lists_def)

lemma then_lists_other: "(\<And>i. i < 3 \<Longrightarrow> l \<noteq> handlers_of d i) \<Longrightarrow> then_lists d onF onR onP new L l = L l"
  by (simp add: then_lists_def)

lemma register_ok:
  assumes "registered hs m"
  shows "registered (hs @ [h]) (register cb code h m)"
proof -
  obtain L s where m: "m = ([], L, s)" using assms by (cases m) (auto simp: registered_def)
  define n where "n = next_id s"
  have n: "n = 1 + 2 * length hs" using assms m by (simp add: registered_def n_def)
  have a: "unfired (own_fns 0 1) (L (cb_of 0 1))" "unfired (handler_fns hs) (L (handlers_of 0 1))" "timers s = []"
      "maxDepth s = (\<lambda>_. 0)"
    and new: "\<And>l. 6 * n \<le> l \<Longrightarrow> L l = deferred_lists l"
    using assms m by (auto simp: registered_def n_def)
  obtain xs zs where x: "unfired xs (L (handlers_of 0 0))" "unfired zs (L (handlers_of 0 2))"
    using assms m by (auto simp: registered_def)
  let ?L1 = "then_lists 0 (Handler (ReadyFn h)) Thrower Identity n L"
  let ?L2 = "then_lists n Identity (Handler CatchFn) Identity (n + 1) ?L1"
  note u = then_lists_unfired [OF x(1) a(2) x(2), where new = n and onP = Identity and onF = "Handler (ReadyFn h)" and onR = Thrower]
  have low: "handlers_of 0 i < 6 * n" if "i < 3" for i using that n by (simp add: handlers_of_def)
  have fresh: "unfired [] (?L1 (handlers_of n i))" if "i < 3" for i
  proof -
    have "?L1 (handlers_of n i) = L (handlers_of n i)" using that n by (intro then_lists_other) simp
    also have "\<dots> = deferred_lists (handlers_of n i)" by (intro new) (simp add: handlers_of_def)
    finally show ?thesis using fresh_handlers [OF that] by simp
  qed
  have f3: "unfired [] (?L1 (handlers_of n 0))" "unfired [] (?L1 (handlers_of n 1))" "unfired [] (?L1 (handlers_of n 2))"
    by (simp_all add: fresh)
  let ?run = "machine_run (d_beh cb) (d_ext (ready_code code))"
  let ?p = "RunCallback (Op (ThenOp n None (Some CatchFn) None) (\<lambda>_. Ret ()))"
  have "?run 1 (client_start (ready 0 h) m) =
      (map Do (then_actions 0 (Handler (ReadyFn h)) Thrower Identity n) @ [Do (Ext ?p)], L, s\<lparr>next_id := n + 1\<rparr>)"
    by (simp add: m client_start_def ready_def run_steps dthen_def as_handler_def n_def)
  from run_seq [OF this then_run [OF x(1) a(2) x(2)]]
  have one: "?run 4 (client_start (ready 0 h) m) = ([Do (Ext ?p)], ?L1, s\<lparr>next_id := n + 1\<rparr>)" by simp
  have "?run 1 ([Do (Ext ?p)], ?L1, s\<lparr>next_id := n + 1\<rparr>) =
      (map Do (then_actions n Identity (Handler CatchFn) Identity (n + 1)) @ [Do (Ext (RunCallback (Ret ())))], ?L1, s\<lparr>next_id := n + 2\<rparr>)"
    by (simp add: run_steps dthen_def as_handler_def)
  from run_seq [OF this then_run [where L = ?L1, OF f3]]
  have two: "?run 4 ([Do (Ext ?p)], ?L1, s\<lparr>next_id := n + 1\<rparr>) = ([Do (Ext (RunCallback (Ret ())))], ?L2, s\<lparr>next_id := n + 2\<rparr>)" by simp
  have three: "?run 1 ([Do (Ext (RunCallback (Ret ())))], ?L2, s\<lparr>next_id := n + 2\<rparr>) = ([], ?L2, s\<lparr>next_id := n + 2\<rparr>)"
    by (simp add: run_steps)
  have reg: "register cb code h m = ([], ?L2, s\<lparr>next_id := n + 2\<rparr>)"
    using run_seq [OF one run_seq [OF two three]] by (simp add: register_def)
  have l2: "?L2 l = ?L1 l" if "\<And>i. i < 3 \<Longrightarrow> l \<noteq> handlers_of n i" for l using that by (rule then_lists_other)
  have l1: "?L1 l = L l" if "\<And>i. i < 3 \<Longrightarrow> l \<noteq> handlers_of 0 i" for l using that by (rule then_lists_other)
  have h: "?L2 (handlers_of 0 i) = ?L1 (handlers_of 0 i)" if "i < 3" for i using that n by (intro l2) simp
  have "unfired (handler_fns (hs @ [h])) (?L2 (handlers_of 0 1))" using u(2) h [of 1] n by (simp add: handler_fns_snoc)
  moreover have "\<exists>xs. unfired xs (?L2 (handlers_of 0 0))" "\<exists>xs. unfired xs (?L2 (handlers_of 0 2))"
    using u(1,3) h [of 0] h [of 2] by auto
  moreover have "?L2 (cb_of 0 1) = L (cb_of 0 1)" by (metis l1 l2 handlers_of_cb)
  moreover have "?L2 l = deferred_lists l" if "6 * (n + 2) \<le> l" for l
  proof -
    have "?L2 l = L l" using that by (intro trans [OF l2 l1]) (auto simp: handlers_of_def)
    with new [of l] that show ?thesis by simp
  qed
  ultimately show ?thesis using a n unfolding reg registered_def by simp
qed

lemma registered_start: "registered [] readyList_made"
proof -
  have own: "unfired (own_fns 0 1) (deferred_lists (cb_of 0 1))"
    using list_opts by (simp add: unfired_def deferred_lists_def cb_add_def Callbacks_def Let_def list_options_def idle_def)
  show ?thesis using fresh_handlers [of 1 0] fresh_handlers [of 0 0] fresh_handlers [of 2 0] own
    by (auto simp: registered_def readyList_made_def d_init_def handler_fns_def)
qed

lemma registered_all: "registered hs (fold (register cb code) hs readyList_made)"
proof (induction hs rule: rev_induct)
  case (snoc h hs)
  from register_ok [OF this] show ?case by simp
qed (simp add: registered_start)

text \<open>Firing a list of such functions puts one timer per function.\<close>

definition timer_of :: "'v call_args \<Rightarrow> 'h dfn \<Rightarrow> ('v, 'h) timer" where
  "timer_of a f = (case f of ResolveFn dep d h sp \<Rightarrow> ProcessTimer (resolve_fn dep d h sp a) | _ \<Rightarrow> ThrowTimer Undefined)"

lemma handlers_inner:
  assumes "cb_list c = Some (xs @ ys)" "firingIndex c = int (length xs) - 1" "memory c = Some a" "\<not> o_stopOnFalse c"
    "\<forall>f \<in> set ys. \<exists>n h. f = ResolveFn 0 n h False"
  shows "machine_run (d_beh cb) (d_ext code) (4 * length ys + 1) (Inner l # ts, L(l := c), s)
    = (Outer l # ts, L(l := c\<lparr>firingIndex := - 1\<rparr>), s\<lparr>timers := timers s @ map (timer_of a) ys\<rparr>)"
  using assms
proof (induction ys arbitrary: xs c s)
  case Nil
  then show ?case by (simp add: run_steps advance_def list_length_def rewind_def fun_eq_iff)
next
  case (Cons f fs)
  define c1 where "c1 = c\<lparr>firingIndex := int (length xs)\<rparr>"
  have c1: "cb_list c1 = Some ((xs @ [f]) @ fs)" "firingIndex c1 = int (length (xs @ [f])) - 1" "memory c1 = Some a" "\<not> o_stopOnFalse c1"
    using Cons.prems by (simp_all add: c1_def)
  have adv: "advance c = c1" using Cons.prems by (simp add: advance_def c1_def)
  obtain n h where f: "f = ResolveFn 0 n h False" using Cons.prems(5) by auto
  have one: "machine_run (d_beh cb) (d_ext code) 4 (Inner l # ts, L(l := c), s) =
      (Inner l # ts, L(l := c1), s\<lparr>timers := timers s @ [timer_of a f]\<rparr>)"
    using Cons.prems by (simp add: run_steps adv) (simp add: c1_def list_length_def f timer_of_def)
  have fin: "c1\<lparr>firingIndex := - 1\<rparr> = c\<lparr>firingIndex := - 1\<rparr>" by (simp add: c1_def)
  have fs: "\<forall>f \<in> set fs. \<exists>n h. f = ResolveFn 0 n h False" using Cons.prems(5) by simp
  have n: "4 * length (f # fs) + 1 = 4 + (4 * length fs + 1)" by simp
  have tm: "s\<lparr>timers := timers s @ [timer_of a f], timers := timers (s\<lparr>timers := timers s @ [timer_of a f]\<rparr>) @ map (timer_of a) fs\<rparr>
    = s\<lparr>timers := timers s @ map (timer_of a) (f # fs)\<rparr>" by simp
  show ?case unfolding n by (rule run_seq [OF one Cons.IH [OF c1 fs, of "s\<lparr>timers := timers s @ [timer_of a f]\<rparr>", unfolded fin tm]])
qed

lemma handlers_fire:
  assumes "unfired fs (L l)" "\<forall>f \<in> set fs. \<exists>n h. f = ResolveFn 0 n h False"
  shows "\<exists>c. machine_run (d_beh cb) (d_ext code) (4 * length fs + 4) (Do (Fire l a) # ts, L, s)
    = (ts, L(l := c), s\<lparr>timers := timers s @ map (timer_of a) fs\<rparr>)"
proof -
  define c where "c = dequeue (fire_begin (enqueue a (L l)))"
  have c: "cb_list c = Some ([] @ fs)" "firingIndex c = int (length []) - 1" "memory c = Some a" "\<not> o_stopOnFalse c" "queue c = []"
    using assms(1) by (simp_all add: c_def dequeue_def fire_begin_def enqueue_def unfired_def idle_def)
  have one: "machine_run (d_beh cb) (d_ext code) 2 (Do (Fire l a) # ts, L, s) = (Inner l # ts, L(l := c), s)"
    using assms(1) by (simp add: run_steps unfired_def idle_def c_def) (simp add: enqueue_def fire_begin_def)
  note two = handlers_inner [OF c(1-4) assms(2), of cb code l ts L s]
  have three: "machine_run (d_beh cb) (d_ext code) 1 (Outer l # ts, L(l := c\<lparr>firingIndex := - 1\<rparr>), s') =
      (ts, L(l := fire_end (c\<lparr>firingIndex := - 1\<rparr>)), s')" for s'
    using c(5) by (simp add: run_steps)
  have n: "4 * length fs + 4 = 2 + ((4 * length fs + 1) + 1)" by simp
  show ?thesis unfolding n by (rule exI, rule run_seq [OF one run_seq [OF two three]])
qed

lemma own_run:
  assumes "unfired (own_fns 0 1) (L (cb_of 0 1))" "unfired fs (L (handlers_of 0 1))" "\<forall>f \<in> set fs. \<exists>n h. f = ResolveFn 0 n h False"
  shows "\<exists>L'. machine_run (d_beh cb) (d_ext code) (4 * length fs + 19) (Do (Fire (cb_of 0 1) a) # ts, L, s)
    = (ts, L', s\<lparr>dstate := (dstate s)(0 := Resolved), timers := timers s @ map (timer_of a) fs\<rparr>)"
proof -
  define R where "R = cb_of 0 1"
  define J where "J = cb_of 0 2"
  define P where "P = cb_of 0 0"
  define H where "H = handlers_of 0 1"
  have dist: "R \<noteq> J" "R \<noteq> P" "R \<noteq> H" "J \<noteq> H" "P \<noteq> H" by (simp_all add: R_def J_def P_def H_def cb_of_def handlers_of_def)
  have own: "own_fns 0 1 = [SetState 0 Resolved, DisableOf J, LockOf P, FireOf H]"
    by (simp add: own_fns_def J_def P_def H_def)
  define c where "c k = (fire_begin (enqueue a (L R)))\<lparr>queue := [], memory := Some a, firingIndex := k\<rparr>" for k :: int
  have w: "cb_list (L R) = Some [SetState 0 Resolved, DisableOf J, LockOf P, FireOf H]" "\<not> firing (L R)" "queue (L R) = []"
    "firingIndex (L R) = - 1" "\<not> locked (L R)" "\<not> o_stopOnFalse (L R)"
    using assms(1) unfolding unfired_def idle_def R_def own by blast+
  have c: "list_length (c k) = 4" "advance (c k) = c (k + 1)" "firingIndex (c k) = k" "\<not> o_stopOnFalse (c k)"
    "cb_list (c k) = Some [SetState 0 Resolved, DisableOf J, LockOf P, FireOf H]" "memory (c k) = Some a" "queue (rewind (c k)) = []" for k
    using w by (simp_all add: c_def list_length_def advance_def rewind_def fire_begin_def enqueue_def)
  let ?run = "machine_run (d_beh cb) (d_ext code)"
  let ?s = "s\<lparr>dstate := (dstate s)(0 := Resolved)\<rparr>"
  let ?L = "L(R := c 3, J := cb_disable (L J), P := cb_lock ((L(J := cb_disable (L J))) P))"
  have one: "?run 2 (Do (Fire R a) # ts, L, s) = (Inner R # ts, L(R := c (- 1)), s)"
    using w by (cases "L R") (simp add: run_steps c_def dequeue_def enqueue_def fire_begin_def)
  have f0: "?run 3 (Inner R # ts, L(R := c (- 1)), s) = (Inner R # ts, L(R := c 0), ?s)"
    by (simp add: run_steps c)
  have f1: "?run 3 (Inner R # ts, L(R := c 0), ?s) = (Inner R # ts, L(R := c 1, J := cb_disable (L J)), ?s)"
    using dist by (simp add: run_steps c)
  have f2: "?run 3 (Inner R # ts, L(R := c 1, J := cb_disable (L J)), ?s)
      = (Inner R # ts, L(R := c 2, J := cb_disable (L J), P := cb_lock ((L(J := cb_disable (L J))) P)), ?s)"
    using dist by (simp add: run_steps c fun_upd_twist [of J R] fun_upd_twist [of P R])
  have f3: "?run 1 (Inner R # ts, L(R := c 2, J := cb_disable (L J), P := cb_lock ((L(J := cb_disable (L J))) P)), ?s)
      = (Do (Fire H a) # After R False # ts, ?L, ?s)"
    using dist by (simp add: run_steps c fun_upd_twist [of J R] fun_upd_twist [of P R])
  have "unfired fs (?L H)" using assms(2) dist by (simp add: H_def)
  from handlers_fire [where L = ?L and l = H, OF this assms(3)] obtain e where
    f4: "?run (4 * length fs + 4) (Do (Fire H a) # After R False # ts, ?L, ?s) =
      (After R False # ts, ?L(H := e), ?s\<lparr>timers := timers ?s @ map (timer_of a) fs\<rparr>)" by blast
  have f5: "\<exists>L'. ?run 3 (After R False # ts, ?L(H := e), s') = (ts, L', s')" for s'
    using dist by (simp add: run_steps c)
  then obtain L' where f5: "?run 3 (After R False # ts, ?L(H := e), ?s\<lparr>timers := timers ?s @ map (timer_of a) fs\<rparr>) =
      (ts, L', ?s\<lparr>timers := timers ?s @ map (timer_of a) fs\<rparr>)" by blast
  have n: "4 * length fs + 19 = 2 + (3 + (3 + (3 + (1 + ((4 * length fs + 4) + 3)))))" by simp
  have "?run (4 * length fs + 19) (Do (Fire R a) # ts, L, s) = (ts, L', ?s\<lparr>timers := timers ?s @ map (timer_of a) fs\<rparr>)"
    unfolding n by (rule run_seq [OF one run_seq [OF f0 run_seq [OF f1 run_seq [OF f2 run_seq [OF f3 run_seq [OF f4 f5]]]]]])
  then show ?thesis by (auto simp: R_def)
qed

definition ready_frame :: "'v \<Rightarrow> 'v \<Rightarrow> nat \<Rightarrow> 'h \<Rightarrow> ('v, 'h ready_fn) frame" where
  "ready_frame doc jq j h = resolve_fn 0 (1 + 2 * j) (Handler (ReadyFn h)) False (Val doc, [Val jq])"



end
