(* ===== verification/DataStore.thy ===== *)
theory DataStore
  imports Callbacks "HOL-Library.AList"
begin

text \<open>
  The data that the library attaches to objects and elements: \<open>Data\<close> with its two instances \<open>dataUser\<close> and
  \<open>dataPriv\<close>, \<open>jQuery.data\<close> and the method \<open>data\<close> of a selection, which also reads the attributes \<open>data-*\<close> of an
  element. The slider keeps the index of its handles there, a widget its instance.

  An owner is a number; its node type and its attributes are a parameter. The cache of an owner, the value of
  its property \<open>expando\<close>, is an association list in the order in which the names were created; \<open>None\<close> is an owner
  without the property or with the value \<open>undefined\<close>, which the source does not tell apart. A cache object that a
  caller keeps and changes by itself is outside of the model, and so are the names that every object inherits
  (\<open>toString\<close> and the like), which a cache that lacks them would read from its prototype.
\<close>

subsection \<open>Owners and caches\<close>

record owner =
  nodeType :: "nat option"
  attrs :: "(ustring \<times> ustring) list"

type_synonym cache = "(ustring \<times> jsval) list"

type_synonym caches = "nat \<Rightarrow> cache option"

text \<open>\<open>!(+owner.nodeType)\<close> holds for an object without node type, and for the node type 0.\<close>

definition acceptData :: "owner \<Rightarrow> bool" where
  "acceptData w \<longleftrightarrow> nodeType w = Some 1 \<or> nodeType w = Some 9 \<or> nodeType w = None \<or> nodeType w = Some 0"

definition data_cache :: "(nat \<Rightarrow> owner) \<Rightarrow> nat \<Rightarrow> caches \<Rightarrow> cache \<times> caches" where
  "data_cache page w D = (case D w of
     Some c \<Rightarrow> (c, D)
   | None \<Rightarrow> ([], if acceptData (page w) then D(w := Some []) else D))"

text \<open>An assignment to a name of the cache reaches the store when the owner has a cache.\<close>

definition store :: "nat \<Rightarrow> cache \<Rightarrow> caches \<Rightarrow> caches" where
  "store w c D = (if D w = None then D else D(w := Some c))"

datatype data_key = NoKey | KeyText ustring | KeyProps cache

fun set_props :: "cache \<Rightarrow> cache \<Rightarrow> cache" where
  "set_props [] c = c"
| "set_props ((k, v) # ps) c = set_props ps (AList.update (camelCase k) v c)"

fun data_set :: "(nat \<Rightarrow> owner) \<Rightarrow> nat \<Rightarrow> data_key \<Rightarrow> jsval \<Rightarrow> caches \<Rightarrow> caches" where
  "data_set page w (KeyText k) v D = (case data_cache page w D of (c, D') \<Rightarrow> store w (AList.update (camelCase k) v c) D')"
| "data_set page w (KeyProps ps) v D = (case data_cache page w D of (c, D') \<Rightarrow> store w (set_props ps c) D')"
| "data_set page w NoKey v D = snd (data_cache page w D)"

definition read :: "cache option \<Rightarrow> ustring \<Rightarrow> jsval" where
  "read c k = (case c of None \<Rightarrow> JUndef | Some c \<Rightarrow> (case map_of c k of None \<Rightarrow> JUndef | Some v \<Rightarrow> v))"

definition data_get :: "nat \<Rightarrow> ustring \<Rightarrow> caches \<Rightarrow> jsval" where
  "data_get w k D = read (D w) (camelCase k)"

datatype data_result = WholeCache cache | Value jsval | GivenProps cache

text \<open>\<open>access\<close> of a store, the function behind \<open>jQuery.data\<close> and \<open>jQuery._data\<close>.\<close>

fun data_access :: "(nat \<Rightarrow> owner) \<Rightarrow> nat \<Rightarrow> data_key \<Rightarrow> jsval \<Rightarrow> caches \<Rightarrow> data_result \<times> caches" where
  "data_access page w NoKey v D = (case data_cache page w D of (c, D') \<Rightarrow> (WholeCache c, D'))"
| "data_access page w (KeyText k) v D =
     (if k \<noteq> [] \<and> v = JUndef then (Value (data_get w k D), D)
      else (Value (if v \<noteq> JUndef then v else JStr k), data_set page w (KeyText k) v D))"
| "data_access page w (KeyProps ps) v D =
     ((if v \<noteq> JUndef then Value v else GivenProps ps), data_set page w (KeyProps ps) v D)"

datatype remove_key = RemoveAll | RemoveList "ustring list" | RemoveText ustring

fun remove_names :: "remove_key \<Rightarrow> cache \<Rightarrow> ustring list" where
  "remove_names RemoveAll c = []"
| "remove_names (RemoveList ks) c = map camelCase ks"
| "remove_names (RemoveText k) c = (if camelCase k \<in> fst ` set c then [camelCase k] else words_of (camelCase k))"

definition data_remove :: "nat \<Rightarrow> remove_key \<Rightarrow> caches \<Rightarrow> caches" where
  "data_remove w key D = (case D w of
     None \<Rightarrow> D
   | Some c \<Rightarrow>
     (let c' = fold AList.delete (rev (remove_names key c)) c
      in if key = RemoveAll \<or> c' = [] then D(w := None) else D(w := Some c')))"

definition data_hasData :: "nat \<Rightarrow> caches \<Rightarrow> bool" where
  "data_hasData w D \<longleftrightarrow> (case D w of None \<Rightarrow> False | Some c \<Rightarrow> c \<noteq> [])"

subsection \<open>The two stores and the attributes of an element\<close>

record stores =
  dataUser :: caches
  dataPriv :: caches

definition jq_hasData :: "nat \<Rightarrow> stores \<Rightarrow> bool" where
  "jq_hasData w S \<longleftrightarrow> data_hasData w (dataUser S) \<or> data_hasData w (dataPriv S)"

definition jq_data :: "(nat \<Rightarrow> owner) \<Rightarrow> nat \<Rightarrow> data_key \<Rightarrow> jsval \<Rightarrow> stores \<Rightarrow> data_result \<times> stores" where
  "jq_data page w key v S = (case data_access page w key v (dataUser S) of (r, D) \<Rightarrow> (r, S\<lparr>dataUser := D\<rparr>))"

definition priv_data :: "(nat \<Rightarrow> owner) \<Rightarrow> nat \<Rightarrow> data_key \<Rightarrow> jsval \<Rightarrow> stores \<Rightarrow> data_result \<times> stores" where
  "priv_data page w key v S = (case data_access page w key v (dataPriv S) of (r, D) \<Rightarrow> (r, S\<lparr>dataPriv := D\<rparr>))"

definition jq_removeData :: "nat \<Rightarrow> remove_key \<Rightarrow> stores \<Rightarrow> stores" where
  "jq_removeData w key S = S\<lparr>dataUser := data_remove w key (dataUser S)\<rparr>"

definition priv_removeData :: "nat \<Rightarrow> remove_key \<Rightarrow> stores \<Rightarrow> stores" where
  "priv_removeData w key S = S\<lparr>dataPriv := data_remove w key (dataPriv S)\<rparr>"

text \<open>\<open>getData\<close>: \<open>number s\<close> is the number whose text is again \<open>s\<close>, if there is one, and \<open>json\<close> the parser of the
  language, with \<open>None\<close> for an exception; the caller keeps the text then.\<close>

record conversions =
  number :: "ustring \<Rightarrow> jsnum option"
  json :: "ustring \<Rightarrow> jsval option"

definition rbrace :: "ustring \<Rightarrow> bool" where
  "rbrace s \<longleftrightarrow> 2 \<le> length s \<and> (hd s = 123 \<and> last s = 125 \<or> hd s = 91 \<and> last s = 93)"

definition getData :: "conversions \<Rightarrow> ustring \<Rightarrow> jsval option" where
  "getData cv s =
     (if s = u ''true'' then Some (JBool True)
      else if s = u ''false'' then Some (JBool False)
      else if s = u ''null'' then Some JNull
      else case number cv s of
        Some x \<Rightarrow> Some (JNum x)
      | None \<Rightarrow> if rbrace s then json cv s else Some (JStr s))"

text \<open>The name of the attribute of a key: a dash before each capital letter, then lower case (of the letters of
  ASCII, to which the names of attributes are reduced anyway).\<close>

definition is_upper :: "nat \<Rightarrow> bool" where
  "is_upper c \<longleftrightarrow> 65 \<le> c \<and> c \<le> 90"

definition attr_name :: "ustring \<Rightarrow> ustring" where
  "attr_name key = u ''data-'' @ concat (map (\<lambda>c. if is_upper c then [45, c + 32] else [c]) key)"

definition dataAttr :: "conversions \<Rightarrow> (nat \<Rightarrow> owner) \<Rightarrow> nat \<Rightarrow> ustring \<Rightarrow> jsval \<Rightarrow> stores \<Rightarrow> jsval \<times> stores" where
  "dataAttr cv page w key data S =
     (if data = JUndef \<and> nodeType (page w) = Some 1 then
        (case map_of (attrs (page w)) (attr_name key) of
           None \<Rightarrow> (JUndef, S)
         | Some s \<Rightarrow>
           (let v = (case getData cv s of Some v \<Rightarrow> v | None \<Rightarrow> JStr s)
            in (v, S\<lparr>dataUser := data_set page w (KeyText key) v (dataUser S)\<rparr>)))
      else (data, S))"

subsection \<open>The method \<open>data\<close> of a selection\<close>

text \<open>The four forms of the call: one name, one name with a value, several names, and no argument.\<close>

fun fn_data_get :: "conversions \<Rightarrow> (nat \<Rightarrow> owner) \<Rightarrow> nat list \<Rightarrow> ustring \<Rightarrow> stores \<Rightarrow> jsval \<times> stores" where
  "fn_data_get cv page [] key S = (JUndef, S)"
| "fn_data_get cv page (w # ws) key S =
     (let v = data_get w key (dataUser S)
      in if v \<noteq> JUndef then (v, S) else dataAttr cv page w key JUndef S)"

definition fn_data_set :: "(nat \<Rightarrow> owner) \<Rightarrow> nat list \<Rightarrow> ustring \<Rightarrow> jsval \<Rightarrow> stores \<Rightarrow> stores" where
  "fn_data_set page ws key v S =
     (if v = JUndef then S else S\<lparr>dataUser := fold (\<lambda>w. data_set page w (KeyText key) v) ws (dataUser S)\<rparr>)"

definition fn_data_props :: "(nat \<Rightarrow> owner) \<Rightarrow> nat list \<Rightarrow> cache \<Rightarrow> stores \<Rightarrow> stores" where
  "fn_data_props page ws ps S = S\<lparr>dataUser := fold (\<lambda>w. data_set page w (KeyProps ps) JUndef) ws (dataUser S)\<rparr>"

text \<open>The loop over the attributes runs from the last one to the first.\<close>

definition data_prefix :: "ustring \<Rightarrow> bool" where
  "data_prefix name \<longleftrightarrow> take 5 name = u ''data-''"

fun attrs_loop :: "conversions \<Rightarrow> (nat \<Rightarrow> owner) \<Rightarrow> nat \<Rightarrow> ustring list \<Rightarrow> stores \<Rightarrow> stores" where
  "attrs_loop cv page w [] S = S"
| "attrs_loop cv page w (name # names) S =
     attrs_loop cv page w names
       (if data_prefix name
        then (let k = camelCase (drop 5 name) in snd (dataAttr cv page w k (read (dataUser S w) k) S))
        else S)"

definition has_attrs :: ustring where
  "has_attrs = u ''hasDataAttrs''"

fun fn_data_all :: "conversions \<Rightarrow> (nat \<Rightarrow> owner) \<Rightarrow> nat list \<Rightarrow> stores \<Rightarrow> cache option \<times> stores" where
  "fn_data_all cv page [] S = (None, S)"
| "fn_data_all cv page (w # ws) S =
     (case data_cache page w (dataUser S) of (c, D) \<Rightarrow>
       (let S = S\<lparr>dataUser := D\<rparr>
        in if nodeType (page w) = Some 1 \<and> \<not> truthy (data_get w has_attrs (dataPriv S))
           then (let S = attrs_loop cv page w (rev (map fst (attrs (page w)))) S;
                     S = S\<lparr>dataPriv := data_set page w (KeyText has_attrs) (JBool True) (dataPriv S)\<rparr>
                 in (dataUser S w, S))
           else (Some c, S)))"

definition fn_removeData :: "nat list \<Rightarrow> remove_key \<Rightarrow> stores \<Rightarrow> stores" where
  "fn_removeData ws key S = S\<lparr>dataUser := fold (\<lambda>w. data_remove w key) ws (dataUser S)\<rparr>"

subsection \<open>The abstract store\<close>

text \<open>The contract of a store of named values: what a look-up returns after a write and after a removal. \<open>live w s\<close>
  tells whether the owner keeps data at all.\<close>

locale named_store =
  fixes assign :: "'w \<Rightarrow> 'k \<Rightarrow> 'v \<Rightarrow> 's \<Rightarrow> 's"
    and erase :: "'w \<Rightarrow> 'k \<Rightarrow> 's \<Rightarrow> 's"
    and look :: "'w \<Rightarrow> 'k \<Rightarrow> 's \<Rightarrow> 'v"
    and live :: "'w \<Rightarrow> 's \<Rightarrow> bool"
    and canon :: "'k \<Rightarrow> 'k"
    and none :: 'v
  assumes look_assign: "look w k (assign w' k' v s) = (if w = w' \<and> canon k = canon k' \<and> live w s then v else look w k s)"
    and look_erase: "look w k (erase w' k' s) = (if w = w' \<and> canon k = canon k' then none else look w k s)"
    and live_assign: "live w (assign w' k' v s) = live w s"
begin

lemma look_assign_same: "live w s \<Longrightarrow> canon k = canon k' \<Longrightarrow> look w k (assign w k' v s) = v"
  by (simp add: look_assign)

lemma look_assign_other: "w \<noteq> w' \<or> canon k \<noteq> canon k' \<Longrightarrow> look w k (assign w' k' v s) = look w k s"
  by (auto simp: look_assign)

lemma look_fold_assign:
  "look w k (fold (\<lambda>w. assign w k' v) ws s) = (if w \<in> set ws \<and> canon k = canon k' \<and> live w s then v else look w k s)"
proof (induction ws arbitrary: s)
  case (Cons w' ws)
  then show ?case by (auto simp: look_assign live_assign)
qed simp

end

lemma read_update [simp]: "read (Some (AList.update k v c)) k' = (if k' = k then v else read (Some c) k')"
  by (simp add: read_def update_conv)

lemma read_delete [simp]: "read (Some (AList.delete k c)) k' = (if k' = k then JUndef else read (Some c) k')"
  by (simp add: read_def delete_conv)

lemma read_single [simp]: "read (Some [(k, v)]) k' = (if k' = k then v else JUndef)"
  by (simp add: read_def)

lemma read_empty [simp]: "read (Some []) k = JUndef" "read None k = JUndef"
  by (simp_all add: read_def)

definition keeps_data :: "(nat \<Rightarrow> owner) \<Rightarrow> nat \<Rightarrow> caches \<Rightarrow> bool" where
  "keeps_data page w D \<longleftrightarrow> acceptData (page w) \<or> D w \<noteq> None"

lemma data_get_remove: "data_get w k (data_remove w' (RemoveList [k']) D) = (if w = w' \<and> camelCase k = camelCase k' then JUndef else data_get w k D)"
proof (cases "D w'")
  case (Some c)
  show ?thesis
  proof (cases "AList.delete (camelCase k') c = []")
    case True
    then have "x \<noteq> camelCase k' \<Longrightarrow> read (Some c) x = JUndef" for x
      using read_delete [of "camelCase k'" c x] by auto
    with True Some show ?thesis by (auto simp: data_remove_def data_get_def Let_def)
  qed (use Some in \<open>simp add: data_remove_def data_get_def Let_def\<close>)
qed (auto simp: data_remove_def data_get_def)

interpretation data: named_store "\<lambda>w k v. data_set page w (KeyText k) v" "\<lambda>w k. data_remove w (RemoveList [k])" data_get
  "keeps_data page" camelCase JUndef for page
proof
  show "data_get w k (data_set page w' (KeyText k') v D) =
      (if w = w' \<and> camelCase k = camelCase k' \<and> keeps_data page w D then v else data_get w k D)" for w k w' k' v D
    by (cases "D w'") (auto simp: data_get_def data_cache_def store_def keeps_data_def)
  show "keeps_data page w (data_set page w' (KeyText k') v D) = keeps_data page w D" for w w' k' v D
    by (cases "D w'") (auto simp: data_cache_def store_def keeps_data_def)
qed (rule data_get_remove)

subsection \<open>Properties\<close>

lemma set_props_read:
  "read (Some (set_props ps c)) k = (case map_of (rev (map (\<lambda>(k, v). (camelCase k, v)) ps)) k of None \<Rightarrow> read (Some c) k | Some v \<Rightarrow> v)"
proof (induction ps arbitrary: c)
  case (Cons p ps)
  then show ?case by (cases p) (auto simp: map_add_def split: option.splits)
qed simp

lemma data_all_priv: "dataPriv (snd (dataAttr cv page w k v S)) = dataPriv S"
  by (auto simp: dataAttr_def Let_def split: option.splits)

text \<open>C37. A value that was written under a name for the elements of a selection is what any selection whose first
  element is one of them reads under that name, in either spelling of the name (\<open>camelCase\<close>); other owners and other
  names keep what they had, and so does the private store.\<close>

theorem data_write_read:
  assumes "v \<noteq> JUndef" "\<forall>w \<in> set ws. acceptData (page w)" "camelCase k = camelCase k'"
  shows "(w \<in> set ws \<longrightarrow> fn_data_get cv page (w # ws') k (fn_data_set page ws k' v S) = (v, fn_data_set page ws k' v S)) \<and>
    (w \<notin> set ws \<or> camelCase j \<noteq> camelCase k' \<longrightarrow>
      data_get w j (dataUser (fn_data_set page ws k' v S)) = data_get w j (dataUser S)) \<and>
    dataPriv (fn_data_set page ws k' v S) = dataPriv S"
  using assms by (auto simp: fn_data_set_def data.look_fold_assign keeps_data_def)

definition no_conversions :: conversions where
  "no_conversions = \<lparr>number = \<lambda>_. None, json = \<lambda>_. None\<rparr>"

definition demo_page :: "(ustring \<times> ustring) list \<Rightarrow> nat \<Rightarrow> owner" where
  "demo_page ats w = \<lparr>nodeType = Some 1, attrs = ats\<rparr>"

definition no_data :: stores where
  "no_data = \<lparr>dataUser = \<lambda>_. None, dataPriv = \<lambda>_. None\<rparr>"

theorem data_write_read_witness:
  "fst (fn_data_get no_conversions (demo_page []) [1] (u ''fooBar'') (fn_data_set (demo_page []) [0, 1] (u ''foo-bar'') JNull no_data)) = JNull"
proof -
  have "camelCase (u ''fooBar'') = camelCase (u ''foo-bar'')" by code_simp
  with data_write_read [of JNull "[0, 1]" "demo_page []" "u ''fooBar''" "u ''foo-bar''" 1]
  show ?thesis by (simp add: acceptData_def demo_page_def)
qed

text \<open>The attribute \<open>data-*\<close> of an element is read at most once: when \<open>data\<close> has returned a value for a name, it
  returns the same value whatever happens to the attributes of the page afterwards, and reading changes nothing
  any more.\<close>

theorem data_attribute_read_once:
  assumes "fn_data_get cv page (w # ws) k S = (v, S')" "v \<noteq> JUndef" "camelCase k = camelCase k'"
  shows "fn_data_get cv page' (w # ws') k' S' = (v, S')"
proof (cases "data_get w k (dataUser S) = JUndef")
  case True
  with assms(1,2) have n: "nodeType (page w) = Some 1" and S': "S' = S\<lparr>dataUser := data_set page w (KeyText k) v (dataUser S)\<rparr>"
    by (auto simp: dataAttr_def Let_def split: option.splits if_splits)
  have "data_get w k' (dataUser S') = v"
    using data.look_assign_same [of page w "dataUser S" k' k v] n assms(3) by (simp add: S' keeps_data_def acceptData_def)
  with assms(2) show ?thesis by simp
next
  case False
  with assms have "S' = S" "v = data_get w k (dataUser S)" by auto
  with False assms(3) show ?thesis by (simp add: data_get_def)
qed

theorem data_attribute_read_once_witness:
  "fn_data_get no_conversions (demo_page []) [0] (u ''rate'')
     (snd (fn_data_get no_conversions (demo_page [(u ''data-rate'', u ''fast'')]) [0] (u ''rate'') no_data))
   = (JStr (u ''fast''), snd (fn_data_get no_conversions (demo_page [(u ''data-rate'', u ''fast'')]) [0] (u ''rate'') no_data))"
proof -
  have "fst (fn_data_get no_conversions (demo_page [(u ''data-rate'', u ''fast'')]) [0] (u ''rate'') no_data) = JStr (u ''fast'')"
    by code_simp
  then have "fn_data_get no_conversions (demo_page [(u ''data-rate'', u ''fast'')]) [0] (u ''rate'') no_data
    = (JStr (u ''fast''), snd (fn_data_get no_conversions (demo_page [(u ''data-rate'', u ''fast'')]) [0] (u ''rate'') no_data))"
    by (metis prod.collapse)
  from data_attribute_read_once [OF this] show ?thesis by simp
qed

end
