(* ===== verification/Classes.thy ===== *)
theory Classes
  imports DataStore "HOL-Library.Sublist"
begin

text \<open>
  The class attribute of elements: \<open>addClass\<close>, \<open>removeClass\<close>, \<open>toggleClass\<close> and \<open>hasClass\<close> of a selection, with which the
  page marks the active node and the widgets show their state. The source works on the text of the attribute,
  with blanks around every name and a search for the name between blanks; the lemmas read that as operations
  on the list of the names.

  Elements are numbers, the node type of each is a parameter as in \<open>DataStore\<close>; only elements (node type 1) have
  the methods \<open>getAttribute\<close> and \<open>setAttribute\<close>. The attribute is \<open>None\<close> where an element has none.
\<close>

subsection \<open>Texts\<close>

definition blank :: nat where
  "blank = 32"

definition join_blank :: "ustring list \<Rightarrow> ustring" where
  "join_blank ws = (case ws of [] \<Rightarrow> [] | w # ws \<Rightarrow> w @ concat (map (\<lambda>w. blank # w) ws))"

definition stripAndCollapse :: "ustring \<Rightarrow> ustring" where
  "stripAndCollapse value = join_blank (words_of value)"

text \<open>The first occurrence of a text: what stands before and behind it. \<open>indexOf\<close> is the length of the first part, and
  \<open>replace\<close> puts another text between the two.\<close>

fun cut :: "ustring \<Rightarrow> ustring \<Rightarrow> (ustring \<times> ustring) option" where
  "cut p [] = (if p = [] then Some ([], []) else None)"
| "cut p (c # s) = (if prefix p (c # s) then Some ([], drop (length p) (c # s))
     else map_option (\<lambda>(a, b). (c # a, b)) (cut p s))"

definition between :: "ustring \<Rightarrow> ustring" where
  "between c = blank # c @ [blank]"

lemma cut_length: "cut p s = Some (a, b) \<Longrightarrow> length s = length a + length p + length b"
proof (induction s arbitrary: a)
  case (Cons c s)
  from Cons.prems show ?case
    by (auto split: if_splits dest!: Cons.IH dest: prefix_length_le)
qed (simp split: if_splits)

subsection \<open>The operations\<close>

record class_page =
  class_attr :: "nat \<Rightarrow> ustring option"
  class_data :: stores

definition getClass :: "(nat \<Rightarrow> owner) \<Rightarrow> class_page \<Rightarrow> nat \<Rightarrow> ustring" where
  "getClass page S e = (if nodeType (page e) = Some 1 then (case class_attr S e of None \<Rightarrow> [] | Some s \<Rightarrow> s) else [])"

definition setAttribute :: "nat \<Rightarrow> ustring \<Rightarrow> class_page \<Rightarrow> class_page" where
  "setAttribute e s S = S\<lparr>class_attr := (class_attr S)(e := Some s)\<rparr>"

fun add_names :: "ustring list \<Rightarrow> ustring \<Rightarrow> ustring" where
  "add_names [] cur = cur"
| "add_names (c # cs) cur = add_names cs (if cut (between c) cur = None then cur @ c @ [blank] else cur)"

function remove_name :: "ustring \<Rightarrow> ustring \<Rightarrow> ustring" where
  "remove_name c cur = (case cut (between c) cur of None \<Rightarrow> cur | Some (a, b) \<Rightarrow> remove_name c (a @ blank # b))"
  by pat_completeness auto
termination
  by (relation "measure (\<lambda>(c, cur). length cur)") (auto dest!: cut_length simp: between_def)

declare remove_name.simps [simp del]

fun remove_names_from :: "ustring list \<Rightarrow> ustring \<Rightarrow> ustring" where
  "remove_names_from [] cur = cur"
| "remove_names_from (c # cs) cur = remove_names_from cs (remove_name c cur)"

text \<open>The common frame of \<open>addClass\<close> and \<open>removeClass\<close>: the loop over the elements, and the assignment where the text
  changed.\<close>

definition rewrite_class :: "(ustring \<Rightarrow> ustring) \<Rightarrow> (nat \<Rightarrow> owner) \<Rightarrow> nat \<Rightarrow> class_page \<Rightarrow> class_page" where
  "rewrite_class f page e S =
     (let curValue = getClass page S e
      in if nodeType (page e) = Some 1
         then (let finalValue = stripAndCollapse (f (blank # stripAndCollapse curValue @ [blank]))
               in if curValue \<noteq> finalValue then setAttribute e finalValue S else S)
         else S)"

definition add_text :: "(nat \<Rightarrow> owner) \<Rightarrow> nat list \<Rightarrow> ustring \<Rightarrow> class_page \<Rightarrow> class_page" where
  "add_text page es value S =
     (if value \<noteq> [] then fold (rewrite_class (add_names (words_of value)) page) es S else S)"

definition remove_text :: "(nat \<Rightarrow> owner) \<Rightarrow> nat list \<Rightarrow> ustring \<Rightarrow> class_page \<Rightarrow> class_page" where
  "remove_text page es value S =
     (if value \<noteq> [] then fold (rewrite_class (remove_names_from (words_of value)) page) es S else S)"

text \<open>The argument: a text, or a function that is called for every element with its index and its classes (and, for
  \<open>toggleClass\<close>, the second argument) and gives a text.\<close>

datatype class_arg = ClassText ustring | ClassFun "nat \<Rightarrow> nat \<Rightarrow> ustring \<Rightarrow> ustring"

fun each_index :: "(nat \<Rightarrow> nat \<Rightarrow> 's \<Rightarrow> 's) \<Rightarrow> nat \<Rightarrow> nat list \<Rightarrow> 's \<Rightarrow> 's" where
  "each_index f i [] S = S"
| "each_index f i (e # es) S = each_index f (i + 1) es (f i e S)"

fun fn_addClass :: "(nat \<Rightarrow> owner) \<Rightarrow> nat list \<Rightarrow> class_arg \<Rightarrow> class_page \<Rightarrow> class_page" where
  "fn_addClass page es (ClassFun f) S = each_index (\<lambda>j e S. add_text page [e] (f e j (getClass page S e)) S) 0 es S"
| "fn_addClass page es (ClassText value) S = add_text page es value S"

text \<open>Without an argument \<open>removeClass\<close> sets the attribute of the elements to the empty text.\<close>

fun fn_removeClass :: "(nat \<Rightarrow> owner) \<Rightarrow> nat list \<Rightarrow> class_arg option \<Rightarrow> class_page \<Rightarrow> class_page" where
  "fn_removeClass page es (Some (ClassFun f)) S = each_index (\<lambda>j e S. remove_text page [e] (f e j (getClass page S e)) S) 0 es S"
| "fn_removeClass page es (Some (ClassText value)) S = remove_text page es value S"
| "fn_removeClass page es None S = fold (\<lambda>e S. if nodeType (page e) = Some 1 then setAttribute e [] S else S) es S"

definition hasClass :: "(nat \<Rightarrow> owner) \<Rightarrow> nat list \<Rightarrow> ustring \<Rightarrow> class_page \<Rightarrow> bool" where
  "hasClass page es sel S =
     list_ex (\<lambda>e. nodeType (page e) = Some 1 \<and> cut (between sel) (blank # stripAndCollapse (getClass page S e) @ [blank]) \<noteq> None) es"

text \<open>The body of \<open>toggleClass\<close> for a text: one name after the other.\<close>

definition toggle_names :: "(nat \<Rightarrow> owner) \<Rightarrow> nat \<Rightarrow> ustring \<Rightarrow> class_page \<Rightarrow> class_page" where
  "toggle_names page e value =
     fold (\<lambda>c S. if hasClass page [e] c S then remove_text page [e] c S else add_text page [e] c S) (words_of value)"

text \<open>The body of \<open>toggleClass\<close> without a text: the whole attribute, kept in the private data. The stored value is a text.\<close>

definition className_key :: ustring where
  "className_key = u ''__className__''"

fun text_or_empty :: "jsval \<Rightarrow> ustring" where
  "text_or_empty (JStr s) = s"
| "text_or_empty _ = []"

definition toggle_whole :: "(nat \<Rightarrow> owner) \<Rightarrow> bool option \<Rightarrow> nat \<Rightarrow> class_page \<Rightarrow> class_page" where
  "toggle_whole page value e S =
     (let className = getClass page S e;
          S = (if className \<noteq> [] then
                 S\<lparr>class_data := (class_data S)\<lparr>dataPriv := data_set page e (KeyText className_key) (JStr className) (dataPriv (class_data S))\<rparr>\<rparr>
               else S)
      in if nodeType (page e) = Some 1
         then setAttribute e (if className \<noteq> [] \<or> value = Some False then []
                              else text_or_empty (data_get e className_key (dataPriv (class_data S)))) S
         else S)"

datatype toggle_arg = ToggleText ustring | ToggleFun "nat \<Rightarrow> nat \<Rightarrow> ustring \<Rightarrow> ustring" | ToggleWhole "bool option"

fun toggle_text :: "(nat \<Rightarrow> owner) \<Rightarrow> nat list \<Rightarrow> ustring \<Rightarrow> bool option \<Rightarrow> class_page \<Rightarrow> class_page" where
  "toggle_text page es value (Some stateVal) S = (if stateVal then add_text page es value S else remove_text page es value S)"
| "toggle_text page es value None S = fold (\<lambda>e. toggle_names page e value) es S"

fun fn_toggleClass :: "(nat \<Rightarrow> owner) \<Rightarrow> nat list \<Rightarrow> toggle_arg \<Rightarrow> bool option \<Rightarrow> class_page \<Rightarrow> class_page" where
  "fn_toggleClass page es (ToggleText value) stateVal S = toggle_text page es value stateVal S"
| "fn_toggleClass page es (ToggleFun f) stateVal S =
     each_index (\<lambda>i e S. toggle_text page [e] (f e i (getClass page S e)) stateVal S) 0 es S"
| "fn_toggleClass page es (ToggleWhole value) stateVal S = fold (toggle_whole page value) es S"

subsection \<open>Names between blanks\<close>

definition plain :: "ustring \<Rightarrow> bool" where
  "plain w \<longleftrightarrow> (\<forall>c \<in> set w. \<not> is_white c)"

text \<open>A name of a class: not empty and without white space.\<close>

definition class_name :: "ustring \<Rightarrow> bool" where
  "class_name w \<longleftrightarrow> w \<noteq> [] \<and> plain w"

definition blanked :: "ustring list \<Rightarrow> ustring" where
  "blanked vs = blank # concat (map (\<lambda>v. v @ [blank]) vs)"

definition add_last :: "'a \<Rightarrow> 'a list \<Rightarrow> 'a list" where
  "add_last x xs = (if x \<in> set xs then xs else xs @ [x])"

lemma blank_white [simp]: "is_white blank"
  by (simp add: blank_def is_white_def)

lemma plain_simps [simp]: "plain []" "plain (c # w) \<longleftrightarrow> \<not> is_white c \<and> plain w" "plain (v @ w) \<longleftrightarrow> plain v \<and> plain w"
  by (auto simp: plain_def)

lemma plain_no_blank: "plain w \<Longrightarrow> blank \<notin> set w"
  by (auto simp: plain_def)

lemma words_Nil [simp]: "words_of [] = []"
  by (simp add: words_of.simps)

lemma words_white [simp]: "is_white c \<Longrightarrow> words_of (c # s) = words_of s"
  by (simp add: words_of.simps [of "c # s"] words_of.simps [of s])

lemma words_word:
  assumes "plain v" "v \<noteq> []"
  shows "words_of v = [v]" "is_white c \<Longrightarrow> words_of (v @ c # s) = v # words_of s"
proof -
  have a: "dropWhile is_white v = v" "dropWhile is_white (v @ c # s) = v @ c # s"
    using assms by (cases v; simp)+
  have b: "takeWhile (\<lambda>c. \<not> is_white c) v = v" "dropWhile (\<lambda>c. \<not> is_white c) v = []"
    using assms by (auto simp: plain_def takeWhile_eq_all_conv)
  show "words_of v = [v]" using assms(2) by (simp only: words_of.simps [of v] a b Let_def words_Nil if_False simp_thms)
  assume c: "is_white c"
  then have "takeWhile (\<lambda>c. \<not> is_white c) (v @ c # s) = v" "dropWhile (\<lambda>c. \<not> is_white c) (v @ c # s) = c # s"
    using assms by (auto simp: plain_def takeWhile_append dropWhile_append)
  then show "words_of (v @ c # s) = v # words_of s" using a assms c by (simp add: words_of.simps [of "v @ c # s"])
qed

lemma words_class_names: "list_all class_name (words_of s)"
proof (induction s rule: words_of.induct)
  case (1 s)
  let ?r = "dropWhile is_white s"
  show ?case
  proof (cases "?r = []")
    case False
    then have "\<not> is_white (hd ?r)" by (metis hd_dropWhile)
    then have "class_name (takeWhile (\<lambda>c. \<not> is_white c) ?r)"
      using False by (cases ?r) (auto simp: class_name_def plain_def dest: set_takeWhileD)
    with 1 False show ?thesis by (simp only: words_of.simps [of s] Let_def if_False list.pred_inject simp_thms)
  qed (simp add: words_of.simps [of s])
qed

lemma first_word: "plain s \<or> (\<exists>v b r. s = v @ b # r \<and> plain v \<and> is_white b)"
proof (induction s)
  case (Cons c s)
  show ?case
  proof (cases "is_white c")
    case True
    then show ?thesis by (metis append_Nil plain_simps(1))
  next
    case False
    with Cons show ?thesis by (metis append_Cons plain_simps(2))
  qed
qed simp

lemma words_append: "is_white c \<Longrightarrow> words_of (s @ c # t) = words_of s @ words_of t"
proof (induction s rule: length_induct)
  case (1 s)
  from first_word [of s] consider "plain s" | v b r where "s = v @ b # r" "plain v" "is_white b" by blast
  then show ?case
  proof cases
    case 1
    with \<open>is_white c\<close> show ?thesis by (cases "s = []") (simp_all add: words_word)
  next
    case (2 v b r)
    with 1 have "words_of (r @ c # t) = words_of r @ words_of t" by simp
    with 2 show ?thesis by (cases "v = []") (simp_all add: words_word)
  qed
qed

lemma words_join: "words_of (join_blank ts) = concat (map words_of ts)"
proof (cases ts)
  case (Cons t us)
  have "words_of (t @ concat (map (\<lambda>w. blank # w) us)) = concat (map words_of (t # us))"
    by (induction us arbitrary: t) (simp_all add: words_append)
  with Cons show ?thesis by (simp add: join_blank_def)
qed (simp add: join_blank_def)

lemma blanked_simps [simp]: "blanked [] = [blank]" "blanked (v # vs) = blank # v @ blanked vs"
  by (simp_all add: blanked_def)

lemma blanked_snoc: "blanked (vs @ [v]) = blanked vs @ v @ [blank]"
  by (simp add: blanked_def)

lemma blanked_head: "\<exists>s. blanked vs = blank # s"
  by (simp add: blanked_def)

lemma words_blanked: "list_all plain vs \<Longrightarrow> words_of (blanked vs) = filter (\<lambda>v. v \<noteq> []) vs"
proof (induction vs)
  case (Cons v vs)
  obtain s where "blanked vs = blank # s" using blanked_head by blast
  with Cons show ?case by (cases "v = []") (auto simp: words_word)
qed simp

lemma joined_blanked: "blank # join_blank ws @ [blank] = blanked (if ws = [] then [[]] else ws)"
proof (cases ws)
  case (Cons w vs)
  have "concat (map (\<lambda>w. blank # w) vs) @ [blank] = blanked vs" by (induction vs) auto
  with Cons show ?thesis by (simp add: join_blank_def)
qed (simp add: join_blank_def)

lemma words_joined: "list_all class_name ws \<Longrightarrow> words_of (join_blank ws) = ws"
proof (cases ws)
  case (Cons w vs)
  have "words_of (w @ concat (map (\<lambda>w. blank # w) vs)) = w # vs" if "class_name w" "list_all class_name vs" for w vs
    using that by (induction vs arbitrary: w) (auto simp: class_name_def words_word)
  with Cons show "list_all class_name ws \<Longrightarrow> ?thesis" by (simp add: join_blank_def)
qed (simp add: join_blank_def)

lemma words_strip [simp]: "words_of (stripAndCollapse s) = words_of s"
  by (simp add: stripAndCollapse_def words_joined words_class_names)

lemma cut_skip: "c \<notin> set v \<Longrightarrow> cut (c # p) (v @ s) = map_option (\<lambda>(a, b). (v @ a, b)) (cut (c # p) s)"
  by (induction v) (auto simp: option.map_comp o_def case_prod_beta' option.map_id0 [unfolded id_def fun_eq_iff] option.map_ident)

lemma prefix_name: "blank \<notin> set c \<Longrightarrow> blank \<notin> set v \<Longrightarrow> prefix (c @ [blank]) (v @ blank # s) \<longleftrightarrow> c = v"
proof (induction c arbitrary: v)
  case Nil
  then show ?case by (cases v) auto
next
  case (Cons x c)
  then show ?case by (cases v) auto
qed

text \<open>The search for a name between blanks finds exactly the names of the list, and cutting it out of the text takes
  its first occurrence from the list.\<close>

lemma cut_blanked:
  assumes "plain c" "list_all plain vs"
  shows "case cut (between c) (blanked vs) of None \<Rightarrow> c \<notin> set vs
    | Some (a, b) \<Rightarrow> c \<in> set vs \<and> a @ blank # b = blanked (remove1 c vs)"
  using assms(2)
proof (induction vs)
  case Nil
  then show ?case by (simp add: between_def)
next
  case (Cons v vs)
  obtain s where s: "blanked vs = blank # s" using blanked_head by blast
  have p: "prefix (between c) (blanked (v # vs)) \<longleftrightarrow> c = v"
    using assms(1) Cons.prems prefix_name [of c v s] plain_no_blank by (auto simp: between_def s)
  show ?case
  proof (cases "c = v")
    case True
    with p s show ?thesis by (simp add: between_def)
  next
    case False
    have "cut (between c) (v @ blanked vs) = map_option (\<lambda>(a, b). (v @ a, b)) (cut (between c) (blanked vs))"
      using Cons.prems plain_no_blank [of v] by (simp add: between_def cut_skip)
    with False p Cons show ?thesis by (auto split: option.splits)
  qed
qed

lemma cut_none: "plain c \<Longrightarrow> list_all plain vs \<Longrightarrow> cut (between c) (blanked vs) = None \<longleftrightarrow> c \<notin> set vs"
  using cut_blanked [of c vs] by (auto split: option.splits)

lemma add_names_blanked:
  "list_all plain cs \<Longrightarrow> list_all plain vs \<Longrightarrow> add_names cs (blanked vs) = blanked (fold add_last cs vs)"
  by (induction cs arbitrary: vs) (auto simp: cut_none add_last_def simp flip: blanked_snoc)

lemma remove_name_blanked:
  assumes "plain c"
  shows "list_all plain vs \<Longrightarrow> remove_name c (blanked vs) = blanked (filter (\<lambda>v. v \<noteq> c) vs)"
proof (induction vs rule: length_induct)
  case (1 vs)
  show ?case
  proof (cases "cut (between c) (blanked vs)")
    case None
    then have "filter (\<lambda>v. v \<noteq> c) vs = vs" using 1 assms by (auto simp: cut_none filter_id_conv)
    with None show ?thesis by (simp add: remove_name.simps)
  next
    case (Some ab)
    obtain a b where ab: "ab = (a, b)" by (cases ab)
    with Some cut_blanked [OF assms 1(2)] have m: "c \<in> set vs" "a @ blank # b = blanked (remove1 c vs)" by auto
    have l: "length (remove1 c vs) < length vs" using m(1) by (simp add: length_remove1 length_pos_if_in_set [THEN diff_less [rotated]])
    have "list_all plain (remove1 c vs)" using 1(2) notin_set_remove1 by (fastforce simp: list_all_iff)
    moreover have "filter (\<lambda>v. v \<noteq> c) (remove1 c vs) = filter (\<lambda>v. v \<noteq> c) vs" by (induction vs) auto
    ultimately show ?thesis using 1(1) l Some ab m(2) by (simp add: remove_name.simps [of c "blanked vs"])
  qed
qed

lemma remove_names_blanked:
  "list_all plain cs \<Longrightarrow> list_all plain vs \<Longrightarrow> remove_names_from cs (blanked vs) = blanked (filter (\<lambda>v. v \<notin> set cs) vs)"
proof (induction cs arbitrary: vs)
  case (Cons c cs)
  have "list_all plain (filter (\<lambda>v. v \<noteq> c) vs)" using Cons.prems(2) by (auto simp: list_all_iff)
  with Cons show ?case by (simp add: remove_name_blanked conj_commute)
qed simp

subsection \<open>Rewriting the attribute\<close>

text \<open>A function \<open>f\<close> on the text between blanks that does what \<open>g\<close> does on the list of the names, where doing it again
  changes nothing: the contract under which the loop over the elements carries \<open>g\<close> to every element.\<close>

locale class_rewriter =
  fixes f :: "ustring \<Rightarrow> ustring" and g :: "ustring list \<Rightarrow> ustring list"
  assumes on_names: "list_all class_name ws \<Longrightarrow> words_of (f (blank # join_blank ws @ [blank])) = g ws"
    and again: "g (g ws) = g ws"
begin

lemma rewrite_at:
  assumes "nodeType (page e) = Some 1"
  shows "words_of (getClass page (rewrite_class f page e S) e) = g (words_of (getClass page S e))"
proof -
  let ?cur = "getClass page S e"
  have "words_of (stripAndCollapse (f (blank # stripAndCollapse ?cur @ [blank]))) = g (words_of ?cur)"
    using on_names [OF words_class_names, of ?cur] by (simp add: stripAndCollapse_def [of ?cur])
  moreover have "getClass page (rewrite_class f page e S) e = stripAndCollapse (f (blank # stripAndCollapse ?cur @ [blank]))"
    using assms by (auto simp: rewrite_class_def Let_def getClass_def setAttribute_def)
  ultimately show ?thesis by simp
qed

lemma rewrite_other: "e' \<noteq> e \<or> nodeType (page e) \<noteq> Some 1 \<Longrightarrow> class_attr (rewrite_class f page e S) e' = class_attr S e'"
  by (auto simp: rewrite_class_def setAttribute_def Let_def)

lemma rewrite_data: "class_data (rewrite_class f page e S) = class_data S"
  by (simp add: rewrite_class_def setAttribute_def Let_def)

lemma fold_data: "class_data (fold (rewrite_class f page) es S) = class_data S"
  by (induction es arbitrary: S) (simp_all add: rewrite_data)

lemma fold_other: "e \<notin> set es \<Longrightarrow> class_attr (fold (rewrite_class f page) es S) e = class_attr S e"
  by (induction es arbitrary: S) (simp_all add: rewrite_other)

lemma fold_at:
  assumes "nodeType (page e) = Some 1"
  shows "words_of (getClass page (fold (rewrite_class f page) es S) e)
    = (if e \<in> set es then g (words_of (getClass page S e)) else words_of (getClass page S e))"
proof (induction es arbitrary: S)
  case (Cons e' es)
  have "e' \<noteq> e \<Longrightarrow> getClass page (rewrite_class f page e' S) e = getClass page S e"
    by (simp add: getClass_def rewrite_other)
  with Cons rewrite_at [of page e, OF assms] again show ?case by (cases "e' = e") simp_all
qed simp

end

lemma class_name_plain: "list_all class_name ws \<Longrightarrow> list_all plain ws"
  by (auto simp: list_all_iff class_name_def)

lemma add_last_in [simp]: "set (add_last x xs) = insert x (set xs)"
  by (auto simp: add_last_def)

lemma set_fold_add: "set (fold add_last cs ws) = set ws \<union> set cs"
  by (induction cs arbitrary: ws) auto

lemma fold_add_known: "set cs \<subseteq> set ws \<Longrightarrow> fold add_last cs ws = ws"
  by (induction cs) (auto simp: add_last_def)

lemma filter_fold_add:
  "list_all class_name cs \<Longrightarrow> filter (\<lambda>v. v \<noteq> []) (fold add_last cs vs) = fold add_last cs (filter (\<lambda>v. v \<noteq> []) vs)"
  by (induction cs arbitrary: vs) (auto simp: add_last_def class_name_def)

lemma plain_fold_add: "list_all plain cs \<Longrightarrow> list_all plain vs \<Longrightarrow> list_all plain (fold add_last cs vs)"
  by (auto simp: list_all_iff set_fold_add)

lemma filter_names: "list_all class_name ws \<Longrightarrow> filter (\<lambda>v. v \<noteq> []) ws = ws"
  by (auto simp: filter_id_conv list_all_iff class_name_def)

interpretation adding: class_rewriter "add_names (words_of names)" "fold add_last (words_of names)" for names
proof
  fix ws :: "ustring list"
  assume ws: "list_all class_name ws"
  let ?vs = "if ws = [] then [[]] else ws"
  note p = words_class_names [of names] class_name_plain [OF words_class_names, of names]
  have v: "list_all plain ?vs" using class_name_plain [OF ws] by simp
  have "words_of (add_names (words_of names) (blanked ?vs)) = fold add_last (words_of names) (filter (\<lambda>v. v \<noteq> []) ?vs)"
    using p v by (simp only: add_names_blanked words_blanked plain_fold_add filter_fold_add)
  also have "filter (\<lambda>v. v \<noteq> []) ?vs = ws" using filter_names [OF ws] by auto
  finally show "words_of (add_names (words_of names) (blank # join_blank ws @ [blank])) = fold add_last (words_of names) ws"
    unfolding joined_blanked .
qed (rule fold_add_known, simp add: set_fold_add)

interpretation removing: class_rewriter "remove_names_from (words_of names)" "filter (\<lambda>v. v \<notin> set (words_of names))" for names
proof
  fix ws :: "ustring list"
  assume ws: "list_all class_name ws"
  let ?vs = "if ws = [] then [[]] else ws"
  have v: "list_all plain ?vs" "list_all plain (filter (\<lambda>v. v \<notin> set (words_of names)) ?vs)"
    using class_name_plain [OF ws] by (auto simp: list_all_iff)
  have "words_of (remove_names_from (words_of names) (blanked ?vs)) = filter (\<lambda>v. v \<notin> set (words_of names)) (filter (\<lambda>v. v \<noteq> []) ?vs)"
    using v class_name_plain [OF words_class_names, of names] by (simp only: remove_names_blanked words_blanked filter_filter conj_commute)
  also have "filter (\<lambda>v. v \<noteq> []) ?vs = ws" using filter_names [OF ws] by auto
  finally show "words_of (remove_names_from (words_of names) (blank # join_blank ws @ [blank])) = filter (\<lambda>v. v \<notin> set (words_of names)) ws"
    unfolding joined_blanked .
qed simp

subsection \<open>Properties\<close>

lemma add_text_words:
  "nodeType (page e) = Some 1 \<Longrightarrow> words_of (getClass page (add_text page es names S) e)
    = (if e \<in> set es then fold add_last (words_of names) (words_of (getClass page S e)) else words_of (getClass page S e))"
  by (auto simp: add_text_def adding.fold_at)

lemma remove_text_words:
  "nodeType (page e) = Some 1 \<Longrightarrow> words_of (getClass page (remove_text page es names S) e)
    = (if e \<in> set es then filter (\<lambda>v. v \<notin> set (words_of names)) (words_of (getClass page S e)) else words_of (getClass page S e))"
  by (auto simp: remove_text_def removing.fold_at)

lemma hasClass_words:
  assumes "nodeType (page e) = Some 1" "class_name c"
  shows "hasClass page [e] c S \<longleftrightarrow> c \<in> set (words_of (getClass page S e))"
proof -
  let ?ws = "words_of (getClass page S e)"
  have "list_all plain (if ?ws = [] then [[]] else ?ws)" using class_name_plain [OF words_class_names] by simp
  then have "cut (between c) (blanked (if ?ws = [] then [[]] else ?ws)) \<noteq> None \<longleftrightarrow> c \<in> set ?ws"
    using assms(2) by (subst cut_none) (auto simp: class_name_def)
  with assms(1) show ?thesis by (simp add: hasClass_def stripAndCollapse_def joined_blanked del: blanked_simps)
qed

text \<open>C39. The class functions on texts are the operations on lists of names: \<open>addClass\<close> appends, to each element of the
  selection, the names it does not have yet, in their order and each once; \<open>removeClass\<close> takes out every
  occurrence of every given name; \<open>hasClass\<close> tells whether a name is in the list. Names that merely contain a given
  name are left alone, and elements outside of the selection keep their attribute.\<close>

theorem class_functions_on_names:
  assumes "nodeType (page e) = Some 1" "class_name c"
  shows "(e \<in> set es \<longrightarrow>
      words_of (getClass page (fn_addClass page es (ClassText names) S) e) = fold add_last (words_of names) (words_of (getClass page S e)) \<and>
      words_of (getClass page (fn_removeClass page es (Some (ClassText names)) S) e)
        = filter (\<lambda>v. v \<notin> set (words_of names)) (words_of (getClass page S e))) \<and>
    (hasClass page es c S \<longleftrightarrow> (\<exists>x \<in> set es. nodeType (page x) = Some 1 \<and> c \<in> set (words_of (getClass page S x)))) \<and>
    (e \<notin> set es \<longrightarrow> class_attr (fn_addClass page es (ClassText names) S) e = class_attr S e \<and>
      class_attr (fn_removeClass page es (Some (ClassText names)) S) e = class_attr S e)"
proof -
  have "hasClass page es c S \<longleftrightarrow> (\<exists>x \<in> set es. nodeType (page x) = Some 1 \<and> hasClass page [x] c S)"
    by (auto simp: hasClass_def list_ex_iff)
  with assms hasClass_words [OF _ assms(2)] show ?thesis
    by (auto simp: add_text_words remove_text_words) (auto simp: add_text_def remove_text_def adding.fold_other removing.fold_other)
qed

definition demo_classes :: "ustring \<Rightarrow> class_page" where
  "demo_classes s = \<lparr>class_attr = \<lambda>_. Some s, class_data = no_data\<rparr>"

theorem class_functions_on_names_witness:
  "words_of (getClass (demo_page []) (fn_addClass (demo_page []) [0] (ClassText (u ''b a'')) (demo_classes (u ''ab  a''))) 0)
     = [u ''ab'', u ''a'', u ''b''] \<and>
   hasClass (demo_page []) [0] (u ''a'') (demo_classes (u ''ab  a''))"
proof -
  have c: "class_name (u ''a'')" by (simp add: class_name_def u_def is_white_def)
  have w: "words_of (u ''ab  a'') = [u ''ab'', u ''a'']" "words_of (u ''b a'') = [u ''b'', u ''a'']" by code_simp+
  have g: "getClass (demo_page []) (demo_classes (u ''ab  a'')) 0 = u ''ab  a''"
    by (simp add: getClass_def demo_page_def demo_classes_def)
  have n: "nodeType (demo_page [] 0) = Some 1" by (simp add: demo_page_def)
  have "fold add_last [u ''b'', u ''a''] [u ''ab'', u ''a''] = [u ''ab'', u ''a'', u ''b'']" by code_simp
  with class_functions_on_names [where page = "demo_page []" and e = 0 and es = "[0]" and names = "u ''b a''"
      and S = "demo_classes (u ''ab  a'')", OF n c] n w g
  show ?thesis by simp
qed

lemma toggle_names_single:
  assumes "nodeType (page e) = Some 1" "class_name c"
  shows "words_of (getClass page (if hasClass page [e] c S then remove_text page [e] c S else add_text page [e] c S) e)
    = (if c \<in> set (words_of (getClass page S e)) then filter (\<lambda>v. v \<noteq> c) (words_of (getClass page S e))
       else words_of (getClass page S e) @ [c])"
  using assms words_word(1) [of c]
  by (auto simp: hasClass_words remove_text_words add_text_words class_name_def add_last_def)

lemma toggle_names_set:
  assumes "nodeType (page e) = Some 1"
  shows "distinct cs \<Longrightarrow> list_all class_name cs \<Longrightarrow>
    set (words_of (getClass page (fold (\<lambda>c S. if hasClass page [e] c S then remove_text page [e] c S else add_text page [e] c S) cs S) e))
    = (set (words_of (getClass page S e)) - set cs) \<union> (set cs - set (words_of (getClass page S e)))"
proof (induction cs arbitrary: S)
  case (Cons c cs)
  from Cons.prems have c: "class_name c" by simp
  show ?case using Cons toggle_names_single [where page = page and e = e and S = S, OF assms c] by (auto split: if_splits)
qed simp

lemma toggle_whole_get:
  assumes "nodeType (page e) = Some 1"
  shows "getClass page (toggle_whole page None e S) e
    = (if getClass page S e \<noteq> [] then [] else text_or_empty (data_get e className_key (dataPriv (class_data S))))"
  using assms by (auto simp: toggle_whole_def Let_def getClass_def setAttribute_def)

lemma toggle_whole_data:
  assumes "nodeType (page e) = Some 1"
  shows "text_or_empty (data_get e className_key (dataPriv (class_data (toggle_whole page None e S))))
    = (if getClass page S e \<noteq> [] then getClass page S e else text_or_empty (data_get e className_key (dataPriv (class_data S))))"
  using assms data.look_assign_same [of page e "dataPriv (class_data S)" className_key className_key "JStr (getClass page S e)"]
  by (auto simp: toggle_whole_def Let_def setAttribute_def keeps_data_def acceptData_def)

text \<open>Toggling twice: with names (each given once) an element has the same classes as before, and without an
  argument its attribute gets back the very same text, which was kept in the private data in between.\<close>

theorem toggle_twice:
  assumes "nodeType (page e) = Some 1" "distinct (words_of names)"
  defines "by_name \<equiv> fn_toggleClass page [e] (ToggleText names) None"
  defines "whole \<equiv> fn_toggleClass page [e] (ToggleWhole None) None"
  shows "set (words_of (getClass page (by_name S) e))
      = (set (words_of (getClass page S e)) - set (words_of names)) \<union> (set (words_of names) - set (words_of (getClass page S e))) \<and>
    set (words_of (getClass page (by_name (by_name S)) e)) = set (words_of (getClass page S e)) \<and>
    (getClass page S e \<noteq> [] \<longrightarrow> getClass page (whole S) e = []) \<and>
    getClass page (whole (whole S)) e = getClass page S e"
proof -
  note t = toggle_names_set [where page = page and e = e, OF assms(1,2) words_class_names]
  have "set (words_of (getClass page (by_name S) e))
      = (set (words_of (getClass page S e)) - set (words_of names)) \<union> (set (words_of names) - set (words_of (getClass page S e)))" for S
    using t [of S] by (simp add: by_name_def toggle_names_def)
  moreover have "getClass page (whole S) e = (if getClass page S e \<noteq> [] then [] else text_or_empty (data_get e className_key (dataPriv (class_data S))))" for S
    using toggle_whole_get [where page = page and e = e, OF assms(1)] by (simp add: whole_def)
  moreover have "text_or_empty (data_get e className_key (dataPriv (class_data (whole S))))
      = (if getClass page S e \<noteq> [] then getClass page S e else text_or_empty (data_get e className_key (dataPriv (class_data S))))"
    using toggle_whole_data [where page = page and e = e, OF assms(1)] by (simp add: whole_def)
  ultimately show ?thesis by auto
qed

theorem toggle_twice_witness:
  "getClass (demo_page []) (fn_toggleClass (demo_page []) [0] (ToggleWhole None) None
     (fn_toggleClass (demo_page []) [0] (ToggleWhole None) None (demo_classes (u ''on off'')))) 0 = u ''on off''"
proof -
  have n: "nodeType (demo_page [] 0) = Some 1" by (simp add: demo_page_def)
  have "distinct (words_of (u ''on''))" by code_simp
  from toggle_twice [where page = "demo_page []" and e = 0 and S = "demo_classes (u ''on off'')", OF n this] n
  show ?thesis by (simp add: getClass_def demo_classes_def)
qed

end
