(* ===== verification/Events.thy ===== *)
theory Events
  imports DataStore "HOL-Library.Sublist" "HOL-Library.List_Lexorder"
begin

text \<open>
  The events of the library, \<open>jQuery.event\<close>: \<open>add\<close> and \<open>remove\<close> with names, name spaces and selectors, \<open>dispatch\<close> with
  delegated handlers, and the methods \<open>on\<close>, \<open>one\<close> and \<open>off\<close> of a selection, with which the page and its widgets
  listen to the mouse, the keyboard and the form.

  The private data of an element is its table of handlers, one list per type of event. Elements are numbers;
  the path from an element to the root of the document, whether a selector matches and whether an element
  contains another are parameters, as the document is one. What a handler does is a parameter too: it may
  change the tables, the event and the state of the client.
\<close>

subsection \<open>Names of events\<close>

text \<open>A token \<open>type.ns1.ns2\<close>, as \<open>rtypenamespace\<close> splits it: the type, and the rest if there is one. The name spaces
  are sorted; a token without them has the one empty name space.\<close>

fun split_dots :: "ustring \<Rightarrow> ustring list" where
  "split_dots [] = [[]]"
| "split_dots (c # s) = (if c = 46 then [] # split_dots s else
     (case split_dots s of [] \<Rightarrow> [[c]] | w # ws \<Rightarrow> (c # w) # ws))"

definition token_type :: "ustring \<Rightarrow> ustring" where
  "token_type tok = takeWhile (\<lambda>c. c \<noteq> 46) tok"

definition token_rest :: "ustring \<Rightarrow> ustring" where
  "token_rest tok = drop 1 (dropWhile (\<lambda>c. c \<noteq> 46) tok)"

definition token_spaces :: "ustring \<Rightarrow> ustring list" where
  "token_spaces tok = sort (split_dots (token_rest tok))"

definition tokens :: "ustring \<Rightarrow> ustring list" where
  "tokens types = (if words_of types = [] then [[]] else words_of types)"

fun join_dots :: "ustring list \<Rightarrow> ustring" where
  "join_dots [] = []"
| "join_dots [s] = s"
| "join_dots (s # ss) = s @ 46 # join_dots ss"

subsection \<open>Special events\<close>

record special =
  delegateType :: "ustring option"
  bindType :: "ustring option"
  has_setup :: bool
  enter_leave :: bool

definition no_special :: special where
  "no_special = \<lparr>delegateType = None, bindType = None, has_setup = False, enter_leave = False\<rparr>"

text \<open>\<open>jQuery.event.special\<close>; \<open>focusin_support\<close> tells whether the browser knows the events \<open>focusin\<close> and \<open>focusout\<close>,
  for which the library otherwise listens itself.\<close>

definition special_of :: "bool \<Rightarrow> ustring \<Rightarrow> special" where
  "special_of focusin_support t =
     (if t = u ''focus'' then no_special\<lparr>delegateType := Some (u ''focusin'')\<rparr>
      else if t = u ''blur'' then no_special\<lparr>delegateType := Some (u ''focusout'')\<rparr>
      else if t = u ''mouseenter'' then \<lparr>delegateType = Some (u ''mouseover''), bindType = Some (u ''mouseover''), has_setup = False, enter_leave = True\<rparr>
      else if t = u ''mouseleave'' then \<lparr>delegateType = Some (u ''mouseout''), bindType = Some (u ''mouseout''), has_setup = False, enter_leave = True\<rparr>
      else if t = u ''pointerenter'' then \<lparr>delegateType = Some (u ''pointerover''), bindType = Some (u ''pointerover''), has_setup = False, enter_leave = True\<rparr>
      else if t = u ''pointerleave'' then \<lparr>delegateType = Some (u ''pointerout''), bindType = Some (u ''pointerout''), has_setup = False, enter_leave = True\<rparr>
      else if t = u ''focusin'' \<or> t = u ''focusout'' then no_special\<lparr>has_setup := \<not> focusin_support\<rparr>
      else no_special)"

definition mapped_type :: "bool \<Rightarrow> bool \<Rightarrow> ustring \<Rightarrow> ustring" where
  "mapped_type fs delegated t =
     (case (if delegated then delegateType (special_of fs t) else bindType (special_of fs t)) of None \<Rightarrow> t | Some t' \<Rightarrow> t')"

subsection \<open>Tables of handlers\<close>

text \<open>The function of a handler: one of the client, the wrapper that \<open>one\<close> puts around it, or \<open>returnFalse\<close>.\<close>

datatype 'f fn = Fn 'f | OneFn "'f fn" | ReturnFalse

fun base :: "'f fn \<Rightarrow> 'f fn" where
  "base (OneFn f) = base f"
| "base f = f"

record 'f handleObj =
  htype :: ustring
  origType :: ustring
  hdata :: jsval
  hfn :: "'f fn"
  guid :: nat
  selector :: ustring
  namespace :: "ustring list"

text \<open>A selector that is not given is the empty text, which is falsy as \<open>undefined\<close> is.\<close>

record 'f hlist =
  delegateCount :: nat
  handlers :: "'f handleObj list"

type_synonym 'f events = "(ustring \<times> 'f hlist) list"

record 'f tables =
  events :: "nat \<Rightarrow> 'f events"
  listeners :: "(nat \<times> ustring) set"
  attaches :: "ustring \<Rightarrow> int"
  guids :: "'f fn \<Rightarrow> nat"
  next_guid :: nat

text \<open>The identity number of a function, 0 if it has none; the wrapper of \<open>one\<close> shares that of its function.\<close>

definition guid_of :: "'f fn \<Rightarrow> 'f tables \<Rightarrow> nat" where
  "guid_of f T = guids T (base f)"

definition ensure_guid :: "'f fn \<Rightarrow> 'f tables \<Rightarrow> 'f tables" where
  "ensure_guid f T =
     (if guid_of f T = 0 then T\<lparr>guids := (guids T)(base f := next_guid T), next_guid := next_guid T + 1\<rparr> else T)"

definition handlers_for :: "nat \<Rightarrow> ustring \<Rightarrow> 'f tables \<Rightarrow> 'f hlist" where
  "handlers_for e t T = (case map_of (events T e) t of None \<Rightarrow> \<lparr>delegateCount = 0, handlers = []\<rparr> | Some h \<Rightarrow> h)"

definition insert_handler :: "'f handleObj \<Rightarrow> 'f hlist \<Rightarrow> 'f hlist" where
  "insert_handler h l =
     (if selector h \<noteq> [] then
        \<lparr>delegateCount = delegateCount l + 1, handlers = take (delegateCount l) (handlers l) @ h # drop (delegateCount l) (handlers l)\<rparr>
      else l\<lparr>handlers := handlers l @ [h]\<rparr>)"

definition make_handler :: "bool \<Rightarrow> ustring \<Rightarrow> 'f fn \<Rightarrow> jsval \<Rightarrow> ustring \<Rightarrow> 'f tables \<Rightarrow> 'f handleObj" where
  "make_handler fs tok f data sel T =
     \<lparr>htype = mapped_type fs (sel \<noteq> []) (token_type tok), origType = token_type tok, hdata = data, hfn = f,
      guid = guid_of f T, selector = sel, namespace = token_spaces tok\<rparr>"

text \<open>The first handler of a type makes the element listen to it, or calls the set-up of the event, which counts the
  elements that want it; the last one undoes that.\<close>

definition attach :: "bool \<Rightarrow> nat \<Rightarrow> ustring \<Rightarrow> 'f tables \<Rightarrow> 'f tables" where
  "attach fs e t T =
     (if has_setup (special_of fs t) then T\<lparr>attaches := (attaches T)(t := attaches T t + 1)\<rparr>
      else T\<lparr>listeners := insert (e, t) (listeners T)\<rparr>)"

definition detach :: "bool \<Rightarrow> nat \<Rightarrow> ustring \<Rightarrow> ustring \<Rightarrow> 'f tables \<Rightarrow> 'f tables" where
  "detach fs e orig t T =
     (if has_setup (special_of fs orig) then T\<lparr>attaches := (attaches T)(orig := attaches T orig - 1)\<rparr>
      else T\<lparr>listeners := listeners T - {(e, t)}\<rparr>)"

text \<open>\<open>add\<close> for one token.\<close>

definition add_token :: "bool \<Rightarrow> nat \<Rightarrow> 'f fn \<Rightarrow> jsval \<Rightarrow> ustring \<Rightarrow> ustring \<Rightarrow> 'f tables \<Rightarrow> 'f tables" where
  "add_token fs e f data sel tok T =
     (if token_type tok = [] then T
      else
        (let h = make_handler fs tok f data sel T; t = htype h;
             T = (if map_of (events T e) t = None then attach fs e t T else T)
         in T\<lparr>events := (events T)(e := AList.update t (insert_handler h (handlers_for e t T)) (events T e))\<rparr>))"

text \<open>The tokens are taken from the last to the first.\<close>

definition event_add :: "bool \<Rightarrow> nat \<Rightarrow> ustring \<Rightarrow> 'f fn \<Rightarrow> jsval \<Rightarrow> ustring \<Rightarrow> 'f tables \<Rightarrow> 'f tables" where
  "event_add fs e types f data sel T = fold (add_token fs e f data sel) (rev (tokens types)) (ensure_guid f T)"

text \<open>The test of \<open>remove\<close> for one handler. The expression built from the name spaces asks for each of them, in
  order, among those of the handler.\<close>

definition removes :: "bool \<Rightarrow> ustring \<Rightarrow> nat option \<Rightarrow> ustring \<Rightarrow> 'f handleObj \<Rightarrow> bool" where
  "removes mapped tok g sel h \<longleftrightarrow>
     (mapped \<or> token_type tok = origType h) \<and> (case g of None \<Rightarrow> True | Some g \<Rightarrow> g = guid h) \<and>
     (token_rest tok = [] \<or> subseq (token_spaces tok) (namespace h)) \<and>
     (sel = [] \<or> sel = selector h \<or> sel = u ''**'' \<and> selector h \<noteq> [])"

fun drop_handlers :: "('f handleObj \<Rightarrow> bool) \<Rightarrow> 'f hlist \<Rightarrow> 'f hlist" where
  "drop_handlers p l =
     \<lparr>delegateCount = delegateCount l - length (filter (\<lambda>h. p h \<and> selector h \<noteq> []) (handlers l)),
      handlers = filter (\<lambda>h. \<not> p h) (handlers l)\<rparr>"

declare drop_handlers.simps [simp del]

definition remove_typed :: "bool \<Rightarrow> nat \<Rightarrow> nat option \<Rightarrow> ustring \<Rightarrow> bool \<Rightarrow> ustring \<Rightarrow> 'f tables \<Rightarrow> 'f tables" where
  "remove_typed fs e g sel mapped tok T =
     (let t = mapped_type fs (sel \<noteq> []) (token_type tok); l = handlers_for e t T; l' = drop_handlers (removes mapped tok g sel) l
      in if handlers l = [] then T
         else if handlers l' = [] then
           (let T = detach fs e (token_type tok) t T
            in T\<lparr>events := (events T)(e := AList.delete t (events T e))\<rparr>)
         else T\<lparr>events := (events T)(e := AList.update t l' (events T e))\<rparr>)"

text \<open>A token without type applies to every type of the element.\<close>

definition remove_token :: "bool \<Rightarrow> nat \<Rightarrow> nat option \<Rightarrow> ustring \<Rightarrow> ustring \<Rightarrow> 'f tables \<Rightarrow> 'f tables" where
  "remove_token fs e g sel tok T =
     (if token_type tok = [] then fold (\<lambda>t. remove_typed fs e g sel True (t @ tok)) (map fst (events T e)) T
      else remove_typed fs e g sel False tok T)"

definition event_remove :: "bool \<Rightarrow> nat \<Rightarrow> ustring \<Rightarrow> nat option \<Rightarrow> ustring \<Rightarrow> 'f tables \<Rightarrow> 'f tables" where
  "event_remove fs e types g sel T = fold (remove_token fs e g sel) (rev (tokens types)) T"

subsection \<open>Dispatch\<close>

record 'f event =
  etype :: ustring
  target :: nat
  currentTarget :: nat
  delegateTarget :: nat
  relatedTarget :: "nat option"
  button :: int
  rnamespace :: "ustring list option"
  isDefaultPrevented :: bool
  isPropagationStopped :: bool
  isImmediatePropagationStopped :: bool
  result :: jsval
  handleObj :: "'f handleObj option"
  event_data :: jsval

definition preventDefault :: "'f event \<Rightarrow> 'f event" where
  "preventDefault ev = ev\<lparr>isDefaultPrevented := True\<rparr>"

definition stopPropagation :: "'f event \<Rightarrow> 'f event" where
  "stopPropagation ev = ev\<lparr>isPropagationStopped := True\<rparr>"

definition stopImmediatePropagation :: "'f event \<Rightarrow> 'f event" where
  "stopImmediatePropagation ev = stopPropagation (ev\<lparr>isImmediatePropagationStopped := True\<rparr>)"

text \<open>\<open>which\<close> of an event of the mouse, from its buttons: bit 0 is the left one, bit 1 the right one, bit 2 the middle
  one.\<close>

definition which_button :: "nat \<Rightarrow> nat" where
  "which_button b = (if odd b then 1 else if odd (b div 2) then 3 else if odd (b div 4) then 2 else 0)"

text \<open>The document around an event: the elements from one to the root, whether a node is an element, whether it is
  disabled, whether a selector of a delegating element matches another, and whether an element contains another.\<close>

record document =
  path_up :: "nat \<Rightarrow> nat list"
  is_element :: "nat \<Rightarrow> bool"
  is_disabled :: "nat \<Rightarrow> bool"
  matches :: "nat \<Rightarrow> ustring \<Rightarrow> nat \<Rightarrow> bool"
  contains :: "nat \<Rightarrow> nat \<Rightarrow> bool"

text \<open>\<open>handlers\<close>: for each element from the target up to, but not including, the one that dispatches, its matching
  delegated handlers; then the direct ones.\<close>

definition delegates_at :: "document \<Rightarrow> nat \<Rightarrow> 'f handleObj list \<Rightarrow> nat \<Rightarrow> 'f handleObj list" where
  "delegates_at d this hs cur = filter (\<lambda>h. matches d this (selector h) cur) hs"

definition checked :: "document \<Rightarrow> 'f event \<Rightarrow> nat \<Rightarrow> bool" where
  "checked d ev cur \<longleftrightarrow> is_element d cur \<and> \<not> (etype ev = u ''click'' \<and> is_disabled d cur)"

definition event_handlers :: "document \<Rightarrow> nat \<Rightarrow> 'f event \<Rightarrow> 'f hlist \<Rightarrow> (nat \<times> 'f handleObj list) list" where
  "event_handlers d this ev l =
     (let dc = delegateCount l;
          up = takeWhile (\<lambda>cur. cur \<noteq> this) (path_up d (target ev));
          deleg = (if dc \<noteq> 0 \<and> \<not> (etype ev = u ''click'' \<and> 1 \<le> button ev)
                   then filter (\<lambda>m. snd m \<noteq> [])
                     (map (\<lambda>cur. (cur, delegates_at d this (take dc (handlers l)) cur)) (filter (checked d ev) up))
                   else [])
      in deleg @ (if dc < length (handlers l) then [(this, drop dc (handlers l))] else []))"

text \<open>The call of a handler: its return value, the event and the state after it. \<open>ReturnFalse\<close> returns \<open>false\<close>; the
  wrapper of \<open>one\<close> first removes itself, with the name, the selector and the number that it is filed under.\<close>

type_synonym ('f, 'w) code = "'f \<Rightarrow> nat \<Rightarrow> 'f event \<Rightarrow> 'f tables \<times> 'w \<Rightarrow> jsval \<times> 'f event \<times> 'f tables \<times> 'w"

definition off_event :: "bool \<Rightarrow> 'f event \<Rightarrow> 'f tables \<Rightarrow> 'f tables" where
  "off_event fs ev T = (case handleObj ev of
     None \<Rightarrow> T
   | Some h \<Rightarrow>
     event_remove fs (delegateTarget ev)
       (if join_dots (namespace h) \<noteq> [] then origType h @ 46 # join_dots (namespace h) else origType h)
       (Some (guid_of (hfn h) T)) (selector h) T)"

fun call_fn :: "bool \<Rightarrow> ('f, 'w) code \<Rightarrow> 'f fn \<Rightarrow> nat \<Rightarrow> 'f event \<Rightarrow> 'f tables \<times> 'w \<Rightarrow> jsval \<times> 'f event \<times> 'f tables \<times> 'w" where
  "call_fn fs code (Fn f) e ev s = code f e ev s"
| "call_fn fs code (OneFn f) e ev s = call_fn fs code f e ev (off_event fs ev (fst s), snd s)"
| "call_fn fs code ReturnFalse e ev s = (JBool False, ev, s)"

text \<open>The handlers of the events that enter or leave an element run when the pointer came from outside of it; the
  event has the name of the handler meanwhile.\<close>

definition call_handler :: "bool \<Rightarrow> document \<Rightarrow> ('f, 'w) code \<Rightarrow> 'f handleObj \<Rightarrow> nat \<Rightarrow> 'f event \<Rightarrow> 'f tables \<times> 'w
    \<Rightarrow> jsval \<times> 'f event \<times> 'f tables \<times> 'w" where
  "call_handler fs d code h e ev s =
     (if enter_leave (special_of fs (origType h)) then
        (if (case relatedTarget ev of None \<Rightarrow> True | Some r \<Rightarrow> r \<noteq> e \<and> \<not> contains d e r) then
           (case call_fn fs code (hfn h) e (ev\<lparr>etype := origType h\<rparr>) s of
              (r, ev', s') \<Rightarrow> (r, ev'\<lparr>etype := mapped_type fs False (origType h)\<rparr>, s'))
         else (JUndef, ev, s))
      else call_fn fs code (hfn h) e ev s)"

fun after_call :: "jsval \<times> 'f event \<times> 's \<Rightarrow> 'f event \<times> 's" where
  "after_call (r, ev, s) =
     (if r = JUndef then (ev, s)
      else (let ev = ev\<lparr>result := r\<rparr> in (if r = JBool False then stopPropagation (preventDefault ev) else ev, s)))"

definition name_matches :: "'f event \<Rightarrow> 'f handleObj \<Rightarrow> bool" where
  "name_matches ev h \<longleftrightarrow> (case rnamespace ev of None \<Rightarrow> True | Some ns \<Rightarrow> subseq ns (namespace h))"

fun run_handlers :: "bool \<Rightarrow> document \<Rightarrow> ('f, 'w) code \<Rightarrow> nat \<Rightarrow> 'f handleObj list \<Rightarrow> 'f event \<times> 'f tables \<times> 'w \<Rightarrow> 'f event \<times> 'f tables \<times> 'w" where
  "run_handlers fs d code e [] s = s"
| "run_handlers fs d code e (h # hs) (ev, s) =
     (if isImmediatePropagationStopped ev then (ev, s)
      else run_handlers fs d code e hs
        (if name_matches ev h
         then after_call (call_handler fs d code h e (ev\<lparr>handleObj := Some h, event_data := hdata h\<rparr>) s)
         else (ev, s)))"

fun run_queue :: "bool \<Rightarrow> document \<Rightarrow> ('f, 'w) code \<Rightarrow> (nat \<times> 'f handleObj list) list \<Rightarrow> 'f event \<times> 'f tables \<times> 'w \<Rightarrow> 'f event \<times> 'f tables \<times> 'w" where
  "run_queue fs d code [] s = s"
| "run_queue fs d code ((e, hs) # q) (ev, s) =
     (if isPropagationStopped ev then (ev, s)
      else run_queue fs d code q (run_handlers fs d code e hs (ev\<lparr>currentTarget := e\<rparr>, s)))"

definition dispatch :: "bool \<Rightarrow> document \<Rightarrow> ('f, 'w) code \<Rightarrow> nat \<Rightarrow> 'f event \<Rightarrow> 'f tables \<times> 'w \<Rightarrow> 'f event \<times> 'f tables \<times> 'w" where
  "dispatch fs d code this ev s =
     run_queue fs d code (event_handlers d this ev (handlers_for this (etype ev) (fst s))) (ev\<lparr>delegateTarget := this\<rparr>, s)"

subsection \<open>The methods of a selection\<close>

text \<open>The arguments of \<open>on\<close> after the types, as the source tells them apart: a text, a function, \<open>false\<close>, a missing or
  null argument, or other data. A text or other data in the place of the function, and a function as data, are
  calls that the library does not document; they are outside of the model.\<close>

datatype 'f arg = Missing | Text ustring | Func 'f | FalseArg | DataArg jsval

fun arg_data :: "'f arg \<Rightarrow> jsval" where
  "arg_data (Text s) = JStr s"
| "arg_data (DataArg v) = v"
| "arg_data FalseArg = JBool False"
| "arg_data _ = JUndef"

fun arg_selector :: "'f arg \<Rightarrow> ustring" where
  "arg_selector (Text s) = s"
| "arg_selector _ = []"

fun arg_fn :: "'f arg \<Rightarrow> 'f fn option" where
  "arg_fn (Func f) = Some (Fn f)"
| "arg_fn FalseArg = Some ReturnFalse"
| "arg_fn _ = None"

fun on_args :: "'f arg \<Rightarrow> 'f arg \<Rightarrow> 'f arg \<Rightarrow> ustring \<times> jsval \<times> 'f fn option" where
  "on_args sel Missing Missing = ([], JUndef, arg_fn sel)"
| "on_args (Text s) data Missing = (s, JUndef, arg_fn data)"
| "on_args sel data Missing = ([], arg_data sel, arg_fn data)"
| "on_args sel data f = (arg_selector sel, arg_data data, arg_fn f)"

definition on :: "bool \<Rightarrow> bool \<Rightarrow> nat list \<Rightarrow> ustring \<Rightarrow> 'f arg \<Rightarrow> 'f arg \<Rightarrow> 'f arg \<Rightarrow> 'f tables \<Rightarrow> 'f tables" where
  "on fs one es types sel data f T =
     (case on_args sel data f of
        (s, v, None) \<Rightarrow> T
      | (s, v, Some f) \<Rightarrow>
        (if one then fold (\<lambda>e. event_add fs e types (OneFn f) v s) es (ensure_guid f T)
         else fold (\<lambda>e. event_add fs e types f v s) es T))"

text \<open>\<open>off\<close> with types, a selector and a function; the function may stand in the place of the selector.\<close>

fun off_args :: "'f arg \<Rightarrow> 'f arg \<Rightarrow> ustring \<times> 'f fn option" where
  "off_args (Func g) f = ([], Some (Fn g))"
| "off_args FalseArg f = ([], Some ReturnFalse)"
| "off_args sel f = (arg_selector sel, arg_fn f)"

definition off :: "bool \<Rightarrow> nat list \<Rightarrow> ustring \<Rightarrow> 'f arg \<Rightarrow> 'f arg \<Rightarrow> 'f tables \<Rightarrow> 'f tables" where
  "off fs es types sel f T =
     (case off_args sel f of (s, g) \<Rightarrow>
       fold (\<lambda>e T. event_remove fs e types (map_option (\<lambda>g. guid_of g T) g) s T) es T)"

subsection \<open>The tables in order\<close>

text \<open>A list is in order when it is not empty, its delegated handlers stand in front and are counted, and its handlers
  have numbers. The tables are in order when every list is, every type has one list, and an element listens to
  exactly the types it has a list for, save those with a set-up of their own.\<close>

definition hlist_ok :: "'f hlist \<Rightarrow> bool" where
  "hlist_ok l \<longleftrightarrow> handlers l \<noteq> [] \<and> (\<forall>h \<in> set (handlers l). guid h \<noteq> 0) \<and>
     (\<exists>ds xs. handlers l = ds @ xs \<and> delegateCount l = length ds \<and>
        list_all (\<lambda>h. selector h \<noteq> []) ds \<and> list_all (\<lambda>h. selector h = []) xs)"

definition tables_ok :: "bool \<Rightarrow> 'f tables \<Rightarrow> bool" where
  "tables_ok fs T \<longleftrightarrow> 0 < next_guid T \<and>
     (\<forall>e. distinct (map fst (events T e)) \<and> (\<forall>t l. map_of (events T e) t = Some l \<longrightarrow> hlist_ok l) \<and>
        (\<forall>t. (e, t) \<in> listeners T \<longleftrightarrow> map_of (events T e) t \<noteq> None \<and> \<not> has_setup (special_of fs t)))"

lemma hlist_okI:
  assumes "handlers l = ds @ xs" "delegateCount l = length ds" "\<forall>h \<in> set ds. selector h \<noteq> []" "\<forall>h \<in> set xs. selector h = []"
    "ds @ xs \<noteq> []" "\<forall>h \<in> set (ds @ xs). guid h \<noteq> 0"
  shows "hlist_ok l"
  unfolding hlist_ok_def list_all_iff using assms by metis

lemma hlist_okD: "hlist_ok l \<Longrightarrow> handlers l \<noteq> [] \<and> delegateCount l \<le> length (handlers l)"
  by (auto simp: hlist_ok_def)

lemma tables_okD: "tables_ok fs T \<Longrightarrow> map_of (events T e) t = Some l \<Longrightarrow> hlist_ok l"
  unfolding tables_ok_def by blast

lemma insert_handler_ok:
  assumes "hlist_ok l \<or> l = \<lparr>delegateCount = 0, handlers = []\<rparr>" "guid h \<noteq> 0"
  shows "hlist_ok (insert_handler h l)"
proof -
  from assms(1) obtain ds xs where l: "handlers l = ds @ xs" "delegateCount l = length ds"
    "list_all (\<lambda>h. selector h \<noteq> []) ds" "list_all (\<lambda>h. selector h = []) xs" "\<forall>h \<in> set (ds @ xs). guid h \<noteq> 0"
    by (auto simp: hlist_ok_def)
  show ?thesis
  proof (cases "selector h = []")
    case True
    with l assms(2) show ?thesis by (intro hlist_okI [of _ ds "xs @ [h]"]) (auto simp: insert_handler_def list_all_iff)
  next
    case False
    with l assms(2) show ?thesis by (intro hlist_okI [of _ "ds @ [h]" xs]) (auto simp: insert_handler_def list_all_iff)
  qed
qed

lemma drop_handlers_ok:
  assumes "hlist_ok l" "handlers (drop_handlers p l) \<noteq> []"
  shows "hlist_ok (drop_handlers p l)"
proof -
  from assms(1) obtain ds xs where l: "handlers l = ds @ xs" "delegateCount l = length ds"
    "list_all (\<lambda>h. selector h \<noteq> []) ds" "list_all (\<lambda>h. selector h = []) xs" "\<forall>h \<in> set (ds @ xs). guid h \<noteq> 0"
    by (auto simp: hlist_ok_def)
  have "filter (\<lambda>h. p h \<and> selector h \<noteq> []) ds = filter p ds" "filter (\<lambda>h. p h \<and> selector h \<noteq> []) xs = []"
    using l(3,4) by (auto simp: list_all_iff filter_empty_conv intro: filter_cong)
  then have "delegateCount (drop_handlers p l) = length (filter (\<lambda>h. \<not> p h) ds)"
    using l(1,2) sum_length_filter_compl [of p ds] by (simp add: drop_handlers.simps)
  with l assms(2) show ?thesis
    by (intro hlist_okI [of _ "filter (\<lambda>h. \<not> p h) ds" "filter (\<lambda>h. \<not> p h) xs"]) (auto simp: list_all_iff drop_handlers.simps)
qed

lemma ensure_guid_ok: "tables_ok fs T \<Longrightarrow> tables_ok fs (ensure_guid f T) \<and> guid_of f (ensure_guid f T) \<noteq> 0"
  by (auto simp: tables_ok_def ensure_guid_def guid_of_def)

lemma guid_of_events [simp]:
  "guid_of f (T\<lparr>events := E\<rparr>) = guid_of f T" "guid_of f (attach fs e t T) = guid_of f T" "guid_of f (detach fs e r t T) = guid_of f T"
  by (simp_all add: guid_of_def attach_def detach_def)

lemma attach_events [simp]: "events (attach fs e t T) = events T" "events (detach fs e r t T) = events T"
  "next_guid (attach fs e t T) = next_guid T" "next_guid (detach fs e r t T) = next_guid T"
  by (simp_all add: attach_def detach_def)

lemma handlers_for_events: "events T' = events T \<Longrightarrow> handlers_for e t T' = handlers_for e t T"
  by (simp add: handlers_for_def)

lemma add_token_guid: "guid_of f (add_token fs e g data sel tok T) = guid_of f T"
  by (simp add: add_token_def Let_def)

lemma add_token_ok:
  assumes "tables_ok fs T" "guid_of f T \<noteq> 0"
  shows "tables_ok fs (add_token fs e f data sel tok T)"
proof (cases "token_type tok = []")
  case True
  with assms show ?thesis by (simp add: add_token_def)
next
  case False
  define h where "h = make_handler fs tok f data sel T"
  define t where "t = htype h"
  define l where "l = insert_handler h (handlers_for e t T)"
  have "hlist_ok (handlers_for e t T) \<or> handlers_for e t T = \<lparr>delegateCount = 0, handlers = []\<rparr>"
    using assms(1) by (auto simp: tables_ok_def handlers_for_def split: option.splits)
  then have l: "hlist_ok l" unfolding l_def using assms(2) by (intro insert_handler_ok) (auto simp: h_def make_handler_def)
  have T': "add_token fs e f data sel tok T =
      (if map_of (events T e) t = None then attach fs e t T else T)\<lparr>events := (events T)(e := AList.update t l (events T e))\<rparr>"
    using False by (auto simp: add_token_def Let_def h_def t_def l_def handlers_for_def)
  have d: "distinct (map fst (AList.update t l (events T e)))" using assms(1) by (simp add: tables_ok_def distinct_update)
  show ?thesis using assms(1) l d unfolding T' tables_ok_def
    by (auto simp: update_conv attach_def simp del: map_of_eq_Some_iff Some_eq_map_of_iff)
qed

lemma mapped_setup: "has_setup (special_of fs r) \<Longrightarrow> mapped_type fs b r = r"
  by (auto simp: mapped_type_def special_of_def no_special_def split: if_splits)

lemma remove_typed_ok:
  assumes "tables_ok fs T"
  shows "tables_ok fs (remove_typed fs e g sel mapped tok T)"
proof -
  define t where "t = mapped_type fs (sel \<noteq> []) (token_type tok)"
  define l where "l = handlers_for e t T"
  define l' where "l' = drop_handlers (removes mapped tok g sel) l"
  show ?thesis
  proof (cases "handlers l = []")
    case True
    then show ?thesis using assms by (simp add: remove_typed_def Let_def t_def [symmetric] l_def [symmetric])
  next
    case False
    then have m: "map_of (events T e) t = Some l" by (auto simp: l_def handlers_for_def split: option.splits)
    then have ok: "hlist_ok l" using assms by (auto simp: tables_ok_def)
    have own: "has_setup (special_of fs (token_type tok)) \<Longrightarrow> t = token_type tok" by (simp add: t_def mapped_setup)
    show ?thesis
    proof (cases "handlers l' = []")
      case True
      have "tables_ok fs (detach fs e (token_type tok) t T\<lparr>events := (events T)(e := AList.delete t (events T e))\<rparr>)"
        using assms own unfolding tables_ok_def by (auto simp: delete_conv' distinct_delete detach_def simp del: map_of_eq_Some_iff Some_eq_map_of_iff split: if_splits)
      then show ?thesis using False True
        by (simp add: remove_typed_def Let_def t_def [symmetric] l_def [symmetric] l'_def [symmetric])
    next
      case no: False
      then have "hlist_ok l'" using drop_handlers_ok [OF ok] by (simp add: l'_def)
      then have "tables_ok fs (T\<lparr>events := (events T)(e := AList.update t l' (events T e))\<rparr>)"
        using assms m unfolding tables_ok_def by (auto simp: update_conv distinct_update simp del: map_of_eq_Some_iff Some_eq_map_of_iff)
      then show ?thesis using False no
        by (simp add: remove_typed_def Let_def t_def [symmetric] l_def [symmetric] l'_def [symmetric])
    qed
  qed
qed

lemma fold_keeps: "P s \<Longrightarrow> (\<And>x s. x \<in> set xs \<Longrightarrow> P s \<Longrightarrow> P (f x s)) \<Longrightarrow> P (fold f xs s)"
  by (induction xs arbitrary: s) auto

lemma remove_token_ok: "tables_ok fs T \<Longrightarrow> tables_ok fs (remove_token fs e g sel tok T)"
  by (auto simp: remove_token_def intro: remove_typed_ok fold_keeps)

lemma event_remove_ok: "tables_ok fs T \<Longrightarrow> tables_ok fs (event_remove fs e types g sel T)"
  by (auto simp: event_remove_def intro: remove_token_ok fold_keeps)

lemma event_add_ok:
  assumes "tables_ok fs T"
  shows "tables_ok fs (event_add fs e types f data sel T)"
proof -
  have "tables_ok fs (fold (add_token fs e f data sel) toks T') \<and> guid_of f (fold (add_token fs e f data sel) toks T') \<noteq> 0"
    if "tables_ok fs T' \<and> guid_of f T' \<noteq> 0" for toks T'
    using that by (rule fold_keeps) (auto simp: add_token_ok add_token_guid)
  with ensure_guid_ok [OF assms, of f] show ?thesis by (simp add: event_add_def)
qed

lemma on_ok:
  assumes "tables_ok fs T"
  shows "tables_ok fs (on fs one es types sel data f T)"
proof -
  obtain s v h where a: "on_args sel data f = (s, v, h)" by (cases "on_args sel data f")
  have fold: "tables_ok fs (fold (\<lambda>e. event_add fs e types g v s) es T')" if "tables_ok fs T'" for g T'
    using that by (rule fold_keeps) (rule event_add_ok)
  show ?thesis
  proof (cases h)
    case (Some g)
    then show ?thesis using fold [of "ensure_guid g T" "OneFn g"] fold [of T g] assms ensure_guid_ok [OF assms, of g] by (simp add: on_def a)
  qed (use assms in \<open>simp add: on_def a\<close>)
qed

lemma off_ok:
  assumes "tables_ok fs T"
  shows "tables_ok fs (off fs es types sel f T)"
proof -
  obtain s g where a: "off_args sel f = (s, g)" by (cases "off_args sel f")
  show ?thesis unfolding off_def a prod.case using assms by (rule fold_keeps) (rule event_remove_ok)
qed

text \<open>The calls of a client.\<close>

datatype 'f call = On bool "nat list" ustring "'f arg" "'f arg" "'f arg" | Off "nat list" ustring "'f arg" "'f arg"

fun do_call :: "bool \<Rightarrow> 'f call \<Rightarrow> 'f tables \<Rightarrow> 'f tables" where
  "do_call fs (On one es types sel data f) T = on fs one es types sel data f T"
| "do_call fs (Off es types sel f) T = off fs es types sel f T"

definition no_handlers :: "'f tables" where
  "no_handlers = \<lparr>events = \<lambda>_. [], listeners = {}, attaches = \<lambda>_. 0, guids = \<lambda>_. 0, next_guid = 1\<rparr>"

lemma calls_ok: "tables_ok fs (fold (do_call fs) cs no_handlers)"
proof (rule fold_keeps)
  show "tables_ok fs no_handlers" by (simp add: tables_ok_def no_handlers_def)
  show "tables_ok fs (do_call fs c T)" if "tables_ok fs T" for c T
    using that by (cases c) (simp_all add: on_ok off_ok)
qed

text \<open>C24. After any sequence of calls of \<open>on\<close>, \<open>one\<close> and \<open>off\<close>, an element listens in the browser to exactly those types
  of events for which it has handlers (save those with a set-up of their own), no list of handlers is empty, and
  the delegated handlers of a list stand in front of the direct ones and are as many as its count says.\<close>

theorem listeners_match_handlers:
  "tables_ok fs (fold (do_call fs) cs no_handlers) \<and>
   ((e, t) \<in> listeners (fold (do_call fs) cs no_handlers) \<longleftrightarrow>
      handlers (handlers_for e t (fold (do_call fs) cs no_handlers)) \<noteq> [] \<and> \<not> has_setup (special_of fs t))"
proof -
  have ok: "tables_ok fs (fold (do_call fs) cs no_handlers)" by (rule calls_ok)
  then have "map_of (events (fold (do_call fs) cs no_handlers) e) t \<noteq> None \<longleftrightarrow>
      handlers (handlers_for e t (fold (do_call fs) cs no_handlers)) \<noteq> []"
    by (auto simp: tables_ok_def handlers_for_def hlist_ok_def simp del: map_of_eq_Some_iff split: option.splits)
  with ok show ?thesis by (auto simp: tables_ok_def)
qed

subsection \<open>The order of the calls\<close>

text \<open>Handlers that note their calls with \<open>lg\<close> in the state of the client and return \<open>r f\<close>; \<open>recorder\<close> keeps a list.\<close>

definition recording :: "('f \<Rightarrow> jsval) \<Rightarrow> ('f \<times> nat \<Rightarrow> 'w \<Rightarrow> 'w) \<Rightarrow> ('f, 'w) code" where
  "recording r lg f e ev s = (r f, ev, fst s, lg (f, e) (snd s))"

definition recorder :: "('f \<Rightarrow> jsval) \<Rightarrow> ('f, ('f \<times> nat) list) code" where
  "recorder r = recording r (\<lambda>x w. w @ [x])"

lemma fold_snoc: "fold (\<lambda>x w. w @ [x]) xs w = w @ xs"
  by (induction xs arbitrary: w) auto

fun the_fn :: "'f fn \<Rightarrow> 'f" where
  "the_fn (Fn f) = f"
| "the_fn (OneFn f) = the_fn f"
| "the_fn ReturnFalse = undefined"

text \<open>The calls of a dispatch: element by element, up to the first element with a handler that returns \<open>false\<close>.\<close>

fun reached :: "('f \<Rightarrow> jsval) \<Rightarrow> (nat \<times> 'f handleObj list) list \<Rightarrow> ('f \<times> nat) list" where
  "reached r [] = []"
| "reached r ((e, hs) # q) = map (\<lambda>h. (the_fn (hfn h), e)) hs @
     (if \<exists>h \<in> set hs. r (the_fn (hfn h)) = JBool False then [] else reached r q)"

definition simple_handler :: "bool \<Rightarrow> 'f handleObj \<Rightarrow> bool" where
  "simple_handler fs h \<longleftrightarrow> (\<exists>f. hfn h = Fn f) \<and> \<not> enter_leave (special_of fs (origType h))"

definition live_event :: "'f event \<Rightarrow> bool" where
  "live_event ev \<longleftrightarrow> rnamespace ev = None \<and> \<not> isImmediatePropagationStopped ev"

text \<open>What a dispatch leaves of an event, besides its results: the name, the target and the button.\<close>

definition same_event :: "'f event \<Rightarrow> 'f event \<Rightarrow> bool" where
  "same_event ev ev' \<longleftrightarrow> etype ev' = etype ev \<and> target ev' = target ev \<and> button ev' = button ev"

lemma run_handlers_recording:
  assumes "\<forall>h \<in> set hs. simple_handler fs h" "live_event ev"
  shows "\<exists>ev'. run_handlers fs d (recording r lg) e hs (ev, T, w) = (ev', T, fold lg (map (\<lambda>h. (the_fn (hfn h), e)) hs) w) \<and>
    live_event ev' \<and> same_event ev ev' \<and>
    isPropagationStopped ev' = (isPropagationStopped ev \<or> (\<exists>h \<in> set hs. r (the_fn (hfn h)) = JBool False))"
  using assms
proof (induction hs arbitrary: ev w)
  case (Cons h hs)
  obtain f where f: "hfn h = Fn f" and n: "\<not> enter_leave (special_of fs (origType h))" using Cons.prems(1) by (auto simp: simple_handler_def)
  define ev0 where "ev0 = ev\<lparr>handleObj := Some h, event_data := hdata h\<rparr>"
  define ev1 where "ev1 = fst (after_call (r f, ev0, (T, lg (f, e) w)))"
  have ev1: "live_event ev1" "same_event ev ev1" "isPropagationStopped ev1 = (isPropagationStopped ev \<or> r f = JBool False)"
    "after_call (r f, ev0, (T, lg (f, e) w)) = (ev1, T, lg (f, e) w)"
    using Cons.prems(2) by (auto simp: ev1_def ev0_def live_event_def same_event_def stopPropagation_def preventDefault_def Let_def)
  have step: "run_handlers fs d (recording r lg) e (h # hs) (ev, T, w) = run_handlers fs d (recording r lg) e hs (ev1, T, lg (f, e) w)"
    using Cons.prems(2) f n ev1(4) by (simp add: live_event_def name_matches_def call_handler_def recording_def ev0_def)
  obtain ev' where "run_handlers fs d (recording r lg) e hs (ev1, T, lg (f, e) w) =
      (ev', T, fold lg (map (\<lambda>h. (the_fn (hfn h), e)) hs) (lg (f, e) w))" "live_event ev'" "same_event ev1 ev'"
    "isPropagationStopped ev' = (isPropagationStopped ev1 \<or> (\<exists>h \<in> set hs. r (the_fn (hfn h)) = JBool False))"
    using Cons.IH [OF _ ev1(1), of "lg (f, e) w"] Cons.prems(1) by auto
  with step ev1(2,3) f show ?case by (auto simp: same_event_def)
qed (simp add: same_event_def)

text \<open>Whether a call of the queue returned \<open>false\<close>.\<close>

definition refused :: "('f \<Rightarrow> jsval) \<Rightarrow> (nat \<times> 'f handleObj list) list \<Rightarrow> bool" where
  "refused r q \<longleftrightarrow> (\<exists>(e, hs) \<in> set q. \<exists>h \<in> set hs. r (the_fn (hfn h)) = JBool False)"

lemma run_queue_recording:
  assumes "\<forall>m \<in> set q. \<forall>h \<in> set (snd m). simple_handler fs h" "live_event ev" "\<not> isPropagationStopped ev"
  shows "\<exists>ev'. run_queue fs d (recording r lg) q (ev, T, w) = (ev', T, fold lg (reached r q) w) \<and>
    live_event ev' \<and> same_event ev ev' \<and> isPropagationStopped ev' = refused r q"
  using assms
proof (induction q arbitrary: ev w)
  case Nil
  then show ?case by (simp add: refused_def same_event_def)
next
  case (Cons m q)
  obtain e hs where m: "m = (e, hs)" by (cases m)
  have "live_event (ev\<lparr>currentTarget := e\<rparr>)" using Cons.prems(2) by (simp add: live_event_def)
  then obtain ev' where run: "run_handlers fs d (recording r lg) e hs (ev\<lparr>currentTarget := e\<rparr>, T, w) =
      (ev', T, fold lg (map (\<lambda>h. (the_fn (hfn h), e)) hs) w)" and ev': "live_event ev'" "same_event ev ev'"
    "isPropagationStopped ev' = (isPropagationStopped ev \<or> (\<exists>h \<in> set hs. r (the_fn (hfn h)) = JBool False))"
    using run_handlers_recording [of hs fs "ev\<lparr>currentTarget := e\<rparr>" d r lg e T w] Cons.prems(1) m by (auto simp: same_event_def)
  show ?case
  proof (cases "isPropagationStopped ev'")
    case True
    then have "run_queue fs d (recording r lg) q (ev', x) = (ev', x)" for x by (cases q) auto
    with True run ev' m Cons.prems(3) show ?thesis by (auto simp: refused_def)
  next
    case False
    have s: "\<forall>m \<in> set q. \<forall>h \<in> set (snd m). simple_handler fs h" using Cons.prems(1) by simp
    obtain ev'' where "run_queue fs d (recording r lg) q (ev', T, fold lg (map (\<lambda>h. (the_fn (hfn h), e)) hs) w) =
        (ev'', T, fold lg (reached r q) (fold lg (map (\<lambda>h. (the_fn (hfn h), e)) hs) w))"
      "live_event ev''" "same_event ev' ev''" "isPropagationStopped ev'' = refused r q"
      using Cons.IH [OF s ev'(1) False] by blast
    with False run ev' m Cons.prems(3) show ?thesis by (auto simp: refused_def same_event_def)
  qed
qed

lemma event_handlers_members: "(e, hs) \<in> set (event_handlers d this ev l) \<Longrightarrow> set hs \<subseteq> set (handlers l)"
  by (auto simp: event_handlers_def delegates_at_def Let_def dest: in_set_takeD in_set_dropD split: if_splits)

lemma dispatch_recording:
  fixes d :: document
  assumes "\<forall>h \<in> set (handlers (handlers_for this (etype ev) T)). simple_handler fs h" "live_event ev" "\<not> isPropagationStopped ev"
  defines "q \<equiv> event_handlers d this ev (handlers_for this (etype ev) T)"
  shows "\<exists>ev'. dispatch fs d (recording r lg) this ev (T, w) = (ev', T, fold lg (reached r q) w) \<and>
    live_event ev' \<and> same_event ev ev' \<and> isPropagationStopped ev' = refused r q"
proof -
  have "\<forall>m \<in> set q. \<forall>h \<in> set (snd m). simple_handler fs h"
    using assms(1) event_handlers_members [of _ _ d this ev "handlers_for this (etype ev) T"] unfolding q_def by fastforce
  moreover have "live_event (ev\<lparr>delegateTarget := this\<rparr>)" using assms(2) by (simp add: live_event_def)
  ultimately show ?thesis using assms(3) run_queue_recording [of q fs "ev\<lparr>delegateTarget := this\<rparr>" d r lg T w]
    by (simp add: dispatch_def q_def [symmetric] same_event_def)
qed


definition demo_document :: document where
  "demo_document = \<lparr>path_up = (\<lambda>e. rev [0..<Suc e]), is_element = (\<lambda>_. True), is_disabled = (\<lambda>_. False),
     matches = (\<lambda>_ _ _. True), contains = (\<lambda>a b. a < b)\<rparr>"

definition demo_event :: "nat event" where
  "demo_event = \<lparr>etype = u ''click'', target = 2, currentTarget = 2, delegateTarget = 2, relatedTarget = None, button = 0,
     rnamespace = None, isDefaultPrevented = False, isPropagationStopped = False, isImmediatePropagationStopped = False,
     result = JUndef, handleObj = None, event_data = JUndef\<rparr>"

definition demo_tables :: "nat tables" where
  "demo_tables = on True False [0] (u ''click'') (Func 8) Missing Missing (on True False [0] (u ''click.a'') (Text (u ''p'')) (Func 7) Missing no_handlers)"


subsection \<open>\<open>off\<close> undoes \<open>on\<close>\<close>

lemma update_twice: "AList.update k v (AList.update k v' al) = AList.update k v al"
  by (induction al) auto

lemma update_same: "map_of al k = Some v \<Longrightarrow> AList.update k v al = al"
  by (induction al) (auto split: if_splits)

lemma delete_update_new: "map_of al k = None \<Longrightarrow> AList.delete k (AList.update k v al) = al"
  by (induction al) (auto simp: AList.delete_eq filter_id_conv map_of_eq_None_iff split: if_splits)

lemma drop_inserted:
  assumes "p h" "\<forall>x \<in> set (handlers l). \<not> p x" "delegateCount l \<le> length (handlers l)"
  shows "drop_handlers p (insert_handler h l) = l"
proof -
  have none: "filter (\<lambda>x. \<not> p x) (handlers l) = handlers l" "filter (\<lambda>x. p x \<and> selector x \<noteq> []) (handlers l) = []"
    using assms(2) by (auto simp: filter_id_conv filter_empty_conv)
  have part: "filter q (take n (handlers l)) @ filter q (drop n (handlers l)) = filter q (handlers l)" for q n
    by (metis append_take_drop_id filter_append)
  have "filter (\<lambda>x. p x \<and> selector x \<noteq> []) (take n (handlers l)) = []" "filter (\<lambda>x. p x \<and> selector x \<noteq> []) (drop n (handlers l)) = []" for n
    using part [of "\<lambda>x. p x \<and> selector x \<noteq> []" n] none(2) by auto
  with assms(1) none part [of "\<lambda>x. \<not> p x" "delegateCount l"] show ?thesis
    by (cases l) (simp add: insert_handler_def drop_handlers.simps)
qed


lemma demo_tables_ok: "tables_ok True demo_tables"
  unfolding demo_tables_def by (intro on_ok) (simp add: tables_ok_def no_handlers_def)


text \<open>In a browser without \<open>focusin\<close>, the delegated handlers of \<open>focus\<close> are set up through the special event \<open>focusin\<close>, but
  removed through the special event \<open>focus\<close>, which has no tear-down: the count of the document, and with it the
  capturing listener, stays.\<close>

lemma focusin_stays_attached:
  "events (off False [0] (u ''focus'') (Text (u ''p'')) (Func (7 :: nat))
     (on False False [0] (u ''focus'') (Text (u ''p'')) (Func 7) Missing no_handlers)) 0 = []"
  "attaches (off False [0] (u ''focus'') (Text (u ''p'')) (Func (7 :: nat))
     (on False False [0] (u ''focus'') (Text (u ''p'')) (Func 7) Missing no_handlers)) (u ''focusin'') = 1"
  by code_simp+

end
