(* ===== verification/Trigger.thy ===== *)
theory Trigger
  imports Events
begin

text \<open>
  Events that the library fires itself: \<open>jQuery.event.trigger\<close>, which walks from an element up to the window and runs
  the handlers of each node by \<open>dispatch\<close>, calls the functions in the properties \<open>onclick\<close> and the like, and at the end
  the method of the element with the name of the event; \<open>trigger\<close> and \<open>triggerHandler\<close> of a selection, \<open>simulate\<close>, and
  the methods \<open>click(...)\<close>, \<open>change(...)\<close> and so on with which the page binds its handlers.

  The browser is a parameter: the kind of a node, the window, and for each method of an element what the browser
  does when it is called, as the list of the functions that it calls in turn. A handler of the library is skipped
  there when its event is the one that is being triggered. \<open>event.isTrigger\<close>, which only handlers read, and events
  given as plain objects are not modelled; handlers do not throw.
\<close>

subsection \<open>The browser\<close>

text \<open>What changes besides the tables: \<open>jQuery.event.triggered\<close>, the functions in the properties of the nodes,
  \<open>document.activeElement\<close>, and the state of the client.\<close>

record ('f, 'w) env =
  triggered :: "ustring option"
  on_props :: "nat \<Rightarrow> ustring \<Rightarrow> 'f option"
  activeElement :: "nat option"
  client :: 'w

datatype 'f delivery = ToListener nat "'f event" | ToProperty nat "'f event" | SetActive "nat option"

record 'f browser =
  node_of :: "nat \<Rightarrow> owner"
  is_window :: "nat \<Rightarrow> bool"
  ownerDocument :: "nat \<Rightarrow> nat"
  defaultView :: "nat \<Rightarrow> nat"
  is_checkable :: "nat \<Rightarrow> bool"
  is_link :: "nat \<Rightarrow> bool"
  reactions :: "nat \<Rightarrow> ustring \<Rightarrow> 'f delivery list option"

text \<open>The main handler of an element, which the first call of \<open>on\<close> makes and the browser or \<open>trigger\<close> calls.\<close>

definition event_handle :: "bool \<Rightarrow> document \<Rightarrow> ('f, ('f, 'w) env) code \<Rightarrow> nat \<Rightarrow> 'f event \<Rightarrow> 'f tables \<times> ('f, 'w) env
    \<Rightarrow> 'f event \<times> 'f tables \<times> ('f, 'w) env" where
  "event_handle fs d code e ev s = (if triggered (snd s) \<noteq> Some (etype ev) then dispatch fs d code e ev s else (ev, s))"

fun deliver :: "bool \<Rightarrow> document \<Rightarrow> ('f, ('f, 'w) env) code \<Rightarrow> 'f delivery \<Rightarrow> 'f tables \<times> ('f, 'w) env \<Rightarrow> 'f tables \<times> ('f, 'w) env" where
  "deliver fs d code (ToListener e ev) s =
     (if (e, etype ev) \<in> listeners (fst s) then snd (event_handle fs d code e ev s) else s)"
| "deliver fs d code (ToProperty e ev) s =
     (case on_props (snd s) e (etype ev) of None \<Rightarrow> s | Some f \<Rightarrow> snd (snd (code f e ev s)))"
| "deliver fs d code (SetActive a) s = (fst s, (snd s)\<lparr>activeElement := a\<rparr>)"

definition react :: "bool \<Rightarrow> document \<Rightarrow> ('f, ('f, 'w) env) code \<Rightarrow> 'f delivery list \<Rightarrow> 'f tables \<times> ('f, 'w) env \<Rightarrow> 'f tables \<times> ('f, 'w) env" where
  "react fs d code ds s = fold (deliver fs d code) ds s"

subsection \<open>\<open>trigger\<close>\<close>

text \<open>The event: a name, for which a new event is made, or an event object, which has a target.\<close>

datatype 'f trigger_arg = ByName ustring | ByEvent "'f event"

definition new_event :: "ustring \<Rightarrow> nat \<Rightarrow> 'f event" where
  "new_event t e = \<lparr>etype = t, target = e, currentTarget = e, delegateTarget = e, relatedTarget = None, button = 0,
     rnamespace = None, isDefaultPrevented = False, isPropagationStopped = False, isImmediatePropagationStopped = False,
     result = JUndef, handleObj = None, event_data = JUndef\<rparr>"

fun given_type :: "'f trigger_arg \<Rightarrow> ustring" where
  "given_type (ByName t) = t"
| "given_type (ByEvent ev) = etype ev"

fun given_spaces :: "'f trigger_arg \<Rightarrow> ustring list" where
  "given_spaces (ByName t) = []"
| "given_spaces (ByEvent ev) = (case rnamespace ev of None \<Rightarrow> [] | Some ns \<Rightarrow> ns)"

definition trigger_parts :: "'f trigger_arg \<Rightarrow> ustring \<times> ustring list" where
  "trigger_parts te =
     (if 46 \<in> set (given_type te) then (hd (split_dots (given_type te)), sort (tl (split_dots (given_type te))))
      else (given_type te, given_spaces te))"

definition trigger_event :: "'f trigger_arg \<Rightarrow> ustring \<Rightarrow> ustring list \<Rightarrow> nat \<Rightarrow> 'f event" where
  "trigger_event te t ns e =
     (case te of ByName _ \<Rightarrow> new_event t e | ByEvent ev \<Rightarrow> ev)\<lparr>rnamespace := (if join_dots ns = [] then None else Some ns), result := JUndef\<rparr>"

text \<open>The arguments after the event.\<close>

definition trigger_data :: "jsval \<Rightarrow> jsval list" where
  "trigger_data data = (if data = JUndef \<or> data = JNull then [] else case makeArray data [] of Inl _ \<Rightarrow> [] | Inr vs \<Rightarrow> vs)"

text \<open>\<open>rfocusMorph\<close>, on two names put together.\<close>

definition focus_morph :: "ustring \<Rightarrow> ustring \<Rightarrow> bool" where
  "focus_morph a b \<longleftrightarrow> a @ b = u ''focusinfocus'' \<or> a @ b = u ''focusoutblur''"

text \<open>The methods \<open>trigger\<close> of the special events: \<open>Some\<close> what the browser does, when the native method stands in.\<close>

definition special_trigger :: "'f browser \<Rightarrow> ustring \<Rightarrow> nat \<Rightarrow> ('f, 'w) env \<Rightarrow> 'f delivery list option" where
  "special_trigger P t e env =
     (if t = u ''focus'' \<and> activeElement env \<noteq> Some e \<or> t = u ''blur'' \<and> activeElement env = Some e \<or> t = u ''click'' \<and> is_checkable P e
      then reactions P e t else None)"

text \<open>The nodes on which the event is run, each with the name of the event there.\<close>

definition event_path :: "bool \<Rightarrow> document \<Rightarrow> 'f browser \<Rightarrow> bool \<Rightarrow> ustring \<Rightarrow> nat \<Rightarrow> (nat \<times> ustring) list" where
  "event_path fs d P onlyHandlers t e =
     (let first = (e, mapped_type fs False t)
      in if onlyHandlers \<or> t = u ''load'' \<or> is_window P e then [first]
         else
           (let bubbleType = mapped_type fs True t;
                above = (if focus_morph bubbleType t then e # drop 1 (path_up d e) else drop 1 (path_up d e));
                tmp = last (e # above);
                win = (if tmp = ownerDocument P e then [defaultView P tmp] else [])
            in first # map (\<lambda>x. (x, bubbleType)) (above @ win)))"

text \<open>One node: the handlers of the library, then the function in the property.\<close>

definition at_node :: "bool \<Rightarrow> document \<Rightarrow> 'f browser \<Rightarrow> ('f, ('f, 'w) env) code \<Rightarrow> ustring option \<Rightarrow> nat
    \<Rightarrow> 'f event \<times> 'f tables \<times> ('f, 'w) env \<Rightarrow> 'f event \<times> 'f tables \<times> ('f, 'w) env" where
  "at_node fs d P code ontype cur s =
     (let (ev, st) = (if map_of (events (fst (snd s)) cur) (etype (fst s)) \<noteq> None then event_handle fs d code cur (fst s) (snd s) else s)
      in case ontype of
           None \<Rightarrow> (ev, st)
         | Some t \<Rightarrow>
           (case on_props (snd st) cur t of
              None \<Rightarrow> (ev, st)
            | Some f \<Rightarrow>
              if acceptData (node_of P cur) then
                (case code f cur ev st of (r, ev, st) \<Rightarrow>
                  (let ev = ev\<lparr>result := r\<rparr> in (if r = JBool False then preventDefault ev else ev, st)))
              else (ev, st)))"

fun walk :: "bool \<Rightarrow> document \<Rightarrow> 'f browser \<Rightarrow> ('f, ('f, 'w) env) code \<Rightarrow> ustring option \<Rightarrow> (nat \<times> ustring) list
    \<Rightarrow> 'f event \<times> 'f tables \<times> ('f, 'w) env \<Rightarrow> 'f event \<times> 'f tables \<times> ('f, 'w) env" where
  "walk fs d P code ontype [] s = s"
| "walk fs d P code ontype ((cur, t) # path) (ev, st) =
     (if isPropagationStopped ev then (ev, st)
      else walk fs d P code ontype path (at_node fs d P code ontype cur (ev\<lparr>etype := t\<rparr>, st)))"

text \<open>The default action: the method of the element, with the property taken away and the name noted meanwhile.\<close>

definition default_action :: "bool \<Rightarrow> document \<Rightarrow> 'f browser \<Rightarrow> ('f, ('f, 'w) env) code \<Rightarrow> ustring \<Rightarrow> nat \<Rightarrow> 'f event
    \<Rightarrow> 'f tables \<times> ('f, 'w) env \<Rightarrow> 'f tables \<times> ('f, 'w) env" where
  "default_action fs d P code t e ev s =
     (if \<not> (t = u ''click'' \<and> is_link P (target ev)) \<and> acceptData (node_of P e) \<and> 58 \<notin> set t \<and> \<not> is_window P e then
        (case reactions P e t of
           None \<Rightarrow> s
         | Some ds \<Rightarrow>
           (let tmp = on_props (snd s) e t;
                env = (snd s)\<lparr>on_props := (on_props (snd s))(e := (on_props (snd s) e)(t := None)), triggered := Some t\<rparr>;
                (T, env) = react fs d code ds (fst s, env);
                env = env\<lparr>triggered := None\<rparr>
            in (T, if tmp \<noteq> None then env\<lparr>on_props := (on_props env)(e := (on_props env e)(t := tmp))\<rparr> else env)))
      else s)"

text \<open>The result, the event afterwards and the state. \<open>code args\<close> are the functions of the client, called with the
  arguments \<open>args\<close> after the event.\<close>

definition trigger :: "bool \<Rightarrow> document \<Rightarrow> 'f browser \<Rightarrow> (jsval list \<Rightarrow> ('f, ('f, 'w) env) code) \<Rightarrow> bool \<Rightarrow> 'f trigger_arg \<Rightarrow> jsval \<Rightarrow> nat
    \<Rightarrow> 'f tables \<times> ('f, 'w) env \<Rightarrow> jsval \<times> 'f event \<times> 'f tables \<times> ('f, 'w) env" where
  "trigger fs d P code onlyHandlers te data e s =
     (let (t, ns) = trigger_parts te; ev = trigger_event te t ns e; args = trigger_data data;
          ontype = (if 58 \<in> set t then None else Some t)
      in if nodeType (node_of P e) = Some 3 \<or> nodeType (node_of P e) = Some 8 \<or>
            (case triggered (snd s) of None \<Rightarrow> False | Some tr \<Rightarrow> focus_morph (given_type te) tr)
         then (JUndef, (case te of ByName _ \<Rightarrow> ev | ByEvent ev \<Rightarrow> ev), s)
         else case (if onlyHandlers then None else special_trigger P t e (snd s)) of
           Some ds \<Rightarrow> (JUndef, ev, react fs d (code []) ds s)
         | None \<Rightarrow>
           (let (ev, st) = walk fs d P (code args) ontype (event_path fs d P onlyHandlers t e) (ev, s);
                ev = ev\<lparr>etype := t\<rparr>;
                st = (if \<not> onlyHandlers \<and> \<not> isDefaultPrevented ev then default_action fs d P (code []) t e ev st else st)
            in (result ev, ev, st)))"

definition simulate :: "bool \<Rightarrow> document \<Rightarrow> 'f browser \<Rightarrow> (jsval list \<Rightarrow> ('f, ('f, 'w) env) code) \<Rightarrow> ustring \<Rightarrow> nat \<Rightarrow> 'f event
    \<Rightarrow> 'f tables \<times> ('f, 'w) env \<Rightarrow> 'f tables \<times> ('f, 'w) env" where
  "simulate fs d P code t e ev s = snd (snd (trigger fs d P code False (ByEvent (ev\<lparr>etype := t\<rparr>)) JNull e s))"

subsection \<open>The methods of a selection\<close>

definition fn_trigger :: "bool \<Rightarrow> document \<Rightarrow> 'f browser \<Rightarrow> (jsval list \<Rightarrow> ('f, ('f, 'w) env) code) \<Rightarrow> nat list \<Rightarrow> ustring \<Rightarrow> jsval
    \<Rightarrow> 'f tables \<times> ('f, 'w) env \<Rightarrow> 'f tables \<times> ('f, 'w) env" where
  "fn_trigger fs d P code es t data s = fold (\<lambda>e s. snd (snd (trigger fs d P code False (ByName t) data e s))) es s"

fun triggerHandler :: "bool \<Rightarrow> document \<Rightarrow> 'f browser \<Rightarrow> (jsval list \<Rightarrow> ('f, ('f, 'w) env) code) \<Rightarrow> nat list \<Rightarrow> ustring \<Rightarrow> jsval
    \<Rightarrow> 'f tables \<times> ('f, 'w) env \<Rightarrow> jsval \<times> 'f tables \<times> ('f, 'w) env" where
  "triggerHandler fs d P code [] t data s = (JUndef, s)"
| "triggerHandler fs d P code (e # es) t data s = (case trigger fs d P code True (ByName t) data e s of (r, ev, s) \<Rightarrow> (r, s))"

text \<open>\<open>click\<close>, \<open>change\<close> and the other names: with arguments they bind, without they trigger.\<close>

datatype 'f shorthand_args = NoArgs | OneArg "'f arg" | TwoArgs "'f arg" "'f arg"

fun shorthand :: "bool \<Rightarrow> document \<Rightarrow> 'f browser \<Rightarrow> (jsval list \<Rightarrow> ('f, ('f, 'w) env) code) \<Rightarrow> ustring \<Rightarrow> nat list \<Rightarrow> 'f shorthand_args
    \<Rightarrow> 'f tables \<times> ('f, 'w) env \<Rightarrow> 'f tables \<times> ('f, 'w) env" where
  "shorthand fs d P code t es NoArgs s = fn_trigger fs d P code es t JUndef s"
| "shorthand fs d P code t es (OneArg data) s = (on fs False es t Missing data Missing (fst s), snd s)"
| "shorthand fs d P code t es (TwoArgs data f) s = (on fs False es t Missing data f (fst s), snd s)"

definition hover :: "bool \<Rightarrow> nat list \<Rightarrow> 'f \<Rightarrow> 'f option \<Rightarrow> 'f tables \<Rightarrow> 'f tables" where
  "hover fs es over out T =
     on fs False es (u ''mouseleave'') Missing (Func (case out of None \<Rightarrow> over | Some f \<Rightarrow> f)) Missing
       (on fs False es (u ''mouseenter'') Missing (Func over) Missing T)"

subsection \<open>The calls of a triggered event\<close>

definition noting :: "('f \<times> nat \<Rightarrow> 'w \<Rightarrow> 'w) \<Rightarrow> 'f \<times> nat \<Rightarrow> ('f, 'w) env \<Rightarrow> ('f, 'w) env" where
  "noting lg x env = env\<lparr>client := lg x (client env)\<rparr>"

fun path_calls :: "('f \<Rightarrow> jsval) \<Rightarrow> (nat \<times> 'f handleObj list) list list \<Rightarrow> ('f \<times> nat) list" where
  "path_calls r [] = []"
| "path_calls r (q # qs) = reached r q @ (if refused r q then [] else path_calls r qs)"

text \<open>A name without a dot or a colon that the library does not treat in a special way.\<close>

definition plain_type :: "bool \<Rightarrow> ustring \<Rightarrow> bool" where
  "plain_type fs t \<longleftrightarrow> 46 \<notin> set t \<and> 58 \<notin> set t \<and> special_of fs t = no_special \<and> t \<noteq> u ''load''"

definition of_type :: "ustring \<Rightarrow> 'f delivery \<Rightarrow> bool" where
  "of_type t dl \<longleftrightarrow> (case dl of ToListener x ev \<Rightarrow> etype ev = t | ToProperty x ev \<Rightarrow> etype ev = t | SetActive a \<Rightarrow> False)"

lemma fold_noting: "fold (noting lg) xs env = env\<lparr>client := fold lg xs (client env)\<rparr>"
  by (induction xs arbitrary: env) (simp_all add: noting_def)

lemma event_handlers_same: "same_event ev ev' \<Longrightarrow> event_handlers d x ev' l = event_handlers d x ev l"
proof -
  assume s: "same_event ev ev'"
  then have "checked d ev' = checked d ev" by (simp add: same_event_def checked_def fun_eq_iff)
  with s show ?thesis by (simp add: same_event_def event_handlers_def Let_def)
qed

lemma no_list: "map_of (events T x) t = None \<Longrightarrow> event_handlers d x ev (handlers_for x t T) = []"
  by (simp add: handlers_for_def event_handlers_def)

lemma plain_type_mapped: "plain_type fs t \<Longrightarrow> mapped_type fs b t = t"
  by (simp add: plain_type_def mapped_type_def no_special_def)

lemma event_path_plain: "plain_type fs t \<Longrightarrow> event_path fs d P oh t e = map (\<lambda>x. (x, t)) (map fst (event_path fs d P oh t e))"
  by (simp add: event_path_def plain_type_mapped Let_def)

lemma at_node_recording:
  fixes d :: document
  assumes "\<forall>h \<in> set (handlers (handlers_for x (etype ev) T)). simple_handler fs h" "live_event ev" "\<not> isPropagationStopped ev"
    "triggered env = None" "\<forall>x. on_props env x (etype ev) = None"
  defines "q \<equiv> event_handlers d x ev (handlers_for x (etype ev) T)"
  shows "\<exists>ev'. at_node fs d P (recording r (noting lg)) (Some (etype ev)) x (ev, T, env) = (ev', T, env\<lparr>client := fold lg (reached r q) (client env)\<rparr>) \<and>
    live_event ev' \<and> same_event ev ev' \<and> isPropagationStopped ev' = refused r q"
proof (cases "map_of (events T x) (etype ev)")
  case None
  then have "q = []" by (simp add: q_def no_list)
  with None assms(2-5) show ?thesis by (simp add: at_node_def refused_def same_event_def)
next
  case (Some l)
  from dispatch_recording [OF assms(1-3), where d = d and r = r and lg = "noting lg" and w = env] obtain ev' where
    "dispatch fs d (recording r (noting lg)) x ev (T, env) = (ev', T, env\<lparr>client := fold lg (reached r q) (client env)\<rparr>)"
    "live_event ev'" "same_event ev ev'" "isPropagationStopped ev' = refused r q"
    by (auto simp: q_def fold_noting)
  with Some assms(4,5) show ?thesis by (simp add: at_node_def event_handle_def)
qed

lemma walk_recording:
  assumes "\<forall>x \<in> set xs. \<forall>h \<in> set (handlers (handlers_for x t T)). simple_handler fs h"
    "triggered env = None" "\<forall>x. on_props env x t = None" "live_event ev" "\<not> isPropagationStopped ev" "same_event ev0 (ev\<lparr>etype := t\<rparr>)"
  shows "\<exists>ev'. walk fs d P (recording r (noting lg)) (Some t) (map (\<lambda>x. (x, t)) xs) (ev, T, env) =
    (ev', T, env\<lparr>client := fold lg (path_calls r (map (\<lambda>x. event_handlers d x ev0 (handlers_for x t T)) xs)) (client env)\<rparr>)"
  using assms
proof (induction xs arbitrary: ev env)
  case (Cons x xs)
  let ?ev = "ev\<lparr>etype := t\<rparr>" and ?q = "event_handlers d x ev0 (handlers_for x t T)"
  have q: "event_handlers d x ?ev (handlers_for x t T) = ?q" using event_handlers_same [OF Cons.prems(6)] by blast
  have "live_event ?ev" using Cons.prems(4) by (simp add: live_event_def)
  then obtain ev' where n: "at_node fs d P (recording r (noting lg)) (Some t) x (?ev, T, env) = (ev', T, env\<lparr>client := fold lg (reached r ?q) (client env)\<rparr>)"
    and ev': "live_event ev'" "same_event ?ev ev'" "isPropagationStopped ev' = refused r ?q"
    using at_node_recording [of x ?ev T fs env d P r lg] Cons.prems q by auto
  show ?case
  proof (cases "refused r ?q")
    case True
    then have "walk fs d P (recording r (noting lg)) (Some t) (map (\<lambda>x. (x, t)) xs) (ev', s) = (ev', s)" for s
      using ev'(3) by (cases xs) auto
    with True n Cons.prems(5) show ?thesis by simp
  next
    case False
    have "same_event ev0 (ev'\<lparr>etype := t\<rparr>)" using Cons.prems(6) ev'(2) by (simp add: same_event_def)
    with False n ev' Cons.prems Cons.IH [of "env\<lparr>client := fold lg (reached r ?q) (client env)\<rparr>" ev'] show ?thesis by simp
  qed
qed simp

lemma deliver_masked:
  "of_type t dl \<Longrightarrow> triggered (snd s) = Some t \<Longrightarrow> \<forall>x. on_props (snd s) x t = None \<Longrightarrow> deliver fs d code dl s = s"
  by (cases dl) (auto simp: of_type_def event_handle_def)

lemma react_masked:
  "list_all (of_type t) ds \<Longrightarrow> triggered (snd s) = Some t \<Longrightarrow> \<forall>x. on_props (snd s) x t = None \<Longrightarrow> react fs d code ds s = s"
  unfolding react_def by (induction ds) (simp_all add: deliver_masked [of t])

lemma default_action_masked:
  assumes "\<forall>ds. reactions P e t = Some ds \<longrightarrow> list_all (of_type t) ds" "triggered env = None" "\<forall>x. on_props env x t = None"
  shows "default_action fs d P code t e ev (T, env) = (T, env)"
proof (cases "reactions P e t")
  case (Some ds)
  have "(on_props env)(e := (on_props env e)(t := None)) = on_props env" using assms(3) by (auto simp: fun_eq_iff)
  moreover have "env\<lparr>triggered := None\<rparr> = env" using assms(2) by (cases env) simp
  ultimately show ?thesis using assms Some react_masked [of t ds "(T, env\<lparr>triggered := Some t\<rparr>)" fs d code]
    by (simp add: default_action_def Let_def)
qed (simp add: default_action_def)


definition demo_browser :: "nat browser" where
  "demo_browser = \<lparr>node_of = (\<lambda>e. \<lparr>nodeType = (if e = 9 then None else Some (if e = 0 then 9 else 1)), attrs = []\<rparr>), is_window = (\<lambda>e. e = 9),
     ownerDocument = (\<lambda>_. 0), defaultView = (\<lambda>_. 9), is_checkable = (\<lambda>_. False), is_link = (\<lambda>_. False),
     reactions = (\<lambda>e t. if t = u ''click'' then Some [ToListener 0 demo_event] else None)\<rparr>"

definition demo_env :: "(nat, (nat \<times> nat) list) env" where
  "demo_env = \<lparr>triggered = None, on_props = (\<lambda>_ _. None), activeElement = None, client = []\<rparr>"

definition demo_handler :: "ustring \<Rightarrow> nat \<Rightarrow> nat handleObj" where
  "demo_handler sel f = \<lparr>htype = u ''click'', origType = u ''click'', hdata = JUndef, hfn = Fn f, guid = f, selector = sel, namespace = []\<rparr>"

text \<open>A delegated and a direct handler at the root of the document.\<close>

definition root_tables :: "nat tables" where
  "root_tables = no_handlers\<lparr>events := (\<lambda>_. [])(0 := [(u ''click'', \<lparr>delegateCount = 1, handlers = [demo_handler (u ''p'') 7, demo_handler [] 8]\<rparr>)])\<rparr>"

lemma root_handlers:
  "handlers_for 0 (u ''click'') root_tables = \<lparr>delegateCount = 1, handlers = [demo_handler (u ''p'') 7, demo_handler [] 8]\<rparr>"
  "x \<noteq> 0 \<Longrightarrow> handlers_for x t root_tables = \<lparr>delegateCount = 0, handlers = []\<rparr>"
  by (simp_all add: handlers_for_def root_tables_def)

lemma root_queue:
  "event_handlers demo_document 0 (new_event (u ''click'') 2) (handlers_for 0 (u ''click'') root_tables) =
     [(2, [demo_handler (u ''p'') 7]), (1, [demo_handler (u ''p'') 7]), (0, [demo_handler [] 8])]"
  "x \<noteq> 0 \<Longrightarrow> event_handlers d x ev (handlers_for x t root_tables) = []"
proof -
  have "path_up demo_document 2 = [2, 1, 0]" by code_simp
  then show "event_handlers demo_document 0 (new_event (u ''click'') 2) (handlers_for 0 (u ''click'') root_tables) =
     [(2, [demo_handler (u ''p'') 7]), (1, [demo_handler (u ''p'') 7]), (0, [demo_handler [] 8])]"
    by (simp add: root_handlers event_handlers_def new_event_def delegates_at_def checked_def Let_def)
      (simp add: demo_document_def)
qed (simp add: root_handlers event_handlers_def)


subsection \<open>\<open>_trigger\<close> of a widget\<close>

text \<open>The event of a widget is named by its prefix and the kind of the event, in lower case. A new event is made from the
  one that caused it (\<open>$.Event(event)\<close>), which carries over the fields but none of the three flags; the handlers on
  the element and above run first, then the function in the option. The widget goes on unless that function
  returned \<open>false\<close> or someone prevented the default.\<close>

definition lower :: "ustring \<Rightarrow> ustring" where
  "lower = map (\<lambda>c. if 65 \<le> c \<and> c \<le> 90 then c + 32 else c)"

definition widget_event :: "'f event option \<Rightarrow> ustring \<Rightarrow> nat \<Rightarrow> 'f event" where
  "widget_event orig name e = (case orig of
     None \<Rightarrow> new_event name e
   | Some ev \<Rightarrow> ev\<lparr>etype := name, target := e, isDefaultPrevented := False, isPropagationStopped := False, isImmediatePropagationStopped := False\<rparr>)"

definition w_trigger :: "bool \<Rightarrow> document \<Rightarrow> 'f browser \<Rightarrow> (jsval list \<Rightarrow> ('f, ('f, 'w) env) code) \<Rightarrow> ustring \<Rightarrow> nat \<Rightarrow> 'f option \<Rightarrow> ustring
    \<Rightarrow> 'f event option \<Rightarrow> jsval \<Rightarrow> 'f tables \<times> ('f, 'w) env \<Rightarrow> bool \<times> 'f tables \<times> ('f, 'w) env" where
  "w_trigger fs d P code wprefix e callback type orig data s =
     (let data = (if truthy data then data else JObj Plain []);
          name = lower (if type = wprefix then type else wprefix @ type)
      in case trigger fs d P code False (ByEvent (widget_event orig name e)) data e s of (_, ev, s) \<Rightarrow>
        (case callback of
           None \<Rightarrow> (\<not> isDefaultPrevented ev, s)
         | Some f \<Rightarrow> (case code (trigger_data data) f e ev s of (r, ev, s) \<Rightarrow> (\<not> (r = JBool False \<or> isDefaultPrevented ev), s))))"

lemma walk_quiet:
  assumes "\<forall>x \<in> set xs. map_of (events T x) t = None" "\<forall>x. on_props env x t = None" "etype ev = t"
  shows "walk fs d P code (Some t) (map (\<lambda>x. (x, t)) xs) (ev, T, env) = (ev, T, env)"
  using assms(1)
proof (induction xs)
  case (Cons x xs)
  have eq: "ev\<lparr>etype := t\<rparr> = ev" using assms(3) by simp
  from Cons assms(2,3) show ?case by (simp add: at_node_def eq)
qed simp

text \<open>Where nobody on the page listens to an event of a widget, \<open>_trigger\<close> is the call of the function in the option: what the
  theory \<open>Slider\<close> takes for it.\<close>

lemma w_trigger_callback:
  assumes "plain_type fs name" "name = lower (if type = wprefix then type else wprefix @ type)" "name \<notin> {u ''focus'', u ''blur'', u ''click''}"
    "nodeType (node_of P e) \<notin> {Some 3, Some 8}" "triggered env = None" "reactions P e name = None"
    "\<forall>x. on_props env x name = None \<and> map_of (events T x) name = None"
  shows "w_trigger fs d P code wprefix e (Some f) type None data (T, env) =
    (case code (trigger_data (if truthy data then data else JObj Plain [])) f e (new_event name e) (T, env) of
       (r, ev, s) \<Rightarrow> (r \<noteq> JBool False \<and> \<not> isDefaultPrevented ev, s))"
proof -
  have parts: "trigger_parts (ByEvent (new_event name e)) = (name, [])" "trigger_event (ByEvent (new_event name e)) name [] e = new_event name e"
    using assms(1) by (simp_all add: trigger_parts_def plain_type_def trigger_event_def new_event_def)
  have w: "walk fs d P c (Some name) (event_path fs d P False name e) (new_event name e, T, env) = (new_event name e, T, env)" for c
    using assms(7) by (subst event_path_plain [OF assms(1)]) (intro walk_quiet, simp_all add: new_event_def)
  have "default_action fs d P c name e ev (T, env) = (T, env)" for c ev
    using assms(6) by (simp add: default_action_def)
  moreover have "special_trigger P name e env = None" using assms(3) by (auto simp: special_trigger_def)
  moreover have n: "new_event name e\<lparr>etype := name\<rparr> = new_event name e" "result (new_event name e) = JUndef" by (simp_all add: new_event_def)
  ultimately have "trigger fs d P code False (ByEvent (new_event name e)) data' e (T, env) = (JUndef, new_event name e, T, env)" for data'
    using assms(1,4,5) by (simp add: trigger_def plain_type_def Let_def n parts w)
  then show ?thesis using assms(2) by (auto simp: w_trigger_def widget_event_def Let_def split: prod.splits)
qed

end
