(* ===== verification/Widget.thy ===== *)
theory Widget
  imports Events
begin

text \<open>
  The widget factory of \<open>jquery-ui.js\<close>, under the sliders and the buttons of the page: \<open>$.widget.extend\<close>, the plug-in
  that \<open>$.widget.bridge\<close> makes (initialisation and calls of methods), and \<open>$.Widget.prototype\<close> with its options,
  its classes and its event handlers, which live in the tables of the theory \<open>Events\<close>.

  The names of options and classes that are array indices do not occur. The prototype chain that \<open>$.widget\<close>
  builds, with \<open>_super\<close>, and the effects of \<open>_show\<close> and \<open>_hide\<close> are not modelled.
\<close>

subsection \<open>Extension of options\<close>

text \<open>\<open>$.widget.extend({}, v)\<close>: no name occurs twice in an object, so that the fresh target has none of the names that
  are still to come.\<close>

function wx_copy :: "jsval \<Rightarrow> (key \<times> jsval) list \<Rightarrow> jsval" where
  "wx_copy t [] = t"
| "wx_copy t ((k, v) # es) =
     wx_copy
       (if v = JUndef then t
        else put t k (if isPlainObject v then wx_copy (JObj Plain []) (for_in v) else v)) es"
  by pat_completeness auto
termination
  by (relation "measure (\<lambda>(t, es). size_list (size_prod (\<lambda>_. 0) size) es)") (auto intro: size_for_in_container)

declare wx_copy.simps(2) [simp del]

abbreviation wcopy :: "jsval \<Rightarrow> jsval" where
  "wcopy v \<equiv> wx_copy (JObj Plain []) (for_in v)"

text \<open>The loop over the names of one input.\<close>

function wx_into :: "jsval \<Rightarrow> (key \<times> jsval) list \<Rightarrow> jsval" where
  "wx_into t [] = t"
| "wx_into t ((k, v) # es) =
     wx_into
       (if v = JUndef then t
        else put t k
          (if isPlainObject v
           then (if isPlainObject (get t k) then wx_into (wcopy (get t k)) (for_in v) else wcopy v)
           else v)) es"
  by pat_completeness auto
termination
  by (relation "measure (\<lambda>(t, es). size_list (size_prod (\<lambda>_. 0) size) es)") (auto intro: size_for_in_container)

declare wx_into.simps(2) [simp del]

definition widget_extend :: "jsval \<Rightarrow> jsval list \<Rightarrow> jsval" where
  "widget_extend t inputs = foldl (\<lambda>t i. wx_into t (for_in i)) t inputs"

subsection \<open>A widget\<close>

text \<open>\<open>widgetElement\<close> is what \<open>widget()\<close> returns: the element itself, unless the widget has a method of its own.\<close>

record 'f widget =
  options :: jsval
  element :: nat
  widgetElement :: nat
  widgetFullName :: ustring
  eventNamespace :: ustring
  bindings :: "nat list"
  hoverable :: "nat list"
  focusable :: "nat list"
  classesElementLookup :: "(ustring \<times> nat list) list"
  css :: "nat \<Rightarrow> ustring list"
  tables :: "'f tables"

text \<open>\<open>createWidget\<close>, up to the call of \<open>_create\<close>: the options are those of the prototype, those of the element and
  those of the client, the later ones in front.\<close>

definition create_options :: "jsval \<Rightarrow> jsval \<Rightarrow> jsval \<Rightarrow> jsval" where
  "create_options proto elem client = widget_extend (JObj Plain []) [proto, elem, client]"

subsubsection \<open>Classes\<close>

function words_by :: "(nat \<Rightarrow> bool) \<Rightarrow> ustring \<Rightarrow> ustring list" where
  "words_by white s =
     (let r = dropWhile white s
      in if r = [] then [] else takeWhile (\<lambda>c. \<not> white c) r # words_by white (dropWhile (\<lambda>c. \<not> white c) r))"
  by pat_completeness auto
termination
proof (relation "measure (\<lambda>(white, s). length s)")
  fix white :: "nat \<Rightarrow> bool" and s r :: ustring
  assume h: "r = dropWhile white s" "r \<noteq> []"
  have "\<not> white (hd r)" using h by (metis hd_dropWhile)
  then have "length (dropWhile (\<lambda>c. \<not> white c) r) < length r"
    using h(2) by (cases r) (auto simp: le_imp_less_Suc length_dropWhile_le)
  also have "\<dots> \<le> length s" unfolding h(1) by (rule length_dropWhile_le)
  finally show "((white, dropWhile (\<lambda>c. \<not> white c) r), (white, s)) \<in> measure (\<lambda>(white, s). length s)" by simp
qed simp

declare words_by.simps [simp del]

definition tracked :: "ustring \<Rightarrow> 'f widget \<Rightarrow> nat list" where
  "tracked k w = (case map_of (classesElementLookup w) k of None \<Rightarrow> [] | Some es \<Rightarrow> es)"

text \<open>\<open>$.unique\<close> sorts the elements in the order of the document, which is the order of their numbers here.\<close>

definition track :: "bool \<Rightarrow> nat list \<Rightarrow> ustring \<Rightarrow> 'f widget \<Rightarrow> 'f widget" where
  "track add es c w =
     w\<lparr>classesElementLookup := AList.update c
        (if add then sort (remdups (tracked c w @ es)) else filter (\<lambda>e. e \<notin> set es) (tracked c w)) (classesElementLookup w)\<rparr>"

fun class_text :: "jsval \<Rightarrow> ustring" where
  "class_text (JStr s) = s"
| "class_text _ = []"

fun processClassString :: "bool \<Rightarrow> nat list \<Rightarrow> jsval \<Rightarrow> ustring list \<Rightarrow> 'f widget \<Rightarrow> ustring list \<times> 'f widget" where
  "processClassString add es classes [] w = ([], w)"
| "processClassString add es classes (c # cs) w =
     (case processClassString add es classes cs (track add es c w) of (full, w') \<Rightarrow>
       (c # (if class_text (get classes (Key c)) \<noteq> [] then [class_text (get classes (Key c))] else []) @ full, w'))"

text \<open>\<open>_classes\<close>; the words of \<open>keys\<close> bring in the classes of the option, those of \<open>extra\<close> do not. That it also listens
  for the removal of the elements is \<open>untrack\<close> below.\<close>

definition w_classes :: "bool \<Rightarrow> nat list \<Rightarrow> ustring \<Rightarrow> ustring \<Rightarrow> jsval \<Rightarrow> 'f widget \<Rightarrow> ustring list \<times> 'f widget" where
  "w_classes add es keys extra classes w =
     (case processClassString add es classes (words_by is_space keys) w of (full, w) \<Rightarrow>
       (case processClassString add es (JObj Plain []) (words_by is_space extra) w of (full', w) \<Rightarrow> (full @ full', w)))"

definition untrackClassesElement :: "nat \<Rightarrow> 'f widget \<Rightarrow> 'f widget" where
  "untrackClassesElement e w =
     w\<lparr>classesElementLookup := map (\<lambda>(k, es). (k, filter (\<lambda>x. x \<noteq> e) es)) (classesElementLookup w)\<rparr>"

text \<open>\<open>toggleClass\<close> of the selection: the words are added where they are missing, or removed.\<close>

definition add_words :: "ustring list \<Rightarrow> ustring list \<Rightarrow> ustring list" where
  "add_words cs attr = fold (\<lambda>c cl. if c \<in> set cl then cl else cl @ [c]) cs attr"

definition dom_toggle :: "bool \<Rightarrow> nat list \<Rightarrow> ustring list \<Rightarrow> 'f widget \<Rightarrow> 'f widget" where
  "dom_toggle add es texts w =
     (let cs = concat (map words_of texts)
      in w\<lparr>css := (\<lambda>e. if e \<in> set es then (if add then add_words cs (css w e) else filter (\<lambda>c. c \<notin> set cs) (css w e)) else css w e)\<rparr>)"

definition toggleClass :: "nat list \<Rightarrow> ustring \<Rightarrow> ustring \<Rightarrow> bool \<Rightarrow> 'f widget \<Rightarrow> 'f widget" where
  "toggleClass es keys extra add w =
     (case w_classes add es keys extra (get (options w) (Key (u ''classes''))) w of (full, w') \<Rightarrow> dom_toggle add es full w')"

definition addClass :: "nat list \<Rightarrow> ustring \<Rightarrow> ustring \<Rightarrow> 'f widget \<Rightarrow> 'f widget" where
  "addClass es keys extra w = toggleClass es keys extra True w"

definition removeClass :: "nat list \<Rightarrow> ustring \<Rightarrow> ustring \<Rightarrow> 'f widget \<Rightarrow> 'f widget" where
  "removeClass es keys extra w = toggleClass es keys extra False w"

subsubsection \<open>Options\<close>

fun text_key :: "key \<Rightarrow> ustring" where
  "text_key (Key s) = s"
| "text_key (Ix i) = []"

text \<open>\<open>_setOptionClasses\<close>: the elements of a class whose additional classes change lose the old ones and get the new
  ones.\<close>

definition set_class_option :: "jsval \<Rightarrow> key \<times> jsval \<Rightarrow> 'f widget \<Rightarrow> 'f widget" where
  "set_class_option value p w =
     (let k = text_key (fst p); es = tracked k w
      in if snd p = get (get (options w) (Key (u ''classes''))) (fst p) \<or> es = [] then w
         else (case w_classes True es k [] value (removeClass es k [] w) of (full, w') \<Rightarrow> dom_toggle True es full w'))"

definition setOptionClasses :: "jsval \<Rightarrow> 'f widget \<Rightarrow> 'f widget" where
  "setOptionClasses value w = fold (set_class_option value) (for_in value) w"

definition setOptionDisabled :: "jsval \<Rightarrow> 'f widget \<Rightarrow> 'f widget" where
  "setOptionDisabled value w =
     (let w = toggleClass [widgetElement w] (widgetFullName w @ u ''-disabled'') [] (truthy value) w
      in if truthy value then removeClass (focusable w) [] (u ''ui-state-focus'') (removeClass (hoverable w) [] (u ''ui-state-hover'') w)
         else w)"

definition w_setOption :: "key \<Rightarrow> jsval \<Rightarrow> 'f widget \<Rightarrow> 'f widget" where
  "w_setOption k value w =
     (let w = (if k = Key (u ''classes'') then setOptionClasses value w else w);
          w = w\<lparr>options := put (options w) k value\<rparr>
      in if k = Key (u ''disabled'') then setOptionDisabled value w else w)"

definition setOptions :: "jsval \<Rightarrow> 'f widget \<Rightarrow> 'f widget" where
  "setOptions opts w = fold (\<lambda>(k, v). w_setOption k v) (for_in opts) w"

definition w_enable :: "'f widget \<Rightarrow> 'f widget" where
  "w_enable w = setOptions (JObj Plain [(Key (u ''disabled''), JBool False)]) w"

definition w_disable :: "'f widget \<Rightarrow> 'f widget" where
  "w_disable w = setOptions (JObj Plain [(Key (u ''disabled''), JBool True)]) w"

text \<open>\<open>option\<close> with a name \<open>a.b.c\<close>: the loop over the parts makes an object of every missing one.\<close>

fun path_set :: "ustring list \<Rightarrow> jsval \<Rightarrow> jsval \<Rightarrow> jsval" where
  "path_set [] v t = t"
| "path_set [k] v t = put t (Key k) v"
| "path_set (k # ks) v t = put t (Key k) (path_set ks v (or_fresh (get t (Key k))))"

fun path_get :: "ustring list \<Rightarrow> jsval \<Rightarrow> jsval" where
  "path_get [] t = t"
| "path_get [k] t = get t (Key k)"
| "path_get (k # ks) t = path_get ks (or_fresh (get t (Key k)))"

definition or_null :: "jsval \<Rightarrow> jsval" where
  "or_null v = (if v = JUndef then JNull else v)"

definition option_all :: "'f widget \<Rightarrow> jsval" where
  "option_all w = wcopy (options w)"

definition option_get :: "ustring \<Rightarrow> 'f widget \<Rightarrow> jsval" where
  "option_get name w =
     (let parts = split_dots name; k = hd parts
      in or_null (if tl parts = [] then get (options w) (Key k) else path_get (tl parts) (wcopy (get (options w) (Key k)))))"

definition option_set :: "ustring \<Rightarrow> jsval \<Rightarrow> 'f widget \<Rightarrow> 'f widget" where
  "option_set name v w =
     (let parts = split_dots name; k = hd parts
      in setOptions (JObj Plain [(Key k, if tl parts = [] then v else path_set (tl parts) v (wcopy (get (options w) (Key k))))]) w)"

subsubsection \<open>Event handlers\<close>

text \<open>The key of a handler in \<open>_on\<close>: letters, digits, \<open>_\<close>, \<open>:\<close> and \<open>-\<close> are the name of the event, and what follows the
  white space is a selector.\<close>

definition name_char :: "nat \<Rightarrow> bool" where
  "name_char c \<longleftrightarrow> 97 \<le> c \<and> c \<le> 122 \<or> 65 \<le> c \<and> c \<le> 90 \<or> 48 \<le> c \<and> c \<le> 57 \<or> c = 95 \<or> c = 58 \<or> c = 45"

definition event_key :: "ustring \<Rightarrow> ustring \<times> ustring" where
  "event_key s = (takeWhile name_char s, dropWhile is_space (dropWhile name_char s))"

text \<open>\<open>_on\<close> for one handler: the proxy is a function of its own for each registration, here \<open>f\<close>; \<open>runs\<close> tells when it
  calls the handler.\<close>

definition w_on :: "bool \<Rightarrow> nat list option \<Rightarrow> (ustring \<times> 'f) list \<Rightarrow> 'f widget \<Rightarrow> 'f widget" where
  "w_on fs es hs w =
     (let tgt = (case es of None \<Rightarrow> [element w] | Some es \<Rightarrow> es);
          deleg = (case es of None \<Rightarrow> [widgetElement w] | Some es \<Rightarrow> es);
          w = (case es of None \<Rightarrow> w | Some es \<Rightarrow> w\<lparr>bindings := sort (remdups (bindings w @ es))\<rparr>)
      in fold (\<lambda>(key, f) w. case event_key key of (name, sel) \<Rightarrow>
           w\<lparr>tables := on fs False (if sel \<noteq> [] then deleg else tgt) (name @ eventNamespace w)
               (if sel \<noteq> [] then Text sel else Func f) (if sel \<noteq> [] then Func f else Missing) Missing (tables w)\<rparr>) hs w)"

definition runs :: "bool \<Rightarrow> nat \<Rightarrow> 'f widget \<Rightarrow> bool" where
  "runs suppressDisabledCheck e w \<longleftrightarrow>
     suppressDisabledCheck \<or>
     \<not> (get (options w) (Key (u ''disabled'')) = JBool True \<or> u ''ui-state-disabled'' \<in> set (css w e))"

text \<open>\<open>_off\<close>: every name gets the name space of the widget.\<close>

fun with_space :: "ustring \<Rightarrow> ustring list \<Rightarrow> ustring" where
  "with_space ns [] = ns"
| "with_space ns [s] = s @ ns"
| "with_space ns (s # ss) = s @ ns @ 32 # with_space ns ss"

fun split_blanks :: "ustring \<Rightarrow> ustring list" where
  "split_blanks [] = [[]]"
| "split_blanks (c # s) = (if c = 32 then [] # split_blanks s else
     (case split_blanks s of [] \<Rightarrow> [[c]] | w # ws \<Rightarrow> (c # w) # ws))"

definition w_off :: "bool \<Rightarrow> nat list \<Rightarrow> ustring \<Rightarrow> 'f widget \<Rightarrow> 'f widget" where
  "w_off fs es name w =
     w\<lparr>tables := off fs es (with_space (eventNamespace w) (split_blanks name)) Missing Missing (tables w),
       bindings := filter (\<lambda>e. e \<notin> set es) (bindings w),
       focusable := filter (\<lambda>e. e \<notin> set es) (focusable w),
       hoverable := filter (\<lambda>e. e \<notin> set es) (hoverable w)\<rparr>"

text \<open>\<open>destroy\<close>, after \<open>_destroy\<close> of the widget itself: the tracked classes, the handlers on the element and those on what
  \<open>widget()\<close> returns and on the other bound elements.\<close>

definition destroy :: "bool \<Rightarrow> 'f widget \<Rightarrow> 'f widget" where
  "destroy fs w =
     (let w = fold (\<lambda>(k, es). removeClass es k []) (classesElementLookup w) w;
          w = w\<lparr>tables := off fs [element w] (eventNamespace w) Missing Missing (tables w)\<rparr>;
          w = w\<lparr>tables := off fs [widgetElement w] (eventNamespace w) Missing Missing (tables w)\<rparr>
      in w\<lparr>tables := off fs (bindings w) (eventNamespace w) Missing Missing (tables w)\<rparr>)"

subsubsection \<open>Plug-in\<close>

text \<open>\<open>$.widget.bridge\<close>. The instance of an element is \<open>data\<close> of the element. \<open>exec\<close> runs a method, with the
  arguments of the call, and returns what the plug-in makes of its value: \<open>None\<close> if it is \<open>undefined\<close> or the instance
  itself. \<open>methods\<close> tells whether the instance has a method of that name.\<close>

datatype bridge_error = NotInitialized ustring | NoSuchMethod ustring

type_synonym ('i, 's) instances = "(nat \<Rightarrow> 'i option) \<times> 's"

fun call_each :: "('i \<Rightarrow> ustring \<Rightarrow> bool) \<Rightarrow> (nat \<Rightarrow> ustring \<Rightarrow> ('i, 's) instances \<Rightarrow> 'v option \<times> ('i, 's) instances) \<Rightarrow> ustring
    \<Rightarrow> nat list \<Rightarrow> ('i, 's) instances \<Rightarrow> (bridge_error + 'v option) \<times> ('i, 's) instances" where
  "call_each methods exec m [] s = (Inr None, s)"
| "call_each methods exec m (e # es) s = (case fst s e of
     None \<Rightarrow> (Inl (NotInitialized m), s)
   | Some i \<Rightarrow>
     (if \<not> methods i m \<or> take 1 m = [95] then (Inl (NoSuchMethod m), s)
      else case exec e m s of
        (Some v, s') \<Rightarrow> (Inr (Some v), s')
      | (None, s') \<Rightarrow> call_each methods exec m es s'))"

text \<open>A call without a method name: an element that has an instance gets the options, any other one an instance. The
  constructor stores the instance before it runs \<open>_create\<close>, and the plug-in stores it again.\<close>

fun init_each :: "(nat \<Rightarrow> jsval \<Rightarrow> ('i, 's) instances \<Rightarrow> ('i, 's) instances) \<Rightarrow> (nat \<Rightarrow> jsval \<Rightarrow> ('i, 's) instances \<Rightarrow> 'i \<times> ('i, 's) instances)
    \<Rightarrow> jsval \<Rightarrow> nat list \<Rightarrow> ('i, 's) instances \<Rightarrow> ('i, 's) instances" where
  "init_each setopts build opts [] s = s"
| "init_each setopts build opts (e # es) s =
     init_each setopts build opts es
       (case fst s e of
          Some i \<Rightarrow> setopts e (or_fresh opts) s
        | None \<Rightarrow> (case build e opts s of (i, s') \<Rightarrow> ((fst s')(e := Some i), snd s')))"

definition init_options :: "jsval \<Rightarrow> jsval list \<Rightarrow> jsval" where
  "init_options opts args = (if args = [] then opts else widget_extend opts args)"

subsection \<open>Options of a widget\<close>

lemma wx_copy_object [simp]: "is_object (wx_copy t es) = is_object t" "isPlainObject (wx_copy t es) = isPlainObject t"
proof -
  show "is_object (wx_copy t es) = is_object t"
    by (induction t es rule: wx_copy.induct) (simp_all add: wx_copy.simps(2))
  show "isPlainObject (wx_copy t es) = isPlainObject t"
    by (induction t es rule: wx_copy.induct) (simp_all add: wx_copy.simps(2))
qed

lemma wx_into_object [simp]: "is_object (wx_into t es) = is_object t" "isPlainObject (wx_into t es) = isPlainObject t"
proof -
  show "is_object (wx_into t es) = is_object t"
    by (induction t es rule: wx_into.induct) (simp_all add: wx_into.simps(2))
  show "isPlainObject (wx_into t es) = isPlainObject t"
    by (induction t es rule: wx_into.induct) (simp_all add: wx_into.simps(2))
qed

definition wleaf :: "jsval \<Rightarrow> jsval" where
  "wleaf v = (if isPlainObject v then wcopy v else v)"

lemma get_wx_copy:
  "is_object t \<Longrightarrow> distinct (map fst es) \<Longrightarrow>
   get (wx_copy t es) k = (case map_of es k of Some v \<Rightarrow> if v = JUndef then get t k else wleaf v | None \<Rightarrow> get t k)"
proof (induction es arbitrary: t)
  case (Cons p es)
  obtain j v where p: "p = (j, v)" by (cases p)
  have "map_of es j = None" using Cons.prems(2) p by (simp add: map_of_eq_None_iff)
  with Cons p show ?case by (auto simp: wx_copy.simps(2) wleaf_def split: option.splits)
qed simp

lemma for_in_get:
  assumes "distinct_keys v"
  shows "distinct (map fst (for_in v))" "get v k = (case map_of (for_in v) k of None \<Rightarrow> JUndef | Some w \<Rightarrow> w)"
  using assms by (simp_all add: map_of_for_in distinct_for_in distinct_props get_def)

lemma get_empty [simp]: "get (JObj Plain []) k = JUndef"
  by (simp add: get_def)

lemma get_wcopy: "distinct_keys v \<Longrightarrow> get (wcopy v) k = wleaf (get v k)"
  using for_in_get [of v] by (simp add: get_wx_copy split: option.splits) (auto simp: wleaf_def)

definition wmerge :: "jsval \<Rightarrow> jsval \<Rightarrow> jsval" where
  "wmerge old v = (if v = JUndef then old else if isPlainObject v then
     (if isPlainObject old then wx_into (wcopy old) (for_in v) else wcopy v) else v)"

lemma get_wx_into:
  "is_object t \<Longrightarrow> distinct (map fst es) \<Longrightarrow>
   get (wx_into t es) k = (case map_of es k of Some v \<Rightarrow> wmerge (get t k) v | None \<Rightarrow> get t k)"
proof (induction es arbitrary: t)
  case (Cons p es)
  obtain j v where p: "p = (j, v)" by (cases p)
  have "map_of es j = None" using Cons.prems(2) p by (simp add: map_of_eq_None_iff)
  with Cons p show ?case by (auto simp: wx_into.simps(2) wmerge_def split: option.splits)
qed simp

lemma get_extend_input:
  assumes "is_object t" "distinct_keys v"
  shows "get (wx_into t (for_in v)) k = wmerge (get t k) (get v k)"
  using assms(1) for_in_get [OF assms(2)] by (simp add: get_wx_into split: option.splits) (auto simp: wmerge_def)

fun first_defined :: "jsval list \<Rightarrow> jsval" where
  "first_defined [] = JUndef"
| "first_defined (v # vs) = (if v = JUndef then first_defined vs else v)"

text \<open>The options of a new widget: the value of the client where it gave one, otherwise that of the element, otherwise
  the default of the widget. An option that is an object is merged name by name in the same way, at every depth;
  here for an option that is not an object in any of the three.\<close>

theorem create_options_priority:
  assumes "distinct_keys proto" "distinct_keys elem" "distinct_keys client"
    "\<not> isPlainObject (get proto k)" "\<not> isPlainObject (get elem k)" "\<not> isPlainObject (get client k)"
  shows "get (create_options proto elem client) k = first_defined [get client k, get elem k, get proto k]"
  using assms by (simp add: create_options_def widget_extend_def get_extend_input wmerge_def)

definition demo_proto :: jsval where
  "demo_proto = obj [(''min'', JNum (Fin 0)), (''max'', JNum (Fin 100)), (''disabled'', JBool False)]"

theorem create_options_priority_witness:
  "get (create_options demo_proto (obj []) (obj [(''max'', JNum (Fin 10000))])) (Key (u ''max'')) = JNum (Fin 10000)"
proof -
  have "distinct_keys demo_proto" "distinct_keys (obj [])" "distinct_keys (obj [(''max'', JNum (Fin 10000))])" by code_simp+
  moreover have "get demo_proto (Key (u ''max'')) = JNum (Fin 100)" "get (obj []) (Key (u ''max'')) = JUndef"
    "get (obj [(''max'', JNum (Fin 10000))]) (Key (u ''max'')) = JNum (Fin 10000)" by code_simp+
  ultimately show ?thesis using create_options_priority [of demo_proto "obj []" "obj [(''max'', JNum (Fin 10000))]" "Key (u ''max'')"] by simp
qed

lemma keys_upd: "set (map fst (upd k v ps)) = insert k (set (map fst ps))"
proof (induction ps)
  case (Cons p ps)
  then show ?case by (cases p) auto
qed simp

lemma distinct_upd: "distinct (map fst ps) \<Longrightarrow> distinct (map fst (upd k v ps))"
proof (induction ps)
  case (Cons p ps)
  then show ?case using keys_upd [of k v ps] by (cases p) auto
qed simp

lemma all_upd: "list_all (\<lambda>p. P (snd p)) ps \<Longrightarrow> P v \<Longrightarrow> list_all (\<lambda>p. P (snd p)) (upd k v ps)"
proof (induction ps)
  case (Cons p ps)
  then show ?case by (cases p) auto
qed simp

lemma distinct_keys_put: "distinct_keys t \<Longrightarrow> distinct_keys v \<Longrightarrow> distinct_keys (put t k v)"
  by (cases t) (auto simp: distinct_upd all_upd)

lemma object_truthy: "is_object t \<Longrightarrow> truthy t"
  by (cases t) auto

lemma distinct_keys_wx_copy: "distinct_keys t \<Longrightarrow> (\<forall>(k, v) \<in> set es. distinct_keys v) \<Longrightarrow> distinct_keys (wx_copy t es)"
proof (induction t es rule: wx_copy.induct)
  case (2 t k v es)
  have "distinct_keys (wcopy v)" if "isPlainObject v" "v \<noteq> JUndef"
  proof -
    have "\<forall>(j, x) \<in> set (for_in v). distinct_keys x" using 2(4) by (auto intro: distinct_keys_prop)
    then show ?thesis using 2(1) [OF that(2,1)] by simp
  qed
  then show ?case using 2 by (simp add: wx_copy.simps(2) distinct_keys_put)
qed simp

lemma distinct_keys_wcopy: "distinct_keys v \<Longrightarrow> distinct_keys (wcopy v)"
  by (rule distinct_keys_wx_copy) (auto intro: distinct_keys_prop)

lemma path_get_wcopy:
  "distinct_keys t \<Longrightarrow> ks \<noteq> [] \<Longrightarrow> \<not> isPlainObject (path_get ks t) \<Longrightarrow> path_get ks (wcopy t) = path_get ks t"
proof (induction ks t rule: path_get.induct)
  case (2 k t)
  then show ?case by (simp add: get_wcopy wleaf_def)
next
  case (3 k k' ks t)
  let ?x = "get t (Key k)"
  have d: "distinct_keys ?x" using 3 by (intro distinct_keys_get) simp
  show ?case
  proof (cases "isPlainObject ?x")
    case True
    then have "truthy ?x" "truthy (wcopy ?x)" by (cases ?x) (auto intro: object_truthy)
    with True 3 d show ?thesis by (simp add: get_wcopy wleaf_def or_fresh_def)
  qed (use 3 in \<open>simp add: get_wcopy wleaf_def\<close>)
qed simp

fun path_open :: "ustring list \<Rightarrow> jsval \<Rightarrow> bool" where
  "path_open (k # k' # ks) t = (is_object (or_fresh (get t (Key k))) \<and> path_open (k' # ks) (or_fresh (get t (Key k))))"
| "path_open ks t = True"

lemma path_set_object [simp]: "is_object (path_set ks v t) = is_object t" "isPlainObject (path_set ks v t) = isPlainObject t"
  by (cases "(ks, v, t)" rule: path_set.cases; simp)+

lemma path_get_set: "is_object t \<Longrightarrow> ks \<noteq> [] \<Longrightarrow> path_open ks t \<Longrightarrow> path_get ks (path_set ks v t) = v"
proof (induction ks t rule: path_open.induct)
  case (1 k k' ks t)
  then show ?case by (simp add: or_fresh_def object_truthy)
qed auto

lemma distinct_keys_path_set: "distinct_keys t \<Longrightarrow> distinct_keys v \<Longrightarrow> distinct_keys (path_set ks v t)"
proof (induction ks v t rule: path_set.induct)
  case (3 k k' ks v t)
  have "distinct_keys (or_fresh (get t (Key k)))" using 3 by (simp add: or_fresh_def distinct_keys_get)
  with 3 show ?case by (simp add: distinct_keys_put)
qed (simp_all add: distinct_keys_put)

lemma track_options [simp]: "options (track add es c w) = options w"
  by (simp add: track_def)

lemma process_options: "processClassString add es classes cs w = (full, w') \<Longrightarrow> options w' = options w"
  by (induction cs arbitrary: w full w') (auto split: prod.splits)

lemma classes_options: "w_classes add es keys extra classes w = (full, w') \<Longrightarrow> options w' = options w"
  by (auto simp: w_classes_def split: prod.splits dest!: process_options)

lemma process_css: "processClassString add es classes cs w = (full, w') \<Longrightarrow> css w' = css w"
  by (induction cs arbitrary: full w w') (auto simp: track_def split: prod.splits)

lemma classes_css: "w_classes add es keys extra classes w = (full, w') \<Longrightarrow> css w' = css w"
  by (auto simp: w_classes_def split: prod.splits dest!: process_css)

lemma toggle_options [simp]: "options (toggleClass es keys extra add w) = options w"
  by (auto simp: toggleClass_def dom_toggle_def Let_def split: prod.splits dest: classes_options)

lemma class_option_options [simp]: "options (set_class_option value p w) = options w"
  by (auto simp: set_class_option_def dom_toggle_def removeClass_def Let_def split: prod.splits dest: classes_options)

lemma setOptionClasses_options [simp]: "options (setOptionClasses value w) = options w"
  unfolding setOptionClasses_def by (rule fold_keeps [where P = "\<lambda>w'. options w' = options w"]) simp_all

lemma setOption_options [simp]: "options (w_setOption k v w) = put (options w) k v"
  by (simp add: w_setOption_def setOptionDisabled_def removeClass_def Let_def)

lemma setOptions_one: "options (setOptions (JObj Plain [(Key k, v)]) w) = put (options w) (Key k) v"
  by (simp add: setOptions_def for_in_def)

lemma split_dots_Cons: "\<exists>k ks. split_dots s = k # ks"
  by (induction s) (auto split: list.splits)

text \<open>An option that was set under a name \<open>a.b.c\<close> reads back under that name, and the other options keep their
  values. The value is one that is not a plain object, which would come back as a copy.\<close>

theorem option_set_get:
  assumes "is_object (options w)" "distinct_keys (options w)" "distinct_keys v" "v \<noteq> JUndef" "\<not> isPlainObject v"
    "path_open (tl (split_dots name)) (wcopy (get (options w) (Key (hd (split_dots name)))))"
  shows "option_get name (option_set name v w) = v \<and>
    (j \<noteq> Key (hd (split_dots name)) \<longrightarrow> get (options (option_set name v w)) j = get (options w) j)"
proof -
  obtain k ks where s: "split_dots name = k # ks" using split_dots_Cons by blast
  have opts: "options (option_set name v w) = put (options w) (Key k) (if ks = [] then v else path_set ks v (wcopy (get (options w) (Key k))))"
    unfolding option_set_def Let_def s by (simp only: setOptions_one list.sel)
  have "option_get name (option_set name v w) = v"
  proof (cases "ks = []")
    case True
    with assms(1,4) opts s show ?thesis by (simp add: option_get_def or_null_def)
  next
    case False
    let ?X = "path_set ks v (wcopy (get (options w) (Key k)))"
    have "path_get ks ?X = v" using False assms(6) s by (intro path_get_set) simp_all
    moreover have "distinct_keys ?X"
      using assms(2,3) by (intro distinct_keys_path_set distinct_keys_wcopy distinct_keys_get)
    ultimately have "path_get ks (wcopy ?X) = v" using False assms(5) by (subst path_get_wcopy) simp_all
    with False assms(1,4) opts s show ?thesis by (simp add: option_get_def or_null_def)
  qed
  with assms(1) opts s show ?thesis by auto
qed

definition demo_widget :: "nat widget" where
  "demo_widget = \<lparr>options = demo_proto, element = 0, widgetElement = 0, widgetFullName = u ''ui-slider'', eventNamespace = u ''.slider0'', bindings = [1],
     hoverable = [], focusable = [], classesElementLookup = [], css = \<lambda>_. [], tables = demo_tables\<rparr>"

theorem option_set_get_witness:
  "option_get (u ''classes.handle'') (option_set (u ''classes.handle'') (JStr (u ''big'')) demo_widget) = JStr (u ''big'')"
proof -
  have "is_object (options demo_widget)" "distinct_keys (options demo_widget)"
    "path_open (tl (split_dots (u ''classes.handle''))) (wcopy (get (options demo_widget) (Key (hd (split_dots (u ''classes.handle''))))))"
    by code_simp+
  with option_set_get [of demo_widget "JStr (u ''big'')" "u ''classes.handle''"] show ?thesis by simp
qed

subsection \<open>The plug-in\<close>

text \<open>Constructors and settings of options that record their calls.\<close>

datatype init_call = Made nat | Reset nat

definition rec_set :: "nat \<Rightarrow> jsval \<Rightarrow> ('i, init_call list) instances \<Rightarrow> ('i, init_call list) instances" where
  "rec_set e opts s = (fst s, snd s @ [Reset e])"

definition rec_make :: "(nat \<Rightarrow> jsval \<Rightarrow> 'i) \<Rightarrow> nat \<Rightarrow> jsval \<Rightarrow> ('i, init_call list) instances \<Rightarrow> 'i \<times> ('i, init_call list) instances" where
  "rec_make mk e opts s = (mk e opts, (fst s, snd s @ [Made e]))"

text \<open>The plug-in makes one instance per element: however often an element is in the selection and whatever was
  done before, a call makes an instance exactly for the elements that had none, and an instance is never replaced.\<close>

theorem plugin_one_instance:
  "fst (init_each rec_set (rec_make mk) opts es (I, l)) e = (if e \<in> set es \<and> I e = None then Some (mk e opts) else I e) \<and>
   count_list (snd (init_each rec_set (rec_make mk) opts es (I, l))) (Made e)
     = count_list l (Made e) + (if e \<in> set es \<and> I e = None then 1 else 0)"
proof (induction es arbitrary: I l)
  case (Cons a es)
  show ?case
  proof (cases "I a")
    case None
    then have step: "init_each rec_set (rec_make mk) opts (a # es) (I, l) =
        init_each rec_set (rec_make mk) opts es (I(a := Some (mk a opts)), l @ [Made a])"
      by (simp add: rec_make_def)
    note ih = Cons [of "I(a := Some (mk a opts))" "l @ [Made a]"]
    show ?thesis unfolding step conjunct1 [OF ih] conjunct2 [OF ih] using None by simp
  next
    case (Some i)
    then have step: "init_each rec_set (rec_make mk) opts (a # es) (I, l) = init_each rec_set (rec_make mk) opts es (I, l @ [Reset a])"
      by (simp add: rec_set_def)
    note ih = Cons [of I "l @ [Reset a]"]
    show ?thesis unfolding step conjunct1 [OF ih] conjunct2 [OF ih] using Some by auto
  qed
qed simp

text \<open>Calling a method of an element without instance, or a method whose name begins with an underscore, is an error,
  and the elements before it have been served.\<close>

lemma call_not_initialized: "I e = None \<Longrightarrow> fst (call_each methods exec m (e # es) (I, s)) = Inl (NotInitialized m)"
  by simp

lemma call_private: "I e = Some i \<Longrightarrow> fst (call_each methods exec (95 # m) (e # es) (I, s)) = Inl (NoSuchMethod (95 # m))"
  by simp

subsection \<open>The handlers of a widget\<close>

lemma token_parts:
  assumes "46 \<notin> set t"
  shows "token_type (t @ 46 # ns) = t" "token_rest (t @ 46 # ns) = ns"
proof -
  have t: "takeWhile (\<lambda>c. c \<noteq> 46) (t @ 46 # ns) = t" "dropWhile (\<lambda>c. c \<noteq> 46) (t @ 46 # ns) = 46 # ns"
    using assms by (auto simp: takeWhile_append dropWhile_append)
  show "token_type (t @ 46 # ns) = t" "token_rest (t @ 46 # ns) = ns" by (simp_all add: token_type_def token_rest_def t)
qed

lemma split_dots_none: "46 \<notin> set s \<Longrightarrow> split_dots s = [s]"
  by (induction s) auto

text \<open>A name space of one word.\<close>

definition word_space :: "ustring \<Rightarrow> bool" where
  "word_space ns \<longleftrightarrow> ns \<noteq> [] \<and> (\<forall>c \<in> set ns. \<not> is_white c \<and> c \<noteq> 46)"

lemma tokens_space: "word_space ns \<Longrightarrow> tokens (46 # ns) = [46 # ns]"
proof -
  assume w: "word_space ns"
  then have a: "\<forall>c \<in> set (46 # ns). \<not> is_white c" by (auto simp: word_space_def is_white_def)
  have d: "dropWhile is_white (46 # ns) = 46 # ns" by (simp add: is_white_def)
  have t: "takeWhile (\<lambda>c. \<not> is_white c) (46 # ns) = 46 # ns" "dropWhile (\<lambda>c. \<not> is_white c) (46 # ns) = []"
    using a by (auto simp: takeWhile_eq_all_conv dropWhile_eq_Nil_conv)
  have "words_of [] = []" by (simp add: words_of.simps)
  then have "words_of (46 # ns) = [46 # ns]" by (subst words_of.simps) (simp only: Let_def d t, simp)
  then show ?thesis by (simp add: tokens_def)
qed

lemma mapped_idem: "mapped_type fs False (mapped_type fs b t) = mapped_type fs b t"
  by (auto simp: mapped_type_def special_of_def no_special_def u_inject)

lemma mapped_no_dot: "46 \<notin> set t \<Longrightarrow> 46 \<notin> set (mapped_type fs b t)"
  by (auto simp: mapped_type_def special_of_def no_special_def u_def split: if_splits)

text \<open>The types under which handlers are filed have no dot and are not mapped further.\<close>

definition types_ok :: "bool \<Rightarrow> 'f tables \<Rightarrow> bool" where
  "types_ok fs T \<longleftrightarrow> (\<forall>e. \<forall>t \<in> fst ` set (events T e). 46 \<notin> set t \<and> mapped_type fs False t = t)"

lemma types_ok_ensure [simp]: "types_ok fs (ensure_guid f T) = types_ok fs T"
  by (simp add: types_ok_def ensure_guid_def)

lemma types_ok_upd:
  assumes "types_ok fs T" "events T' = (events T)(e := al)" "\<And>t. t \<in> fst ` set al \<Longrightarrow> t \<in> fst ` set (events T e) \<or> 46 \<notin> set t \<and> mapped_type fs False t = t"
  shows "types_ok fs T'"
  unfolding types_ok_def
proof (intro allI ballI)
  fix e' t assume "t \<in> fst ` set (events T' e')"
  then have "t \<in> fst ` set (events T e') \<or> 46 \<notin> set t \<and> mapped_type fs False t = t"
    using assms(2,3) by (cases "e' = e") simp_all
  then show "46 \<notin> set t \<and> mapped_type fs False t = t" using assms(1) by (auto simp: types_ok_def)
qed

lemma types_ok_add: "types_ok fs T \<Longrightarrow> types_ok fs (add_token fs e f data sel tok T)"
proof (cases "token_type tok = []")
  case False
  assume T: "types_ok fs T"
  have nd: "46 \<notin> set (token_type tok)" using set_takeWhileD [of 46 "\<lambda>c. c \<noteq> 46" tok] by (auto simp: token_type_def)
  let ?t = "mapped_type fs (sel \<noteq> []) (token_type tok)"
  have "\<exists>l. events (add_token fs e f data sel tok T) = (events T)(e := AList.update ?t l (events T e))"
    using False by (cases "map_of (events T e) ?t") (auto simp: add_token_def Let_def make_handler_def)
  then obtain l where "events (add_token fs e f data sel tok T) = (events T)(e := AList.update ?t l (events T e))" by blast
  then show ?thesis by (rule types_ok_upd [OF T]) (auto simp: dom_update mapped_idem mapped_no_dot [OF nd])
qed (simp add: add_token_def)

lemma set_delete_subset: "fst ` set (AList.delete k al) \<subseteq> fst ` set al"
  by (auto simp: AList.delete_eq)

lemma types_ok_remove: "types_ok fs T \<Longrightarrow> types_ok fs (remove_typed fs e g sel mapped tok T)"
proof -
  assume T: "types_ok fs T"
  define t where "t = mapped_type fs (sel \<noteq> []) (token_type tok)"
  define l where "l = handlers_for e t T"
  define l' where "l' = drop_handlers (removes mapped tok g sel) l"
  consider "handlers l = []" | "handlers l \<noteq> []" "handlers l' = []" | "handlers l \<noteq> []" "handlers l' \<noteq> []" by blast
  then show ?thesis
  proof cases
    case 1
    with T show ?thesis by (simp add: remove_typed_def Let_def t_def [symmetric] l_def [symmetric])
  next
    case 2
    then have "events (remove_typed fs e g sel mapped tok T) = (events T)(e := AList.delete t (events T e))"
      by (simp add: remove_typed_def Let_def t_def [symmetric] l_def [symmetric] l'_def [symmetric])
    then show ?thesis by (rule types_ok_upd [OF T]) (rule disjI1, erule subsetD [OF set_delete_subset])
  next
    case 3
    then have mem: "t \<in> fst ` set (events T e)"
      by (auto simp: l_def handlers_for_def image_iff split: option.splits dest!: map_of_SomeD) force
    from 3 have ev: "events (remove_typed fs e g sel mapped tok T) = (events T)(e := AList.update t l' (events T e))"
      by (simp add: remove_typed_def Let_def t_def [symmetric] l_def [symmetric] l'_def [symmetric])
    have keys: "fst ` set (AList.update t l' (events T e)) = fst ` set (events T e)"
      using mem dom_update [of t l' "events T e"] by (simp only: insert_absorb Un_insert_left Un_empty_left)
    show ?thesis by (rule types_ok_upd [OF T ev]) (simp only: keys simp_thms)
  qed
qed

lemma types_ok_event_remove:
  assumes "types_ok fs T"
  shows "types_ok fs (event_remove fs e types g sel T)"
proof -
  have "types_ok fs (remove_token fs e g sel tok T')" if T': "types_ok fs T'" for tok T'
  proof (cases "token_type tok = []")
    case True
    show ?thesis unfolding remove_token_def if_P [OF True]
      by (rule fold_keeps [where P = "types_ok fs", OF T']) (rule types_ok_remove)
  next
    case False
    then show ?thesis using T' by (simp add: remove_token_def types_ok_remove)
  qed
  then show ?thesis unfolding event_remove_def by (rule fold_keeps [where P = "types_ok fs", OF assms])
qed

lemma types_ok_call:
  assumes "types_ok fs T"
  shows "types_ok fs (do_call fs c T)"
proof -
  have add: "types_ok fs (event_add fs e types f data sel T)" if "types_ok fs T" for e types f data sel T
  proof -
    have "types_ok fs (ensure_guid f T)" using that by simp
    then show ?thesis unfolding event_add_def by (rule fold_keeps) (rule types_ok_add)
  qed
  show ?thesis
  proof (cases c)
    case (On one es types sel data f)
    obtain s v h where a: "on_args sel data f = (s, v, h)" by (cases "on_args sel data f")
    have fold: "types_ok fs (fold (\<lambda>e. event_add fs e types g v s) es T')" if "types_ok fs T'" for g T'
      using that by (rule fold_keeps) (rule add)
    show ?thesis
    proof (cases h)
      case (Some g)
      then show ?thesis using fold [of "ensure_guid g T" "OneFn g"] fold [of T g] assms On by (simp add: on_def a)
    qed (use assms On in \<open>simp add: on_def a\<close>)
  next
    case (Off es types sel f)
    obtain s g where a: "off_args sel f = (s, g)" by (cases "off_args sel f")
    show ?thesis unfolding Off do_call.simps off_def a prod.case using assms by (rule fold_keeps) (rule types_ok_event_remove)
  qed
qed

lemma types_ok_none: "types_ok fs no_handlers"
  by (simp add: types_ok_def no_handlers_def)

lemma types_ok_calls: "types_ok fs (fold (do_call fs) cs no_handlers)"
  using types_ok_none by (rule fold_keeps) (rule types_ok_call)

text \<open>Removing the handlers of a name space from an element.\<close>

definition outside :: "ustring \<Rightarrow> 'f handleObj list \<Rightarrow> 'f handleObj list" where
  "outside ns hs = filter (\<lambda>h. ns \<notin> set (namespace h)) hs"

lemma outside_Nil [simp]: "outside ns [] = []"
  by (simp add: outside_def)

lemma remove_typed_space:
  assumes "word_space ns" "46 \<notin> set t" "mapped_type fs False t = t"
  shows "handlers (handlers_for e' t' (remove_typed fs e None [] True (t @ 46 # ns) T)) =
    (if e' = e \<and> t' = t then outside ns (handlers (handlers_for e t T)) else handlers (handlers_for e' t' T))"
proof -
  have ns: "ns \<noteq> []" "46 \<notin> set ns" using assms(1) by (auto simp: word_space_def)
  have tok: "token_type (t @ 46 # ns) = t" "token_rest (t @ 46 # ns) = ns" "token_spaces (t @ 46 # ns) = [ns]"
    using token_parts [OF assms(2)] split_dots_none [OF ns(2)] by (simp_all add: token_spaces_def)
  define l where "l = handlers_for e t T"
  define l' where "l' = drop_handlers (removes True (t @ 46 # ns) None []) l"
  have "removes True (t @ 46 # ns) None [] h = (ns \<in> set (namespace h))" for h :: "'a handleObj"
    using ns(1) by (simp add: removes_def tok subseq_singleton_left)
  then have l': "handlers l' = outside ns (handlers l)" by (simp add: l'_def drop_handlers.simps outside_def)
  have R: "remove_typed fs e None [] True (t @ 46 # ns) T =
      (if handlers l = [] then T
       else if handlers l' = [] then (detach fs e t t T)\<lparr>events := (events T)(e := AList.delete t (events T e))\<rparr>
       else T\<lparr>events := (events T)(e := AList.update t l' (events T e))\<rparr>)"
    by (simp add: remove_typed_def tok assms(3) l_def [symmetric] l'_def [symmetric] Let_def)
  show ?thesis
  proof (cases "e' = e \<and> t' = t")
    case True
    then show ?thesis unfolding R by (auto simp: handlers_for_def delete_conv' update_conv l' l_def [symmetric])
        (auto simp: l' [symmetric] l_def handlers_for_def)
  next
    case False
    then show ?thesis unfolding R by (auto simp: handlers_for_def delete_conv' update_conv)
  qed
qed

lemma outside_outside [simp]: "outside ns (outside ns hs) = outside ns hs"
  by (simp add: outside_def)

lemma remove_types_space:
  assumes "word_space ns" "\<forall>t \<in> set ks. 46 \<notin> set t \<and> mapped_type fs False t = t"
  shows "handlers (handlers_for e' t' (fold (\<lambda>t. remove_typed fs e None [] True (t @ 46 # ns)) ks T)) =
    (if e' = e \<and> t' \<in> set ks then outside ns (handlers (handlers_for e' t' T)) else handlers (handlers_for e' t' T))"
  using assms(2)
proof (induction ks arbitrary: T)
  case (Cons t ks)
  then have t: "46 \<notin> set t" "mapped_type fs False t = t" by auto
  from Cons show ?case by (auto simp: remove_typed_space [OF assms(1) t])
qed simp

lemma remove_space:
  assumes "word_space ns" "types_ok fs T"
  shows "handlers (handlers_for e' t (event_remove fs e (46 # ns) None [] T)) =
    (if e' = e then outside ns (handlers (handlers_for e' t T)) else handlers (handlers_for e' t T))"
proof -
  have ty: "token_type (46 # ns) = []" by (simp add: token_type_def)
  let ?ks = "map fst (events T e)"
  have "\<forall>t \<in> set ?ks. 46 \<notin> set t \<and> mapped_type fs False t = t" using assms(2) by (auto simp: types_ok_def)
  note r = remove_types_space [OF assms(1) this, of e' t e T]
  have none: "handlers (handlers_for e t T) = []" if "t \<notin> set ?ks"
    using that map_of_eq_None_iff [of "events T e" t] by (simp add: handlers_for_def)
  show ?thesis unfolding event_remove_def tokens_space [OF assms(1)] using r none
    by (cases "t \<in> set ?ks"; cases "e' = e") (simp_all add: remove_token_def ty del: set_map)
qed

lemma off_space:
  assumes "word_space ns" "types_ok fs T"
  shows "handlers (handlers_for e t (off fs es (46 # ns) Missing Missing T)) =
      (if e \<in> set es then outside ns (handlers (handlers_for e t T)) else handlers (handlers_for e t T)) \<and>
    types_ok fs (off fs es (46 # ns) Missing Missing T)"
  using assms(2)
proof (induction es arbitrary: T)
  case (Cons a es)
  let ?T = "event_remove fs a (46 # ns) None [] T"
  have off: "off fs (a # es) (46 # ns) Missing Missing T = off fs es (46 # ns) Missing Missing ?T" by (simp add: off_def)
  have ok: "types_ok fs ?T" using Cons.prems by (rule types_ok_event_remove)
  from Cons.IH [OF ok] show ?case unfolding off by (simp add: remove_space [OF assms(1) Cons.prems])
qed (simp add: off_def)

lemma toggle_frame [simp]:
  "tables (toggleClass es keys extra add w) = tables w" "element (toggleClass es keys extra add w) = element w"
  "eventNamespace (toggleClass es keys extra add w) = eventNamespace w" "bindings (toggleClass es keys extra add w) = bindings w"
  "widgetElement (toggleClass es keys extra add w) = widgetElement w" "widgetFullName (toggleClass es keys extra add w) = widgetFullName w"
  "hoverable (toggleClass es keys extra add w) = hoverable w" "focusable (toggleClass es keys extra add w) = focusable w"
proof -
  have p: "processClassString add es classes cs w = (full, w') \<Longrightarrow> tables w' = tables w \<and> element w' = element w \<and>
      widgetElement w' = widgetElement w \<and> widgetFullName w' = widgetFullName w \<and> hoverable w' = hoverable w \<and> focusable w' = focusable w \<and>
      eventNamespace w' = eventNamespace w \<and> bindings w' = bindings w" for classes cs w full and w' :: "'a widget"
    by (induction cs arbitrary: w full w') (auto simp: track_def split: prod.splits)
  have "w_classes add es keys extra classes w = (full, w') \<Longrightarrow> tables w' = tables w \<and> element w' = element w \<and>
      widgetElement w' = widgetElement w \<and> widgetFullName w' = widgetFullName w \<and> hoverable w' = hoverable w \<and> focusable w' = focusable w \<and>
      eventNamespace w' = eventNamespace w \<and> bindings w' = bindings w" for classes full and w' :: "'a widget"
    by (auto simp: w_classes_def split: prod.splits dest!: p)
  then show "tables (toggleClass es keys extra add w) = tables w" "element (toggleClass es keys extra add w) = element w"
    "eventNamespace (toggleClass es keys extra add w) = eventNamespace w" "bindings (toggleClass es keys extra add w) = bindings w"
    "widgetElement (toggleClass es keys extra add w) = widgetElement w" "widgetFullName (toggleClass es keys extra add w) = widgetFullName w"
    "hoverable (toggleClass es keys extra add w) = hoverable w" "focusable (toggleClass es keys extra add w) = focusable w"
    by (auto simp: toggleClass_def dom_toggle_def Let_def split: prod.splits)
qed

lemma destroy_tables:
  "tables (destroy fs w) = off fs (bindings w) (eventNamespace w) Missing Missing
     (off fs [widgetElement w] (eventNamespace w) Missing Missing (off fs [element w] (eventNamespace w) Missing Missing (tables w)))"
proof -
  define w1 where "w1 = fold (\<lambda>(k, es). removeClass es k []) (classesElementLookup w) w"
  have "tables w1 = tables w \<and> element w1 = element w \<and> widgetElement w1 = widgetElement w \<and> eventNamespace w1 = eventNamespace w \<and> bindings w1 = bindings w"
    unfolding w1_def by (rule fold_keeps) (auto simp: removeClass_def)
  then show ?thesis by (simp add: destroy_def w1_def [symmetric] Let_def)
qed

text \<open>\<open>destroy\<close> takes the handlers of the widget, those of its own name space, from its element, from what \<open>widget()\<close> returns and from
  the other elements it bound, for every type of event, and leaves every handler of others there in place and in order.\<close>

theorem destroy_removes_own_handlers:
  assumes "tables w = fold (do_call fs) cs no_handlers" "eventNamespace w = 46 # ns" "word_space ns"
    "e \<in> set (element w # widgetElement w # bindings w)"
  shows "handlers (handlers_for e t (tables (destroy fs w))) = outside ns (handlers (handlers_for e t (tables w)))"
proof -
  have tab: "tables (destroy fs w) = off fs (bindings w) (46 # ns) Missing Missing
      (off fs [widgetElement w] (46 # ns) Missing Missing (off fs [element w] (46 # ns) Missing Missing (tables w)))"
    by (simp add: destroy_tables assms(2))
  have ok: "types_ok fs (tables w)" unfolding assms(1) by (rule types_ok_calls)
  note off1 = off_space [OF assms(3) ok, of _ _ "[element w]"]
  note off2 = off_space [OF assms(3) conjunct2 [OF off1], of _ _ "[widgetElement w]"]
  note off3 = off_space [OF assms(3) conjunct2 [OF off2], of e t "bindings w"]
  show ?thesis unfolding tab conjunct1 [OF off3] conjunct1 [OF off2] conjunct1 [OF off1] using assms(4) by auto
qed

definition demo_calls :: "nat call list" where
  "demo_calls = [On False [0] (u ''click.slider0'') (Func 8) Missing Missing, On False [0] (u ''click.other'') (Func 9) Missing Missing]"

theorem destroy_removes_own_handlers_witness:
  "map hfn (handlers (handlers_for 0 (u ''click'') (tables (destroy True (demo_widget\<lparr>tables := fold (do_call True) demo_calls no_handlers\<rparr>)))))
   = [Fn 9]"
proof -
  have w: "word_space (u ''slider0'')" "eventNamespace demo_widget = 46 # u ''slider0''" "element demo_widget = 0"
    "map hfn (outside (u ''slider0'') (handlers (handlers_for 0 (u ''click'') (fold (do_call True) demo_calls no_handlers)))) = [Fn 9]"
    by code_simp+
  with destroy_removes_own_handlers [of "demo_widget\<lparr>tables := fold (do_call True) demo_calls no_handlers\<rparr>" True demo_calls "u ''slider0''" 0 "u ''click''"]
  show ?thesis by simp
qed

end
