(* ===== verification/Checkboxradio.thy ===== *)
theory Checkboxradio
  imports Classes Trigger Widget
begin

text \<open>
  The widget \<open>checkboxradio\<close> of \<open>jquery-ui.js\<close>, which the page makes of its input checkboxes: creation with its errors,
  label and icon, the handler of \<open>change\<close> with the radio group, \<open>refresh\<close>, the options, destruction, and the mixin that
  refreshes the widgets of a form after a reset. The instances of all inputs are on one page, since the handler of one
  radio button changes the others, and all instances of a form share one handler.

  Inputs, labels, forms and the spans of the icons are numbers. The children of a label are texts, comments, other
  markup and numbered nodes; the markup that the browser makes of a text, and the text it makes of a node, are
  parameters. What \<open>labels()\<close> returns is the browser's list \<open>control.labels\<close>. No child of a label has the input inside of it.
  Functions in the option \<open>create\<close> are not modelled.
\<close>

subsection \<open>Names in selectors\<close>

definition selector_special :: "nat \<Rightarrow> bool" where
  "selector_special c \<longleftrightarrow> c \<in> set (u ''!\"#$%&()*+,./:;<=>?@[]^`{|}~'') \<or> c = 39"

definition escapeSelector :: "ustring \<Rightarrow> ustring" where
  "escapeSelector s = concat (map (\<lambda>c. if selector_special c then [92, c] else [c]) s)"

text \<open>How the selector engine reads a quoted text: \<open>runescape\<close> finds a backslash with one to six hexadecimal digits and at most
  one white character after them, or with any other character but a line separator; \<open>funescape\<close> gives the character.\<close>

definition hex_value :: "nat \<Rightarrow> nat option" where
  "hex_value c = (if 48 \<le> c \<and> c \<le> 57 then Some (c - 48) else if 97 \<le> c \<and> c \<le> 102 then Some (c - 87)
     else if 65 \<le> c \<and> c \<le> 70 then Some (c - 55) else None)"

definition hex_number :: "ustring \<Rightarrow> nat" where
  "hex_number = foldl (\<lambda>n c. 16 * n + (case hex_value c of None \<Rightarrow> 0 | Some d \<Rightarrow> d)) 0"

definition funescape :: "nat \<Rightarrow> ustring" where
  "funescape n =
     (if n < 65536 then [n]
      else [(or ((n - 65536) div 1024) 55296) mod 65536, or ((n - 65536) mod 1024) 56320])"

definition drop_white :: "ustring \<Rightarrow> ustring" where
  "drop_white s = (case s of [] \<Rightarrow> [] | c # r \<Rightarrow> if is_white c then r else s)"

lemma length_drop_white: "length (drop_white s) \<le> length s"
  by (cases s) (simp_all add: drop_white_def)

function unescape :: "ustring \<Rightarrow> ustring" where
  "unescape [] = []"
| "unescape (c # s) =
     (if c \<noteq> 92 then c # unescape s
      else let h = takeWhile (\<lambda>c. hex_value c \<noteq> None) (take 6 s)
        in if h \<noteq> [] then funescape (hex_number h) @ unescape (drop_white (drop (length h) s))
           else case s of [] \<Rightarrow> [c] | d # r \<Rightarrow> if d \<in> {8232, 8233} then c # unescape s else d # unescape r)"
  by pat_completeness auto
termination
  by (relation "measure length") (auto intro: le_less_trans [OF length_drop_white])

declare unescape.simps(2) [simp del]

text \<open>The value of an attribute in single quotes, as the engine cuts it out of a selector: up to the first quote without a
  backslash before it. What is after the opening quote gives the value and the rest.\<close>

fun read_quoted :: "ustring \<Rightarrow> (ustring \<times> ustring) option" where
  "read_quoted [] = None"
| "read_quoted [c] = (if c = 39 then Some ([], []) else None)"
| "read_quoted (c # d # s) =
     (if c = 39 then Some ([], d # s)
      else if c = 92 then (if d \<in> {10, 13, 8232, 8233} then None else map_option (\<lambda>(a, b). (c # d # a, b)) (read_quoted s))
      else map_option (\<lambda>(a, b). (c # a, b)) (read_quoted (d # s)))"

subsection \<open>The page\<close>

datatype child = TextNode ustring | CommentNode ustring | Markup ustring | Node nat

record input =
  in_node :: ustring
  in_type :: ustring
  in_name :: ustring
  in_form :: "nat option"
  in_labels :: "nat list"
  in_checked :: bool
  in_disabled :: bool

text \<open>The handlers that instances register, each with the element of its instance; the one for resets is the same function
  for all.\<close>

datatype box_fn = RemoveFn nat | ToggleFn nat | FocusFn nat | BlurFn nat | FormResetFn

datatype box_error = WrongType ustring ustring | NoLabel

record box =
  box_widget :: "box_fn widget"
  box_type :: ustring
  box_label :: nat
  originalLabel :: ustring
  icon :: "nat option"
  iconSpace :: "nat option"
  box_form :: "nat option"

text \<open>The constructor stores the instance before it reads the element, so that a failed one stays with the element.\<close>

datatype slot = Built box | Failed box_error

record bpage =
  inp :: "nat \<Rightarrow> input"
  elems :: "nat list"
  kids :: "nat \<Rightarrow> child list"
  cls :: "nat \<Rightarrow> ustring list"
  tabs :: "box_fn tables"
  slots :: "nat \<Rightarrow> slot option"
  resets :: "nat \<Rightarrow> nat list option"
  fresh_node :: nat
  uuid :: nat

record browser =
  focusin :: bool
  outerHTML :: "nat \<Rightarrow> ustring"
  parseHTML :: "jsval \<Rightarrow> child list"

type_synonym inst = "box \<times> bpage"

text \<open>A method of the base class runs on the widget of the instance, with the classes and handlers of the page.\<close>

definition loaded :: "inst \<Rightarrow> box_fn widget" where
  "loaded I = (box_widget (fst I))\<lparr>css := cls (snd I), tables := tabs (snd I)\<rparr>"

definition widget_do :: "(box_fn widget \<Rightarrow> box_fn widget) \<Rightarrow> inst \<Rightarrow> inst" where
  "widget_do f I =
     (let w = f (loaded I)
      in ((fst I)\<lparr>box_widget := w\<lparr>css := \<lambda>_. [], tables := no_handlers\<rparr>\<rparr>, (snd I)\<lparr>cls := css w, tabs := tables w\<rparr>))"

definition opt :: "char list \<Rightarrow> box \<Rightarrow> jsval" where
  "opt k b = get (options (box_widget b)) (Key (u k))"

definition set_opt :: "char list \<Rightarrow> jsval \<Rightarrow> box \<Rightarrow> box" where
  "set_opt k v b = b\<lparr>box_widget := (box_widget b)\<lparr>options := put (options (box_widget b)) (Key (u k)) v\<rparr>\<rparr>"

definition store :: "nat \<Rightarrow> inst \<Rightarrow> bpage" where
  "store e I = (snd I)\<lparr>slots := (slots (snd I))(e := Some (Built (fst I)))\<rparr>"

text \<open>\<open>_toggleClass\<close> with a value that need not be a truth value: in its place the text \<open>extra\<close>, which is not empty here,
  goes to jQuery's \<open>toggleClass\<close>, which then adds the names that are missing and removes the others.\<close>

definition flip_words :: "ustring list \<Rightarrow> ustring list \<Rightarrow> ustring list" where
  "flip_words cs attr = fold (\<lambda>c cl. if c \<in> set cl then filter (\<lambda>x. x \<noteq> c) cl else cl @ [c]) cs attr"

definition toggleClass_value :: "nat list \<Rightarrow> ustring \<Rightarrow> jsval \<Rightarrow> 'f widget \<Rightarrow> 'f widget" where
  "toggleClass_value es extra v w = (case v of
     JBool add \<Rightarrow> toggleClass es [] extra add w
   | _ \<Rightarrow> (case w_classes True es [] extra (get (options w) (Key (u ''classes''))) w of (full, w') \<Rightarrow>
       w'\<lparr>css := (\<lambda>e. if e \<in> set es then flip_words (concat (map words_of full)) (css w' e) else css w' e)\<rparr>))"

subsection \<open>The reset of forms\<close>

definition reset_event :: ustring where
  "reset_event = u ''reset.ui-form-reset''"

definition reset_list :: "nat \<Rightarrow> bpage \<Rightarrow> nat list" where
  "reset_list f S = (case resets S f of None \<Rightarrow> [] | Some l \<Rightarrow> l)"

definition bindFormResetHandler :: "browser \<Rightarrow> nat \<Rightarrow> inst \<Rightarrow> inst" where
  "bindFormResetHandler br e I =
     (let S = snd I; b = (fst I)\<lparr>box_form := in_form (inp S e)\<rparr>
      in case box_form b of
           None \<Rightarrow> (b, S)
         | Some f \<Rightarrow>
           (let l = reset_list f S;
                S = (if l = [] then S\<lparr>tabs := on (focusin br) False [f] reset_event (Func FormResetFn) Missing Missing (tabs S)\<rparr> else S)
            in (b, S\<lparr>resets := (resets S)(f := Some (l @ [e]))\<rparr>)))"

text \<open>\<open>splice\<close> at the index of an instance that is not in the list, which is \<open>-1\<close>, takes the last one.\<close>

definition splice_out :: "nat \<Rightarrow> nat list \<Rightarrow> nat list" where
  "splice_out e l = (if e \<in> set l then remove1 e l else butlast l)"

definition unbindFormResetHandler :: "browser \<Rightarrow> nat \<Rightarrow> inst \<Rightarrow> inst" where
  "unbindFormResetHandler br e I = (case box_form (fst I) of
     None \<Rightarrow> I
   | Some f \<Rightarrow>
     (let S = snd I; l = splice_out e (reset_list f S)
      in (fst I,
          if l \<noteq> [] then S\<lparr>resets := (resets S)(f := Some l)\<rparr>
          else S\<lparr>resets := (resets S)(f := None), tabs := off (focusin br) [f] reset_event Missing Missing (tabs S)\<rparr>)))"

subsection \<open>Icon and label\<close>

definition take_out :: "nat list \<Rightarrow> bpage \<Rightarrow> bpage" where
  "take_out ns S = S\<lparr>kids := \<lambda>x. filter (\<lambda>c. c \<notin> Node ` set ns) (kids S x)\<rparr>"

text \<open>\<open>remove\<close> of a span of the instance: the event \<open>remove\<close> comes first, and \<open>_untrackClassesElement\<close> runs for it unless the
  instance is disabled.\<close>

definition remove_node :: "nat \<Rightarrow> inst \<Rightarrow> inst" where
  "remove_node n I =
     (let I = (if runs False n (loaded I) then widget_do (untrackClassesElement n) I else I)
      in (fst I, take_out [n] (snd I)))"

definition make_icon :: "inst \<Rightarrow> inst" where
  "make_icon I = (case icon (fst I) of
     Some i \<Rightarrow> I
   | None \<Rightarrow>
     (let i = fresh_node (snd I)
      in widget_do (addClass [i + 1] (u ''ui-checkboxradio-icon-space'') [])
           ((fst I)\<lparr>icon := Some i, iconSpace := Some (i + 1)\<rparr>, (snd I)\<lparr>fresh_node := i + 2\<rparr>)))"

fun numbered :: "nat option \<Rightarrow> nat list" where
  "numbered None = []"
| "numbered (Some n) = [n]"

definition prepend_icon :: "inst \<Rightarrow> inst" where
  "prepend_icon I =
     (let b = fst I; ns = numbered (icon b) @ numbered (iconSpace b); S = take_out ns (snd I)
      in (b, S\<lparr>kids := (kids S)(box_label b := map Node ns @ kids S (box_label b))\<rparr>))"

definition drop_icon :: "inst \<Rightarrow> inst" where
  "drop_icon I = fold remove_node (numbered (icon (fst I)) @ numbered (iconSpace (fst I))) I"

text \<open>The classes of the icon in \<open>_updateIcon\<close>.\<close>

definition icon_classes :: "bool \<Rightarrow> inst \<Rightarrow> inst" where
  "icon_classes chk I =
     (let b = fst I; es = numbered (icon b);
          I = (if box_type b = u ''checkbox''
               then widget_do (removeClass es [] (if chk then u ''ui-icon-blank'' else u ''ui-icon-check'')) I else I);
          toAdd = u ''ui-icon ui-icon-background '' @
            (if box_type b = u ''checkbox'' \<and> chk then u ''ui-icon-check ui-state-checked'' else u ''ui-icon-blank'');
          I = widget_do (addClass es (u ''ui-checkboxradio-icon'') toAdd) I
      in if \<not> chk then widget_do (removeClass es [] (u ''ui-icon-check ui-state-checked'')) I else I)"

definition updateIcon :: "bool \<Rightarrow> inst \<Rightarrow> inst" where
  "updateIcon chk I =
     (if truthy (opt ''icon'' (fst I)) then prepend_icon (icon_classes chk (make_icon I))
      else if icon (fst I) \<noteq> None then (let I = drop_icon I in ((fst I)\<lparr>icon := None\<rparr>, snd I))
      else I)"

definition updateLabel :: "browser \<Rightarrow> nat \<Rightarrow> inst \<Rightarrow> inst" where
  "updateLabel br e I =
     (let b = fst I; S = snd I; kept = Node ` set (e # numbered (icon b) @ numbered (iconSpace b))
      in (b, S\<lparr>kids := (kids S)(box_label b := filter (\<lambda>c. c \<in> kept) (kids S (box_label b)) @ parseHTML br (opt ''label'' b))\<rparr>))"

subsection \<open>The state of an input\<close>

definition mark_label :: "bool \<Rightarrow> inst \<Rightarrow> inst" where
  "mark_label chk I = widget_do (toggleClass [box_label (fst I)] (u ''ui-checkboxradio-checked'') (u ''ui-state-active'') chk) I"

definition set_disabled :: "nat \<Rightarrow> jsval \<Rightarrow> inst \<Rightarrow> inst" where
  "set_disabled e v I =
     (let I = widget_do (w_setOption (Key (u ''disabled'')) v) I;
          I = widget_do (toggleClass_value [box_label (fst I)] (u ''ui-state-disabled'') v) I; S = snd I
      in (fst I, S\<lparr>inp := (inp S)(e := (inp S e)\<lparr>in_disabled := truthy v\<rparr>)\<rparr>))"

definition refresh :: "browser \<Rightarrow> nat \<Rightarrow> inst \<Rightarrow> inst" where
  "refresh br e I =
     (let chk = in_checked (inp (snd I) e); isDisabled = in_disabled (inp (snd I) e);
          I = mark_label chk (updateIcon chk I);
          I = (if opt ''label'' (fst I) \<noteq> JNull then updateLabel br e I else I)
      in if JBool isDisabled \<noteq> opt ''disabled'' (fst I) then set_disabled e (JBool isDisabled) I else I)"

definition box_setOption :: "browser \<Rightarrow> nat \<Rightarrow> key \<Rightarrow> jsval \<Rightarrow> inst \<Rightarrow> inst" where
  "box_setOption br e k v I =
     (if k = Key (u ''label'') \<and> \<not> truthy v then I
      else if k = Key (u ''disabled'') then set_disabled e v I
      else refresh br e (widget_do (w_setOption k v) I))"

definition box_setOptions :: "browser \<Rightarrow> nat \<Rightarrow> jsval \<Rightarrow> inst \<Rightarrow> inst" where
  "box_setOptions br e opts I = fold (\<lambda>(k, v). box_setOption br e k v) (for_in opts) I"

text \<open>The other inputs with the name of this one in its form, or outside of any form.\<close>

definition getRadioGroup :: "nat \<Rightarrow> inst \<Rightarrow> nat list" where
  "getRadioGroup e I =
     (let b = fst I; S = snd I; name = in_name (inp S e)
      in if name = [] then []
         else filter (\<lambda>x. lower (in_node (inp S x)) = u ''input'' \<and> in_name (inp S x) = unescape (escapeSelector name) \<and>
           in_form (inp S x) = box_form b \<and> (box_form b = None \<or> in_type (inp S x) \<noteq> u ''image'') \<and> x \<noteq> e) (elems S))"

text \<open>The loop over the group. The instance of a failed creation without a label has an empty label; one on an input of
  another type has none at all, and removing its class is an error.\<close>

fun unmark_each :: "nat list \<Rightarrow> bpage \<Rightarrow> js_error option \<times> bpage" where
  "unmark_each [] S = (None, S)"
| "unmark_each (x # xs) S = (case slots S x of
     Some (Built b) \<Rightarrow> unmark_each xs (store x (mark_label False (b, S)))
   | Some (Failed (WrongType n t)) \<Rightarrow> (Some TypeError, S)
   | _ \<Rightarrow> unmark_each xs S)"

definition toggle_icon :: "bool \<Rightarrow> inst \<Rightarrow> inst" where
  "toggle_icon chk I =
     (if truthy (opt ''icon'' (fst I)) \<and> box_type (fst I) = u ''checkbox'' then
        widget_do (toggleClass (numbered (icon (fst I))) [] (u ''ui-icon-blank'') (\<not> chk))
          (widget_do (toggleClass (numbered (icon (fst I))) [] (u ''ui-icon-check ui-state-checked'') chk) I)
      else I)"

definition toggleClasses :: "nat \<Rightarrow> inst \<Rightarrow> js_error option \<times> bpage" where
  "toggleClasses e I =
     (let chk = in_checked (inp (snd I) e); I = toggle_icon chk (mark_label chk I)
      in if box_type (fst I) = u ''radio'' then unmark_each (getRadioGroup e I) (store e I) else (None, store e I))"


subsection \<open>Creation and destruction\<close>

definition box_proto :: jsval where
  "box_proto = obj [(''classes'', obj [(''ui-checkboxradio-label'', JStr (u ''ui-corner-all'')), (''ui-checkboxradio-icon'', JStr (u ''ui-corner-all''))]),
     (''disabled'', JNull), (''create'', JNull), (''label'', JNull), (''icon'', JBool True)]"

definition readType :: "input \<Rightarrow> box_error option" where
  "readType i =
     (let nodeName = lower (in_node i)
      in if nodeName \<noteq> u ''input'' \<or> cut (u ''radio'') (in_type i) = None \<and> cut (u ''checkbox'') (in_type i) = None
         then Some (WrongType nodeName (in_type i)) else None)"

text \<open>A comment has no \<open>outerHTML\<close>, and \<open>undefined\<close> is appended as a text.\<close>

fun child_text :: "browser \<Rightarrow> child \<Rightarrow> ustring" where
  "child_text br (TextNode s) = s"
| "child_text br (Markup s) = s"
| "child_text br (Node n) = outerHTML br n"
| "child_text br (CommentNode s) = u ''undefined''"

definition label_text :: "browser \<Rightarrow> nat \<Rightarrow> child list \<Rightarrow> ustring" where
  "label_text br e cs = concat (map (child_text br) (filter (\<lambda>c. c \<noteq> Node e) cs))"

definition getCreateOptions :: "browser \<Rightarrow> nat \<Rightarrow> bpage \<Rightarrow> box_error + nat \<times> ustring \<times> jsval" where
  "getCreateOptions br e S = (case readType (inp S e) of
     Some err \<Rightarrow> Inl err
   | None \<Rightarrow>
     (if in_labels (inp S e) = [] then Inl NoLabel
      else let l = List.last (in_labels (inp S e)); orig = label_text br e (kids S l);
               opts = (if orig \<noteq> [] then put (obj []) (Key (u ''label'')) (JStr orig) else obj [])
           in Inr (l, orig, put opts (Key (u ''disabled'')) (JBool (in_disabled (inp S e))))))"

function dec :: "nat \<Rightarrow> ustring" where
  "dec n = (if n < 10 then [48 + n] else dec (n div 10) @ [48 + n mod 10])"
  by pat_completeness auto
termination by (relation "measure id") auto

declare dec.simps [simp del]

text \<open>\<open>_createWidget\<close> up to the reading of the options.\<close>

definition fresh_widget :: "nat \<Rightarrow> nat \<Rightarrow> box_fn widget" where
  "fresh_widget e n = \<lparr>options = box_proto, element = e, widgetElement = e, widgetFullName = u ''ui-checkboxradio'',
     eventNamespace = u ''.checkboxradio'' @ dec n, bindings = [], hoverable = [], focusable = [], classesElementLookup = [],
     css = \<lambda>_. [], tables = no_handlers\<rparr>"

definition fresh_box :: "nat \<Rightarrow> nat \<Rightarrow> box" where
  "fresh_box e n = \<lparr>box_widget = fresh_widget e n, box_type = [], box_label = e, originalLabel = [], icon = None, iconSpace = None, box_form = None\<rparr>"

definition start_instance :: "browser \<Rightarrow> nat \<Rightarrow> bpage \<Rightarrow> inst" where
  "start_instance br e S = widget_do (w_on (focusin br) (Some [e]) [(u ''remove'', RemoveFn e)]) (fresh_box e (uuid S), S\<lparr>uuid := uuid S + 1\<rparr>)"

definition read_disabled :: "nat \<Rightarrow> inst \<Rightarrow> inst" where
  "read_disabled e I =
     (if opt ''disabled'' (fst I) \<in> {JNull, JUndef}
      then (set_opt ''disabled'' (JBool (in_disabled (inp (snd I) e))) (fst I), snd I) else I)"

definition base_classes :: "nat \<Rightarrow> inst \<Rightarrow> inst" where
  "base_classes e I =
     (let l = box_label (fst I);
          I = widget_do (addClass [e] (u ''ui-checkboxradio'') (u ''ui-helper-hidden-accessible'')) I;
          I = widget_do (addClass [l] (u ''ui-checkboxradio-label'') (u ''ui-button ui-widget'')) I
      in if box_type (fst I) = u ''radio'' then widget_do (addClass [l] (u ''ui-checkboxradio-radio-label'') []) I else I)"

definition first_label :: "browser \<Rightarrow> nat \<Rightarrow> inst \<Rightarrow> inst" where
  "first_label br e I =
     (let b = fst I
      in if truthy (opt ''label'' b) \<and> opt ''label'' b \<noteq> JStr (originalLabel b) then updateLabel br e I
         else if originalLabel b \<noteq> [] then (set_opt ''label'' (JStr (originalLabel b)) b, snd I) else I)"

definition first_mark :: "bool \<Rightarrow> inst \<Rightarrow> inst" where
  "first_mark chk I =
     (if chk then
        (let I = mark_label True I
         in if icon (fst I) \<noteq> None then widget_do (addClass (numbered (icon (fst I))) [] (u ''ui-state-hover'')) I else I)
      else I)"

definition box_create :: "browser \<Rightarrow> nat \<Rightarrow> inst \<Rightarrow> inst" where
  "box_create br e I =
     (let chk = in_checked (inp (snd I) e);
          I = read_disabled e (bindFormResetHandler br e I);
          I = base_classes e (set_disabled e (opt ''disabled'' (fst I)) I);
          I = first_label br e I;
          I = first_mark chk (updateIcon (in_checked (inp (snd I) e)) I)
      in widget_do (w_on (focusin br) None [(u ''change'', ToggleFn e), (u ''focus'', FocusFn e), (u ''blur'', BlurFn e)]) I)"

definition createBox :: "browser \<Rightarrow> nat \<Rightarrow> jsval \<Rightarrow> bpage \<Rightarrow> box_error option \<times> bpage" where
  "createBox br e opts S =
     (let I = start_instance br e S
      in case getCreateOptions br e (snd I) of
           Inl err \<Rightarrow> (Some err, (snd I)\<lparr>slots := (slots (snd I))(e := Some (Failed err))\<rparr>)
         | Inr (l, orig, eopts) \<Rightarrow>
           (let b = fst I; w = (box_widget b)\<lparr>options := create_options box_proto eopts opts, widgetElement := l\<rparr>;
                I = box_create br e (b\<lparr>box_widget := w, box_type := in_type (inp S e), box_label := l, originalLabel := orig\<rparr>, snd I);
                I = (if truthy (opt ''disabled'' (fst I)) then widget_do (setOptionDisabled (opt ''disabled'' (fst I))) I else I)
            in (None, store e I)))"

definition destroyBox :: "browser \<Rightarrow> nat \<Rightarrow> inst \<Rightarrow> bpage" where
  "destroyBox br e I =
     (let I = unbindFormResetHandler br e I;
          I = (if icon (fst I) \<noteq> None then drop_icon I else I);
          S = snd (widget_do (destroy (focusin br)) I)
      in S\<lparr>slots := (slots S)(e := None)\<rparr>)"

subsection \<open>Events\<close>

text \<open>The handlers with the test that \<open>_on\<close> puts around them, and what the timer after a reset runs.\<close>

definition handle_change :: "nat \<Rightarrow> bpage \<Rightarrow> js_error option \<times> bpage" where
  "handle_change e S = (case slots S e of
     Some (Built b) \<Rightarrow> (if runs False e (loaded (b, S)) then toggleClasses e (b, S) else (None, S))
   | _ \<Rightarrow> (None, S))"

definition handle_focus :: "bool \<Rightarrow> nat \<Rightarrow> bpage \<Rightarrow> bpage" where
  "handle_focus gained e S = (case slots S e of
     Some (Built b) \<Rightarrow>
       (if runs False e (loaded (b, S)) then store e (widget_do (toggleClass [box_label b] [] (u ''ui-state-focus ui-visual-focus'') gained) (b, S)) else S)
   | _ \<Rightarrow> S)"

definition on_box :: "(inst \<Rightarrow> inst) \<Rightarrow> nat \<Rightarrow> bpage \<Rightarrow> bpage" where
  "on_box f e S = (case slots S e of Some (Built b) \<Rightarrow> store e (f (b, S)) | _ \<Rightarrow> S)"

definition reset_timeout :: "browser \<Rightarrow> nat \<Rightarrow> bpage \<Rightarrow> bpage" where
  "reset_timeout br f S = fold (\<lambda>e. on_box (refresh br e) e) (reset_list f S) S"

text \<open>What the browser does to the inputs: a click on a checkbox, the choice of a radio button, which takes the mark from
  the other radio buttons of its name and form, and the reset of a form.\<close>

definition set_checked :: "(nat \<Rightarrow> bool) \<Rightarrow> bpage \<Rightarrow> bpage" where
  "set_checked ch S = S\<lparr>inp := \<lambda>x. (inp S x)\<lparr>in_checked := ch x\<rparr>\<rparr>"

definition same_group :: "input \<Rightarrow> input \<Rightarrow> bool" where
  "same_group i j \<longleftrightarrow> in_type i = u ''radio'' \<and> in_type j = u ''radio'' \<and> in_name i \<noteq> [] \<and> in_name i = in_name j \<and> in_form i = in_form j"

definition browser_click :: "nat \<Rightarrow> bpage \<Rightarrow> bpage" where
  "browser_click e S =
     set_checked (\<lambda>x. if x = e then in_type (inp S e) = u ''radio'' \<or> \<not> in_checked (inp S e)
       else in_checked (inp S x) \<and> \<not> same_group (inp S e) (inp S x)) S"

definition browser_reset :: "nat \<Rightarrow> (nat \<Rightarrow> bool) \<Rightarrow> bpage \<Rightarrow> bpage" where
  "browser_reset f defaults S = set_checked (\<lambda>x. if in_form (inp S x) = Some f then defaults x else in_checked (inp S x)) S"


subsection \<open>Names in selectors, read back\<close>

lemma special_char:
  assumes "selector_special c"
  shows "hex_value c = None" "c \<notin> {10, 13, 8232, 8233}" "c \<noteq> 92"
  using assms by (auto simp: selector_special_def u_def hex_value_def)

lemma quote_special: "selector_special 39"
  by (simp add: selector_special_def)

lemma escape_Cons: "escapeSelector (c # s) = (if selector_special c then [92, c] else [c]) @ escapeSelector s"
  by (simp add: escapeSelector_def)

lemma unescape_escape: "92 \<notin> set s \<Longrightarrow> unescape (escapeSelector s) = s"
proof (induction s)
  case (Cons c s)
  show ?case
  proof (cases "selector_special c")
    case True
    then have "takeWhile (\<lambda>c. hex_value c \<noteq> None) (take 6 (c # escapeSelector s)) = []" using special_char(1) by simp
    with True Cons special_char [OF True] show ?thesis by (simp add: escape_Cons unescape.simps(2))
  next
    case False
    with Cons show ?thesis by (simp add: escape_Cons unescape.simps(2))
  qed
qed (simp add: escapeSelector_def)

lemma read_plain: "c \<noteq> 39 \<Longrightarrow> c \<noteq> 92 \<Longrightarrow> s \<noteq> [] \<Longrightarrow> read_quoted (c # s) = map_option (\<lambda>(a, b). (c # a, b)) (read_quoted s)"
  by (cases s) simp_all

text \<open>C19. A name that is put into a selector arrives there: for a name without a backslash, the engine finds the end of the
  quoted text where it was put, whatever quotes and brackets the name has, and reads the name itself.\<close>

theorem selector_name_roundtrip:
  assumes "92 \<notin> set s"
  shows "read_quoted (escapeSelector s @ 39 # rest) = Some (escapeSelector s, rest) \<and> unescape (escapeSelector s) = s"
proof -
  have "read_quoted (escapeSelector s @ 39 # rest) = Some (escapeSelector s, rest)" using assms
  proof (induction s)
    case Nil
    show ?case by (cases rest) (simp_all add: escapeSelector_def)
  next
    case (Cons c s)
    show ?case
    proof (cases "selector_special c")
      case True
      with Cons special_char [OF True] show ?thesis by (simp add: escape_Cons)
    next
      case False
      then have "c \<noteq> 39" using quote_special by auto
      with False Cons read_plain [of c "escapeSelector s @ 39 # rest"] show ?thesis by (simp add: escape_Cons)
    qed
  qed
  with assms show ?thesis by (simp add: unescape_escape)
qed

theorem selector_name_roundtrip_witness:
  "read_quoted (escapeSelector [97, 39, 93] @ [39, 93]) = Some ([97, 92, 39, 92, 93], [93]) \<and> unescape [97, 92, 39, 92, 93] = [97, 39, 93]"
proof -
  have "escapeSelector [97, 39, 93] = [97, 92, 39, 92, 93]" by (simp add: escapeSelector_def selector_special_def u_def)
  then show ?thesis using selector_name_roundtrip [of "[97, 39, 93]" "[93]"] by simp
qed

text \<open>A backslash is not escaped: the name \<open>a\b\<close> is read as \<open>a\<close> and the character 11.\<close>

lemma selector_backslash: "unescape (escapeSelector [97, 92, 98]) = [97, 11]"
  by (simp add: escapeSelector_def selector_special_def u_def unescape.simps(2) hex_value_def funescape_def hex_number_def drop_white_def)

subsection \<open>Which classes an element has\<close>

lemma white_space: "is_white c \<Longrightarrow> is_space c"
  by (auto simp: is_white_def is_space_def)

lemma words_by_names: "list_all class_name (words_by is_space s)"
proof (induction is_space s rule: words_by.induct)
  case (1 s)
  let ?r = "dropWhile is_space s"
  show ?case
  proof (cases "?r = []")
    case False
    then have "\<not> is_space (hd ?r)" by (metis hd_dropWhile)
    then have "class_name (takeWhile (\<lambda>c. \<not> is_space c) ?r)"
      using False white_space by (cases ?r) (auto simp: class_name_def plain_def dest: set_takeWhileD)
    with 1 False show ?thesis by (simp only: words_by.simps [of _ s] Let_def if_False list.pred_inject simp_thms)
  qed (simp add: words_by.simps [of _ s])
qed

lemma class_name_words: "class_name c \<Longrightarrow> words_of c = [c]"
  by (simp add: class_name_def words_word)

definition option_words :: "jsval \<Rightarrow> ustring \<Rightarrow> ustring set" where
  "option_words classes c = set (words_of (class_text (get classes (Key c))))"

definition key_words :: "jsval \<Rightarrow> ustring list \<Rightarrow> ustring set" where
  "key_words classes cs = set cs \<union> \<Union> (option_words classes ` set cs)"

lemma process_words:
  "list_all class_name cs \<Longrightarrow> set (concat (map words_of (fst (processClassString add es classes cs w)))) = key_words classes cs"
proof (induction cs arbitrary: w)
  case (Cons c cs)
  obtain full w' where p: "processClassString add es classes cs (track add es c w) = (full, w')"
    by (cases "processClassString add es classes cs (track add es c w)")
  have "set (concat (map words_of full)) = key_words classes cs" using Cons.IH [of "track add es c w"] Cons.prems p by simp
  with Cons.prems p show ?case by (simp add: key_words_def option_words_def class_name_words) auto
qed (simp add: key_words_def)

lemma option_words_empty [simp]: "option_words (JObj Plain []) c = {}"
  by (simp add: option_words_def)

lemma classes_words:
  "set (concat (map words_of (fst (w_classes add es keys extra classes w)))) =
     key_words classes (words_by is_space keys) \<union> set (words_by is_space extra)"
proof -
  have "fst (w_classes add es keys extra classes w) = fst (processClassString add es classes (words_by is_space keys) w) @
      fst (processClassString add es (JObj Plain []) (words_by is_space extra) (snd (processClassString add es classes (words_by is_space keys) w)))"
    by (simp add: w_classes_def split: prod.splits)
  then show ?thesis
    using process_words [OF words_by_names, of add es classes keys w]
      process_words [OF words_by_names, of add es "JObj Plain []" extra "snd (processClassString add es classes (words_by is_space keys) w)"]
    by (simp add: key_words_def)
qed

lemma add_words_set: "set (add_words cs attr) = set attr \<union> set cs"
  by (induction cs arbitrary: attr) (auto simp: add_words_def)

lemma toggle_css:
  "set (css (toggleClass es keys extra add w) x) =
     (let ns = key_words (get (options w) (Key (u ''classes''))) (words_by is_space keys) \<union> set (words_by is_space extra)
      in if x \<in> set es then (if add then set (css w x) \<union> ns else set (css w x) - ns) else set (css w x))"
proof -
  obtain full w' where c: "w_classes add es keys extra (get (options w) (Key (u ''classes''))) w = (full, w')"
    by (cases "w_classes add es keys extra (get (options w) (Key (u ''classes''))) w")
  have "css w' = css w" using c by (rule classes_css)
  with classes_words [of add es keys extra "get (options w) (Key (u ''classes''))" w] show ?thesis
    by (auto simp: c toggleClass_def dom_toggle_def add_words_set Let_def)
qed


text \<open>The elements that are tracked for a class.\<close>

lemma tracked_track: "set (tracked c (track add es k w)) =
    (if c = k then (if add then set (tracked c w) \<union> set es else set (tracked c w) - set es) else set (tracked c w))"
  by (auto simp: tracked_def track_def update_conv)

lemma process_tracked:
  "set (tracked c (snd (processClassString add es classes cs w))) =
     (if c \<in> set cs then (if add then set (tracked c w) \<union> set es else set (tracked c w) - set es) else set (tracked c w))"
proof (induction cs arbitrary: w)
  case (Cons k cs)
  obtain full w' where p: "processClassString add es classes cs (track add es k w) = (full, w')"
    by (cases "processClassString add es classes cs (track add es k w)")
  from Cons [of "track add es k w"] p show ?case by (auto simp: tracked_track)
qed simp

lemma tracked_css [simp]: "tracked c (w\<lparr>css := X\<rparr>) = tracked c w" "tracked c (w\<lparr>tables := T\<rparr>) = tracked c w"
  "tracked c (w\<lparr>options := v\<rparr>) = tracked c w" "tracked c (w\<lparr>bindings := es\<rparr>) = tracked c w"
  by (simp_all add: tracked_def)

lemma toggle_tracked:
  "set (tracked c (toggleClass es keys extra add w)) =
     (if c \<in> set (words_by is_space keys) \<union> set (words_by is_space extra)
      then (if add then set (tracked c w) \<union> set es else set (tracked c w) - set es) else set (tracked c w))"
proof -
  let ?v = "get (options w) (Key (u ''classes''))"
  obtain f1 w1 where p: "processClassString add es ?v (words_by is_space keys) w = (f1, w1)"
    by (cases "processClassString add es ?v (words_by is_space keys) w")
  obtain f2 w2 where q: "processClassString add es (JObj Plain []) (words_by is_space extra) w1 = (f2, w2)"
    by (cases "processClassString add es (JObj Plain []) (words_by is_space extra) w1")
  have "tracked c (toggleClass es keys extra add w) = tracked c w2"
    by (simp add: toggleClass_def w_classes_def p q dom_toggle_def Let_def)
  with process_tracked [of c add es ?v "words_by is_space keys" w] process_tracked [of c add es "JObj Plain []" "words_by is_space extra" w1] p q
  show ?thesis by auto
qed

lemma remove_all_css:
  "set (css (fold (\<lambda>(k, es). removeClass es k []) L w) x) =
     set (css w x) - (\<Union>(k, es) \<in> {p \<in> set L. x \<in> set (snd p)}. key_words (get (options w) (Key (u ''classes''))) (words_by is_space k))"
proof (induction L arbitrary: w)
  case (Cons p L)
  obtain k es where p: "p = (k, es)" by (cases p)
  have e: "words_by is_space [] = []" by (simp add: words_by.simps)
  have "fold (\<lambda>(k, es). removeClass es k []) (p # L) w = fold (\<lambda>(k, es). removeClass es k []) L (removeClass es k [] w)" by (simp add: p)
  moreover have "set (css (removeClass es k [] w) x) =
      set (css w x) - (if x \<in> set es then key_words (get (options w) (Key (u ''classes''))) (words_by is_space k) else {})"
    by (simp add: removeClass_def toggle_css e Let_def)
  moreover have "options (removeClass es k [] w) = options w" by (simp add: removeClass_def)
  ultimately show ?case using Cons.IH [of "removeClass es k [] w"] by (auto simp: p)
qed simp

lemma words_by_word: "c \<noteq> [] \<Longrightarrow> \<forall>x \<in> set c. \<not> is_space x \<Longrightarrow> words_by is_space c = [c]"
proof -
  assume c: "c \<noteq> []" "\<forall>x \<in> set c. \<not> is_space x"
  have a: "dropWhile is_space c = c" using c by (cases c) auto
  have b: "takeWhile (\<lambda>x. \<not> is_space x) c = c" "dropWhile (\<lambda>x. \<not> is_space x) c = []"
    using c(2) by (auto simp: takeWhile_eq_all_conv)
  have "words_by is_space [] = []" by (simp add: words_by.simps)
  then show ?thesis using c(1) by (simp only: words_by.simps [of _ c] Let_def a b if_False)
qed

text \<open>\<open>destroy\<close> takes a class from every element that is tracked for it.\<close>

lemma destroy_css:
  "set (css (destroy fs w) x) \<subseteq> set (css w x)"
  "x \<in> set (tracked c w) \<Longrightarrow> words_by is_space c = [c] \<Longrightarrow> c \<notin> set (css (destroy fs w) x)"
proof -
  have d: "css (destroy fs w) = css (fold (\<lambda>(k, es). removeClass es k []) (classesElementLookup w) w)"
    by (simp add: destroy_def Let_def)
  show "set (css (destroy fs w) x) \<subseteq> set (css w x)" unfolding d remove_all_css by blast
  assume t: "x \<in> set (tracked c w)" and c: "words_by is_space c = [c]"
  then obtain es where "map_of (classesElementLookup w) c = Some es" "x \<in> set es" 
    by (cases "map_of (classesElementLookup w) c") (auto simp: tracked_def)
  then have "(c, es) \<in> {p \<in> set (classesElementLookup w). x \<in> set (snd p)}" by (auto dest: map_of_SomeD)
  moreover have "c \<in> key_words v (words_by is_space c)" for v by (simp add: c key_words_def)
  ultimately show "c \<notin> set (css (destroy fs w) x)" unfolding d remove_all_css by blast
qed


end
