(* ===== verification/BoxState.thy ===== *)
theory BoxState
  imports Checkboxradio
begin

text \<open>
  What the methods of a \<open>checkboxradio\<close> instance do to the classes that show the state of its input: the mark of the label
  and the tick of the icon. Every method is followed through the widget factory's class functions; classes other
  than these three, and what the client adds with the option \<open>classes\<close>, are kept out of the way by \<open>ok_classes\<close>.
\<close>

subsection \<open>What a method keeps\<close>

definition frame :: "inst \<Rightarrow> ustring \<times> nat \<times> nat option \<times> nat \<times> nat \<times> ustring \<times> nat list \<times> nat list \<times> ustring" where
  "frame I = (let b = fst I; w = box_widget b
     in (box_type b, box_label b, box_form b, element w, widgetElement w, widgetFullName w, hoverable w, focusable w, eventNamespace w))"

definition pframe :: "inst \<Rightarrow> nat list \<times> (nat \<Rightarrow> slot option) \<times> (nat \<Rightarrow> nat list option)" where
  "pframe I = (let S = snd I in (elems S, slots S, resets S))"

definition opts :: "inst \<Rightarrow> jsval" where
  "opts I = options (box_widget (fst I))"

lemma opt_opts: "opt k b = get (opts (b, S)) (Key (u k))"
  by (simp add: opt_def opts_def)

lemma opt_fst: "opt k (fst I) = get (opts I) (Key (u k))"
  by (simp add: opt_def opts_def)

lemma frameD:
  "frame I' = frame I \<Longrightarrow> box_type (fst I') = box_type (fst I) \<and> box_label (fst I') = box_label (fst I) \<and> box_form (fst I') = box_form (fst I) \<and>
     eventNamespace (box_widget (fst I')) = eventNamespace (box_widget (fst I))"
  by (simp add: frame_def Let_def)

definition classes_of :: "inst \<Rightarrow> jsval" where
  "classes_of I = get (opts I) (Key (u ''classes''))"

text \<open>The classes that show the state.\<close>

definition checkedC :: ustring where
  "checkedC = u ''ui-checkboxradio-checked''"

definition checkC :: ustring where
  "checkC = u ''ui-icon-check''"

definition blankC :: ustring where
  "blankC = u ''ui-icon-blank''"

definition watched :: "ustring set" where
  "watched = {checkedC, checkC, blankC}"

definition ok_classes :: "jsval \<Rightarrow> bool" where
  "ok_classes v \<longleftrightarrow> (\<forall>k. option_words v k \<inter> watched = {})"

definition has :: "inst \<Rightarrow> nat \<Rightarrow> ustring \<Rightarrow> bool" where
  "has I x c \<longleftrightarrow> c \<in> set (cls (snd I) x)"

definition tracks :: "inst \<Rightarrow> ustring \<Rightarrow> nat set" where
  "tracks I c = set (tracked c (box_widget (fst I)))"

lemma loaded_simps [simp]:
  "options (loaded I) = opts I" "css (loaded I) = cls (snd I)" "tables (loaded I) = tabs (snd I)"
  "element (loaded I) = element (box_widget (fst I))" "widgetElement (loaded I) = widgetElement (box_widget (fst I))"
  "widgetFullName (loaded I) = widgetFullName (box_widget (fst I))" "hoverable (loaded I) = hoverable (box_widget (fst I))"
  "focusable (loaded I) = focusable (box_widget (fst I))" "tracked c (loaded I) = tracked c (box_widget (fst I))"
  by (simp_all add: loaded_def opts_def)

lemma widget_do_page [simp]:
  "pframe (widget_do f I) = pframe I" "inp (snd (widget_do f I)) = inp (snd I)" "kids (snd (widget_do f I)) = kids (snd I)"
  "fresh_node (snd (widget_do f I)) = fresh_node (snd I)" "icon (fst (widget_do f I)) = icon (fst I)"
  "iconSpace (fst (widget_do f I)) = iconSpace (fst I)" "originalLabel (fst (widget_do f I)) = originalLabel (fst I)"
  "box_label (fst (widget_do f I)) = box_label (fst I)" "box_type (fst (widget_do f I)) = box_type (fst I)"
  "box_form (fst (widget_do f I)) = box_form (fst I)"
  "opts (widget_do f I) = options (f (loaded I))" "tabs (snd (widget_do f I)) = tables (f (loaded I))"
  "cls (snd (widget_do f I)) = css (f (loaded I))"
  by (simp_all add: widget_do_def pframe_def opts_def Let_def)

lemma widget_do_tracks: "tracks (widget_do f I) c = set (tracked c (f (loaded I)))"
  by (simp add: widget_do_def tracks_def Let_def)

lemma widget_do_toggle [simp]:
  "frame (widget_do (toggleClass es keys extra add) I) = frame I" "opts (widget_do (toggleClass es keys extra add) I) = opts I"
  by (simp_all add: widget_do_def frame_def opts_def loaded_def Let_def)

lemma words_none [simp]: "words_by is_space [] = []"
  by (simp add: words_by.simps)

lemma has_toggle:
  assumes "ok_classes (classes_of I)" "c \<in> watched"
  shows "has (widget_do (toggleClass es keys extra add) I) x c =
    (if x \<in> set es \<and> c \<in> set (words_by is_space keys @ words_by is_space extra) then add else has I x c)"
proof -
  have "c \<notin> option_words (classes_of I) k" for k using assms by (auto simp: ok_classes_def)
  then show ?thesis by (auto simp: has_def toggle_css classes_of_def key_words_def Let_def)
qed

lemma tracks_toggle:
  "tracks (widget_do (toggleClass es keys extra add) I) c =
    (if c \<in> set (words_by is_space keys @ words_by is_space extra)
     then (if add then tracks I c \<union> set es else tracks I c - set es) else tracks I c)"
  by (simp add: widget_do_tracks toggle_tracked) (simp add: tracks_def)

lemma tracks_toggle_le: "tracks (widget_do (toggleClass es keys extra add) I) c \<subseteq> tracks I c \<union> set es"
  by (auto simp: tracks_toggle)

subsection \<open>The literals\<close>

definition one_word :: "ustring \<Rightarrow> bool" where
  "one_word c \<longleftrightarrow> c \<noteq> [] \<and> (\<forall>x \<in> set c. \<not> is_space x)"

lemma words_by_one: "one_word c \<Longrightarrow> words_by is_space c = [c]"
  by (simp add: one_word_def words_by_word)

lemma words_by_blank: "one_word a \<Longrightarrow> words_by is_space (a @ 32 # s) = a # words_by is_space s"
proof -
  assume a: "one_word a"
  have sp: "is_space 32" by (simp add: is_space_def)
  have d: "dropWhile is_space (a @ 32 # s) = a @ 32 # s" using a by (cases a) (auto simp: one_word_def)
  have t: "takeWhile (\<lambda>x. \<not> is_space x) (a @ 32 # s) = a" "dropWhile (\<lambda>x. \<not> is_space x) (a @ 32 # s) = 32 # s"
    using a sp by (auto simp: one_word_def takeWhile_append dropWhile_append)
  have "words_by is_space (32 # s) = words_by is_space s"
    using sp by (simp add: words_by.simps [of _ "32 # s"] words_by.simps [of _ s])
  then show ?thesis by (simp add: words_by.simps [of _ "a @ 32 # s"] d t Let_def)
qed

lemma one_word_literals:
  "one_word checkedC" "one_word checkC" "one_word blankC"
  "one_word (u ''ui-state-active'')" "one_word (u ''ui-checkboxradio-icon'')"
  "one_word (u ''ui-checkboxradio-icon-space'')" "one_word (u ''ui-checkboxradio-disabled'')"
  "one_word (u ''ui-state-disabled'')" "one_word (u ''ui-state-hover'')"
  "one_word (u ''ui-state-focus'')" "one_word (u ''ui-checkboxradio'')"
  "one_word (u ''ui-helper-hidden-accessible'')" "one_word (u ''ui-checkboxradio-label'')"
  "one_word (u ''ui-checkboxradio-radio-label'')" "one_word (u ''ui-state-checked'')"
  "one_word (u ''ui-icon'')" "one_word (u ''ui-icon-background'')"
  "one_word (u ''ui-visual-focus'')" "one_word (u ''ui-button'')"
  "one_word (u ''ui-widget'')"
  by (simp_all add: one_word_def checkedC_def checkC_def blankC_def u_def is_space_def)

lemma literal_words:
  "words_by is_space (u ''ui-checkboxradio-checked'') = [checkedC]"
  "words_by is_space (u ''ui-icon-blank'') = [blankC]" "words_by is_space (u ''ui-icon-check'') = [checkC]"
  "words_by is_space (u ''ui-icon-check ui-state-checked'') = [checkC, u ''ui-state-checked'']"
  "words_by is_space (u ''ui-icon ui-icon-background '' @ u ''ui-icon-check ui-state-checked'') =
     [u ''ui-icon'', u ''ui-icon-background'', checkC, u ''ui-state-checked'']"
  "words_by is_space (u ''ui-icon ui-icon-background '' @ u ''ui-icon-blank'') = [u ''ui-icon'', u ''ui-icon-background'', blankC]"
  "words_by is_space (u ''ui-checkboxradio'' @ u ''-disabled'') = [u ''ui-checkboxradio-disabled'']"
  "words_by is_space (u ''ui-state-focus ui-visual-focus'') = [u ''ui-state-focus'', u ''ui-visual-focus'']"
  "words_by is_space (u ''ui-button ui-widget'') = [u ''ui-button'', u ''ui-widget'']"
proof -
  note one = one_word_literals [THEN words_by_one] and bl = one_word_literals [THEN words_by_blank]
  have two: "words_by is_space (u ''ui-icon-check'' @ 32 # u ''ui-state-checked'') = [checkC, u ''ui-state-checked'']"
    by (simp only: checkC_def [symmetric] bl one)
  show "words_by is_space (u ''ui-checkboxradio-checked'') = [checkedC]" by (simp only: checkedC_def [symmetric] one)
  show "words_by is_space (u ''ui-icon-blank'') = [blankC]" "words_by is_space (u ''ui-icon-check'') = [checkC]"
    by (simp_all only: checkC_def [symmetric] blankC_def [symmetric] one)
  have s: "u ''ui-icon-check ui-state-checked'' = u ''ui-icon-check'' @ 32 # u ''ui-state-checked''"
    "u ''ui-icon ui-icon-background '' = u ''ui-icon'' @ 32 # u ''ui-icon-background'' @ [32]"
    "u ''ui-checkboxradio'' @ u ''-disabled'' = u ''ui-checkboxradio-disabled''"
    "u ''ui-state-focus ui-visual-focus'' = u ''ui-state-focus'' @ 32 # u ''ui-visual-focus''"
    "u ''ui-button ui-widget'' = u ''ui-button'' @ 32 # u ''ui-widget''"
    by (simp_all add: u_def)
  show "words_by is_space (u ''ui-icon-check ui-state-checked'') = [checkC, u ''ui-state-checked'']" by (simp only: s two)
  show "words_by is_space (u ''ui-icon ui-icon-background '' @ u ''ui-icon-check ui-state-checked'') =
     [u ''ui-icon'', u ''ui-icon-background'', checkC, u ''ui-state-checked'']"
    by (simp only: s append_assoc append_Cons append_Nil bl two)
  show "words_by is_space (u ''ui-icon ui-icon-background '' @ u ''ui-icon-blank'') = [u ''ui-icon'', u ''ui-icon-background'', blankC]"
    by (simp only: s append_assoc append_Cons append_Nil blankC_def [symmetric] bl one)
  show "words_by is_space (u ''ui-checkboxradio'' @ u ''-disabled'') = [u ''ui-checkboxradio-disabled'']"
    "words_by is_space (u ''ui-state-focus ui-visual-focus'') = [u ''ui-state-focus'', u ''ui-visual-focus'']"
    "words_by is_space (u ''ui-button ui-widget'') = [u ''ui-button'', u ''ui-widget'']"
    by (simp_all only: s bl one)
qed

lemma watched_literals:
  "c \<in> watched \<Longrightarrow> c \<notin> {u ''ui-state-active'', u ''ui-state-checked'', u ''ui-checkboxradio-icon'', u ''ui-checkboxradio-icon-space'',
     u ''ui-icon'', u ''ui-icon-background'', u ''ui-checkboxradio-disabled'', u ''ui-state-disabled'', u ''ui-state-hover'',
     u ''ui-state-focus'', u ''ui-visual-focus'', u ''ui-checkboxradio'', u ''ui-helper-hidden-accessible'', u ''ui-checkboxradio-label'',
     u ''ui-button'', u ''ui-widget'', u ''ui-checkboxradio-radio-label''}"
  "checkedC \<noteq> checkC" "checkedC \<noteq> blankC" "checkC \<noteq> blankC" "checkC \<noteq> checkedC" "blankC \<noteq> checkedC" "blankC \<noteq> checkC"
  "checkedC \<in> watched" "checkC \<in> watched" "blankC \<in> watched"
  by (auto simp: watched_def checkedC_def checkC_def blankC_def u_inject)

lemmas literals = literal_words one_word_literals [THEN words_by_one] watched_literals(2-)

subsection \<open>The methods on the watched classes\<close>

definition inst_ok :: "inst \<Rightarrow> bool" where
  "inst_ok I \<longleftrightarrow> is_object (opts I) \<and> ok_classes (classes_of I) \<and> widgetElement (box_widget (fst I)) = box_label (fst I) \<and>
     widgetFullName (box_widget (fst I)) = u ''ui-checkboxradio'' \<and> hoverable (box_widget (fst I)) = [] \<and> focusable (box_widget (fst I)) = []"

lemma inst_ok_cong: "frame I' = frame I \<Longrightarrow> opts I' = opts I \<Longrightarrow> inst_ok I' = inst_ok I"
  by (simp add: inst_ok_def frame_def classes_of_def Let_def)

lemma inst_okD: "inst_ok I \<Longrightarrow> ok_classes (classes_of I)"
  by (simp add: inst_ok_def)

text \<open>What every method keeps: the constants of the instance, the page but for classes, children and handlers.\<close>

definition same :: "inst \<Rightarrow> inst \<Rightarrow> bool" where
  "same I I' \<longleftrightarrow> frame I' = frame I \<and> pframe I' = pframe I \<and> opts I' = opts I \<and> inp (snd I') = inp (snd I) \<and> tabs (snd I') = tabs (snd I)"

lemma same_refl [simp]: "same I I"
  by (simp add: same_def)

lemma same_trans: "same I I' \<Longrightarrow> same I' I'' \<Longrightarrow> same I I''"
  by (simp add: same_def)

lemma same_ok: "same I I' \<Longrightarrow> inst_ok I' = inst_ok I" "same I I' \<Longrightarrow> classes_of I' = classes_of I"
  by (simp_all add: same_def inst_ok_cong [of I' I] classes_of_def)

lemma same_toggle [simp]: "same I (widget_do (toggleClass es keys extra add) I)"
  by (simp add: same_def)

lemma same_toggle2: "same I J \<Longrightarrow> same I (widget_do (toggleClass es keys extra add) J)"
  by (rule same_trans [OF _ same_toggle])

lemmas toggles = has_toggle tracks_toggle literals addClass_def [abs_def] removeClass_def [abs_def]

lemma mark_label_same [simp]: "same I (mark_label chk I)"
  by (simp add: mark_label_def)

lemma mark_label_nodes [simp]:
  "icon (fst (mark_label chk I)) = icon (fst I)" "fresh_node (snd (mark_label chk I)) = fresh_node (snd I)"
  by (simp_all add: mark_label_def)

lemma mark_label_has:
  "inst_ok I \<Longrightarrow> c \<in> watched \<Longrightarrow> has (mark_label chk I) x c = (if x = box_label (fst I) \<and> c = checkedC then chk else has I x c)"
  using watched_literals(1) [of c] by (auto simp: mark_label_def toggles inst_ok_def)

lemma mark_label_tracks: "tracks (mark_label chk I) checkedC = (if chk then insert (box_label (fst I)) (tracks I checkedC) else tracks I checkedC - {box_label (fst I)})"
  by (simp add: mark_label_def toggles)

lemma mark_label_tracks_other: "c \<in> watched \<Longrightarrow> c \<noteq> checkedC \<Longrightarrow> tracks (mark_label chk I) c = tracks I c"
  using watched_literals(1) [of c] by (simp add: mark_label_def toggles)

lemma toggle_icon_same [simp]: "same I (toggle_icon chk I)"
  by (simp add: toggle_icon_def same_toggle2)

lemma toggle_icon_nodes [simp]:
  "icon (fst (toggle_icon chk I)) = icon (fst I)" "fresh_node (snd (toggle_icon chk I)) = fresh_node (snd I)"
  by (simp_all add: toggle_icon_def)

lemma watched_only:
  "checkedC \<noteq> u ''ui-state-checked''" "checkC \<noteq> u ''ui-state-checked''" "blankC \<noteq> u ''ui-state-checked''"
  "checkedC \<noteq> u ''ui-state-disabled''"
  by (simp_all add: checkedC_def checkC_def blankC_def u_inject)

lemma numbered_member [simp]: "x \<in> set (numbered o1) \<longleftrightarrow> o1 = Some x"
  by (cases o1) auto

lemma toggle_icon_has:
  assumes "inst_ok I" "c \<in> watched"
  shows "has (toggle_icon chk I) x c =
    (if truthy (opt ''icon'' (fst I)) \<and> box_type (fst I) = u ''checkbox'' \<and> icon (fst I) = Some x
     then (if c = checkC then chk else if c = blankC then \<not> chk else has I x c) else has I x c)"
  using assms watched_literals(1) [OF assms(2)] same_ok(2) [OF same_toggle] by (auto simp: toggle_icon_def toggles inst_ok_def)

lemma toggle_icon_tracks: "tracks (toggle_icon chk I) checkedC = tracks I checkedC"
  by (simp add: toggle_icon_def toggles watched_only)

lemma toggle_icon_tracks_le: "tracks (toggle_icon chk I) c \<subseteq> tracks I c \<union> set (numbered (icon (fst I)))"
  using tracks_toggle_le by (simp add: toggle_icon_def) blast


lemma same_widget_do:
  "options (f (loaded I)) = opts I \<Longrightarrow> tables (f (loaded I)) = tabs (snd I) \<Longrightarrow> frame (widget_do f I) = frame I \<Longrightarrow> same I (widget_do f I)"
  by (simp add: same_def)

lemma tracked_untrack: "set (tracked c (untrackClassesElement n w)) = set (tracked c w) - {n}"
proof -
  have "map_of (map (\<lambda>(k, es). (k, filter (\<lambda>x. x \<noteq> n) es)) L) c = map_option (filter (\<lambda>x. x \<noteq> n)) (map_of L c)" for L :: "(ustring \<times> nat list) list"
    by (induction L) auto
  then show ?thesis by (auto simp: tracked_def untrackClassesElement_def split: option.splits)
qed

lemma untrack_same: "same I (widget_do (untrackClassesElement n) I)"
  by (rule same_widget_do) (simp_all add: untrackClassesElement_def frame_def widget_do_def loaded_def opts_def Let_def)

lemma take_out_page [simp]:
  "inp (take_out ns S) = inp S" "cls (take_out ns S) = cls S" "tabs (take_out ns S) = tabs S" "slots (take_out ns S) = slots S"
  "resets (take_out ns S) = resets S" "elems (take_out ns S) = elems S" "fresh_node (take_out ns S) = fresh_node S"
  by (simp_all add: take_out_def)

lemma same_page: "b' = b \<Longrightarrow> inp S' = inp S \<Longrightarrow> tabs S' = tabs S \<Longrightarrow> slots S' = slots S \<Longrightarrow> resets S' = resets S \<Longrightarrow> elems S' = elems S
    \<Longrightarrow> same (b, S) (b', S')"
  by (simp add: same_def frame_def pframe_def opts_def)

lemma remove_node_effect:
  "same I (remove_node n I)" "has (remove_node n I) = has I" "icon (fst (remove_node n I)) = icon (fst I)"
  "iconSpace (fst (remove_node n I)) = iconSpace (fst I)" "fresh_node (snd (remove_node n I)) = fresh_node (snd I)"
  "tracks I c - {n} \<subseteq> tracks (remove_node n I) c" "tracks (remove_node n I) c \<subseteq> tracks I c"
proof -
  define J where "J = (if runs False n (loaded I) then widget_do (untrackClassesElement n) I else I)"
  have R: "remove_node n I = (fst J, take_out [n] (snd J))" by (simp add: remove_node_def J_def Let_def)
  have J: "same I J" "has J = has I" "icon (fst J) = icon (fst I)" "iconSpace (fst J) = iconSpace (fst I)" "fresh_node (snd J) = fresh_node (snd I)"
    "tracks I c - {n} \<subseteq> tracks J c" "tracks J c \<subseteq> tracks I c"
    by (auto simp: J_def untrack_same widget_do_tracks tracked_untrack) (auto simp: has_def fun_eq_iff untrackClassesElement_def tracks_def)
  have "same J (fst J, take_out [n] (snd J))" using same_page [of "fst J" "fst J" "take_out [n] (snd J)" "snd J"] by simp
  with J(1) show "same I (remove_node n I)" unfolding R by (rule same_trans)
  show "has (remove_node n I) = has I" "icon (fst (remove_node n I)) = icon (fst I)" "iconSpace (fst (remove_node n I)) = iconSpace (fst I)"
    "fresh_node (snd (remove_node n I)) = fresh_node (snd I)" "tracks I c - {n} \<subseteq> tracks (remove_node n I) c" "tracks (remove_node n I) c \<subseteq> tracks I c"
    unfolding R using J(2-) by (simp_all add: has_def [abs_def] tracks_def)
qed

lemma drop_icon_effect:
  "same I (drop_icon I)" "has (drop_icon I) = has I" "icon (fst (drop_icon I)) = icon (fst I)" "iconSpace (fst (drop_icon I)) = iconSpace (fst I)"
  "fresh_node (snd (drop_icon I)) = fresh_node (snd I)" "\<forall>x. icon (fst I) \<noteq> Some x \<and> iconSpace (fst I) \<noteq> Some x \<longrightarrow> x \<in> tracks I c \<longrightarrow> x \<in> tracks (drop_icon I) c"
  "tracks (drop_icon I) c \<subseteq> tracks I c"
proof -
  have "same I (fold remove_node ns I) \<and> has (fold remove_node ns I) = has I \<and> icon (fst (fold remove_node ns I)) = icon (fst I) \<and>
      iconSpace (fst (fold remove_node ns I)) = iconSpace (fst I) \<and>
      fresh_node (snd (fold remove_node ns I)) = fresh_node (snd I) \<and> tracks I c - set ns \<subseteq> tracks (fold remove_node ns I) c \<and>
      tracks (fold remove_node ns I) c \<subseteq> tracks I c" for ns
  proof (induction ns arbitrary: I)
    case (Cons n ns)
    note e = remove_node_effect [where I = I and n = n]
    from Cons [of "remove_node n I"] e(2-5) e(6,7) [where c = c] same_trans [OF e(1), of "fold remove_node ns (remove_node n I)"] show ?case by auto
  qed simp
  from this [of "numbered (icon (fst I)) @ numbered (iconSpace (fst I))"]
  show "same I (drop_icon I)" "has (drop_icon I) = has I" "icon (fst (drop_icon I)) = icon (fst I)" "iconSpace (fst (drop_icon I)) = iconSpace (fst I)"
    "fresh_node (snd (drop_icon I)) = fresh_node (snd I)" "\<forall>x. icon (fst I) \<noteq> Some x \<and> iconSpace (fst I) \<noteq> Some x \<longrightarrow> x \<in> tracks I c \<longrightarrow> x \<in> tracks (drop_icon I) c"
    "tracks (drop_icon I) c \<subseteq> tracks I c"
    by (auto simp: drop_icon_def)
qed

text \<open>The icon of an instance.\<close>

definition next_icon :: "inst \<Rightarrow> nat option" where
  "next_icon I = (if truthy (opt ''icon'' (fst I)) then (case icon (fst I) of None \<Rightarrow> Some (fresh_node (snd I)) | Some i \<Rightarrow> Some i) else None)"

lemma same_fields:
  assumes "same I J"
  shows "box_type (fst J) = box_type (fst I)" "box_label (fst J) = box_label (fst I)" "box_form (fst J) = box_form (fst I)"
    "opt k (fst J) = opt k (fst I)" "inp (snd J) = inp (snd I)" "slots (snd J) = slots (snd I)" "elems (snd J) = elems (snd I)"
    "resets (snd J) = resets (snd I)" "tabs (snd J) = tabs (snd I)"
  using assms by (simp_all add: same_def frame_def pframe_def opts_def opt_def Let_def)

lemma make_icon_effect:
  assumes "inst_ok I"
  shows "same I (make_icon I)" "\<forall>c \<in> watched. has (make_icon I) x c = has I x c" "c \<in> watched \<Longrightarrow> tracks (make_icon I) c = tracks I c"
    "fresh_node (snd I) \<le> fresh_node (snd (make_icon I))"
    "truthy (opt ''icon'' (fst I)) \<Longrightarrow> icon (fst (make_icon I)) = next_icon I"
    "icon (fst I) = None \<Longrightarrow> fresh_node (snd (make_icon I)) = fresh_node (snd I) + 2"
proof -
  let ?i = "fresh_node (snd I)"
  define J where "J = ((fst I)\<lparr>icon := Some ?i, iconSpace := Some (?i + 1)\<rparr>, (snd I)\<lparr>fresh_node := ?i + 2\<rparr>)"
  have J: "same I J" "has J = has I" "tracks J c = tracks I c" for c
    by (simp_all add: J_def same_def frame_def pframe_def opts_def has_def [abs_def] tracks_def Let_def)
  have ok: "ok_classes (classes_of J)" using inst_okD [of J] same_ok(1) [OF J(1)] assms by simp
  have M: "icon (fst I) = None \<Longrightarrow> make_icon I = widget_do (addClass [?i + 1] (u ''ui-checkboxradio-icon-space'') []) J"
    by (simp add: make_icon_def J_def Let_def)
  have S: "icon (fst I) = Some i \<Longrightarrow> make_icon I = I" for i by (simp add: make_icon_def)
  show "same I (make_icon I)" using J(1) M S by (cases "icon (fst I)") (simp_all add: addClass_def [abs_def] same_toggle2)
  have "has (make_icon I) x c = has I x c" if c: "c \<in> watched" for c
    using c watched_literals(1) [OF c] J(2) M S has_toggle [OF ok c] by (cases "icon (fst I)") (simp_all add: toggles)
  then show "\<forall>c \<in> watched. has (make_icon I) x c = has I x c" by blast
  show "c \<in> watched \<Longrightarrow> tracks (make_icon I) c = tracks I c"
    using watched_literals(1) [of c] J(3) M S by (cases "icon (fst I)") (simp_all add: toggles)
  show "fresh_node (snd I) \<le> fresh_node (snd (make_icon I))" "icon (fst I) = None \<Longrightarrow> fresh_node (snd (make_icon I)) = fresh_node (snd I) + 2"
    "truthy (opt ''icon'' (fst I)) \<Longrightarrow> icon (fst (make_icon I)) = next_icon I"
    using M S by (cases "icon (fst I)"; simp add: J_def next_icon_def)+
qed


lemma icon_classes_same: "same I (icon_classes chk I)"
  by (simp add: icon_classes_def Let_def addClass_def [abs_def] removeClass_def [abs_def] same_toggle2)

lemma icon_classes_nodes [simp]:
  "icon (fst (icon_classes chk I)) = icon (fst I)" "iconSpace (fst (icon_classes chk I)) = iconSpace (fst I)"
  "fresh_node (snd (icon_classes chk I)) = fresh_node (snd I)"
  by (simp_all add: icon_classes_def Let_def)

lemma toggle_classes_of [simp]: "classes_of (widget_do (toggleClass es keys extra add) I) = classes_of I"
  by (simp add: classes_of_def)

lemma icon_classes_has:
  assumes "inst_ok I" "c \<in> watched"
  shows "icon (fst I) \<noteq> Some x \<or> c = checkedC \<Longrightarrow> has (icon_classes chk I) x c = has I x c"
    "icon (fst I) = Some x \<Longrightarrow> box_type (fst I) = u ''checkbox'' \<Longrightarrow> c \<noteq> checkedC \<Longrightarrow> has (icon_classes chk I) x c = (if c = checkC then chk else \<not> chk)"
proof -
  have ok: "ok_classes (classes_of I)" using assms(1) by (rule inst_okD)
  note c = watched_literals(1) [OF assms(2)]
  have three: "c = checkedC \<or> c = checkC \<or> c = blankC" using assms(2) by (simp add: watched_def)
  show "icon (fst I) \<noteq> Some x \<or> c = checkedC \<Longrightarrow> has (icon_classes chk I) x c = has I x c"
    using ok assms(2) c by (cases "box_type (fst I) = u ''checkbox''"; cases chk; elim disjE) (simp_all add: icon_classes_def toggles Let_def)
  show "icon (fst I) = Some x \<Longrightarrow> box_type (fst I) = u ''checkbox'' \<Longrightarrow> c \<noteq> checkedC \<Longrightarrow> has (icon_classes chk I) x c = (if c = checkC then chk else \<not> chk)"
    using ok assms(2) c three by (cases chk; elim disjE) (simp_all add: icon_classes_def toggles Let_def)
qed

lemma icon_classes_tracks: "tracks (icon_classes chk I) checkedC = tracks I checkedC"
proof -
  have "checkedC \<notin> {u ''ui-state-checked'', u ''ui-checkboxradio-icon'', u ''ui-icon'', u ''ui-icon-background''}"
    using watched_literals(1) [of checkedC] watched_literals by auto
  then show ?thesis by (simp add: icon_classes_def toggles Let_def)
qed

lemma icon_classes_tracks_le: "tracks (icon_classes chk I) c \<subseteq> tracks I c \<union> set (numbered (icon (fst I)))"
  using tracks_toggle_le unfolding icon_classes_def Let_def addClass_def removeClass_def by (simp split: if_splits) (blast | meson)

lemma prepend_icon_effect [simp]:
  "same I (prepend_icon I)" "has (prepend_icon I) = has I" "tracks (prepend_icon I) c = tracks I c" "icon (fst (prepend_icon I)) = icon (fst I)"
  "iconSpace (fst (prepend_icon I)) = iconSpace (fst I)" "fresh_node (snd (prepend_icon I)) = fresh_node (snd I)"
  by (simp_all add: prepend_icon_def same_def frame_def pframe_def opts_def has_def [abs_def] tracks_def Let_def)

lemma updateIcon_effect:
  assumes "inst_ok I"
  shows "same I (updateIcon chk I)" "icon (fst (updateIcon chk I)) = next_icon I"
    "c \<in> watched \<Longrightarrow> next_icon I \<noteq> Some x \<or> c = checkedC \<Longrightarrow> has (updateIcon chk I) x c = has I x c"
    "next_icon I = Some x \<Longrightarrow> box_type (fst I) = u ''checkbox'' \<Longrightarrow> has (updateIcon chk I) x checkC = chk \<and> has (updateIcon chk I) x blankC = (\<not> chk)"
    "fresh_node (snd I) \<le> fresh_node (snd (updateIcon chk I))"
    "x \<in> tracks I checkedC \<Longrightarrow> icon (fst I) \<noteq> Some x \<Longrightarrow> iconSpace (fst I) \<noteq> Some x \<Longrightarrow> x \<in> tracks (updateIcon chk I) checkedC"
    "icon (fst I) = None \<Longrightarrow> truthy (opt ''icon'' (fst I)) \<Longrightarrow> fresh_node (snd I) < fresh_node (snd (updateIcon chk I))"
    "c \<in> watched \<Longrightarrow> tracks (updateIcon chk I) c \<subseteq> tracks I c \<union> (if c = checkedC then {} else set (numbered (next_icon I)))"
proof -
  note m = make_icon_effect [OF assms] and i = icon_classes_same [of "make_icon I" chk]
  have ok: "inst_ok (make_icon I)" using same_ok(1) [OF m(1)] assms by simp
  have T: "truthy (opt ''icon'' (fst I)) \<Longrightarrow> updateIcon chk I = prepend_icon (icon_classes chk (make_icon I))"
    and F: "\<not> truthy (opt ''icon'' (fst I)) \<Longrightarrow> icon (fst I) \<noteq> None \<Longrightarrow> updateIcon chk I = ((fst (drop_icon I))\<lparr>icon := None\<rparr>, snd (drop_icon I))"
    and N: "\<not> truthy (opt ''icon'' (fst I)) \<Longrightarrow> icon (fst I) = None \<Longrightarrow> updateIcon chk I = I"
    by (simp_all add: updateIcon_def Let_def)
  have drop: "same I ((fst (drop_icon I))\<lparr>icon := None\<rparr>, snd (drop_icon I))" "has ((fst (drop_icon I))\<lparr>icon := None\<rparr>, snd (drop_icon I)) = has I"
    "tracks ((fst (drop_icon I))\<lparr>icon := None\<rparr>, snd (drop_icon I)) c = tracks (drop_icon I) c" for c
    using drop_icon_effect(1,2) [of I] by (simp_all add: same_def frame_def pframe_def opts_def has_def [abs_def] tracks_def Let_def)
  show "same I (updateIcon chk I)"
    using T F N drop(1) same_trans [OF same_trans [OF m(1) i] prepend_icon_effect(1)] by (cases "truthy (opt ''icon'' (fst I))"; cases "icon (fst I)") simp_all
  show ic: "icon (fst (updateIcon chk I)) = next_icon I"
    using T F N m(5) by (cases "truthy (opt ''icon'' (fst I))"; cases "icon (fst I)") (simp_all add: next_icon_def)
  show "c \<in> watched \<Longrightarrow> next_icon I \<noteq> Some x \<or> c = checkedC \<Longrightarrow> has (updateIcon chk I) x c = has I x c"
    using T F N drop(2) m(2) [of x] m(5) icon_classes_has(1) [OF ok, of c x chk] by (cases "truthy (opt ''icon'' (fst I))"; cases "icon (fst I)") auto
  show "next_icon I = Some x \<Longrightarrow> box_type (fst I) = u ''checkbox'' \<Longrightarrow> has (updateIcon chk I) x checkC = chk \<and> has (updateIcon chk I) x blankC = (\<not> chk)"
    using T m(5) icon_classes_has(2) [OF ok, of _ x chk] same_fields(1) [OF m(1)]
    by (cases "truthy (opt ''icon'' (fst I))") (simp_all add: literals next_icon_def)
  show "fresh_node (snd I) \<le> fresh_node (snd (updateIcon chk I))"
    using T F N m(4) drop_icon_effect(5) [of I] by (cases "truthy (opt ''icon'' (fst I))"; cases "icon (fst I)") simp_all
  show "icon (fst I) = None \<Longrightarrow> truthy (opt ''icon'' (fst I)) \<Longrightarrow> fresh_node (snd I) < fresh_node (snd (updateIcon chk I))"
    using T m(6) by simp
  show "c \<in> watched \<Longrightarrow> tracks (updateIcon chk I) c \<subseteq> tracks I c \<union> (if c = checkedC then {} else set (numbered (next_icon I)))"
  proof (cases "truthy (opt ''icon'' (fst I))")
    case True
    assume "c \<in> watched"
    then show ?thesis using True T m(3) m(5) icon_classes_tracks icon_classes_tracks_le [of chk "make_icon I" c] by auto
  next
    case False
    assume "c \<in> watched"
    show ?thesis using F [OF False] N [OF False] drop(3) [of c] drop_icon_effect(7) [of I c] by (cases "icon (fst I)") auto
  qed
  show "x \<in> tracks I checkedC \<Longrightarrow> icon (fst I) \<noteq> Some x \<Longrightarrow> iconSpace (fst I) \<noteq> Some x \<Longrightarrow> x \<in> tracks (updateIcon chk I) checkedC"
    using T F N m(3) [of checkedC] watched_literals drop(3) [of checkedC] drop_icon_effect(6) [of I checkedC]
    by (cases "truthy (opt ''icon'' (fst I))"; cases "icon (fst I)") (simp_all add: icon_classes_tracks)
qed

lemma updateLabel_effect [simp]:
  "same I (updateLabel br e I)" "has (updateLabel br e I) = has I" "tracks (updateLabel br e I) c = tracks I c"
  "icon (fst (updateLabel br e I)) = icon (fst I)" "iconSpace (fst (updateLabel br e I)) = iconSpace (fst I)"
  "fresh_node (snd (updateLabel br e I)) = fresh_node (snd I)"
  by (simp_all add: updateLabel_def same_def frame_def pframe_def opts_def has_def [abs_def] tracks_def Let_def)


subsection \<open>Options\<close>

lemma setOption_plain: "k \<noteq> Key (u ''classes'') \<Longrightarrow> k \<noteq> Key (u ''disabled'') \<Longrightarrow> w_setOption k v w = w\<lparr>options := put (options w) k v\<rparr>"
  by (simp add: w_setOption_def Let_def)

lemma setOption_disabled:
  "hoverable w = [] \<Longrightarrow> focusable w = [] \<Longrightarrow> w_setOption (Key (u ''disabled'')) v w =
     (let w = toggleClass [widgetElement w] (widgetFullName w @ u ''-disabled'') [] (truthy v) (w\<lparr>options := put (options w) (Key (u ''disabled'')) v\<rparr>)
      in if truthy v then removeClass [] [] (u ''ui-state-focus'') (removeClass [] [] (u ''ui-state-hover'') w) else w)"
  by (simp add: w_setOption_def setOptionDisabled_def Let_def u_inject removeClass_def)

lemma setOption_frame:
  "element (w_setOption k v w) = element w" "widgetElement (w_setOption k v w) = widgetElement w" "widgetFullName (w_setOption k v w) = widgetFullName w"
  "hoverable (w_setOption k v w) = hoverable w" "focusable (w_setOption k v w) = focusable w" "tables (w_setOption k v w) = tables w"
  "eventNamespace (w_setOption k v w) = eventNamespace w" if "k \<noteq> Key (u ''classes'')"
  using that by (simp_all add: w_setOption_def setOptionDisabled_def removeClass_def Let_def)

text \<open>Setting an option other than the classes.\<close>

definition same_but :: "inst \<Rightarrow> inst \<Rightarrow> bool" where
  "same_but I I' \<longleftrightarrow> frame I' = frame I \<and> pframe I' = pframe I \<and> tabs (snd I') = tabs (snd I) \<and> classes_of I' = classes_of I \<and>
     is_object (opts I') = is_object (opts I)"

lemma same_but_ok: "same_but I I' \<Longrightarrow> inst_ok I' = inst_ok I"
  by (simp add: same_but_def inst_ok_def frame_def Let_def)

lemma same_same_but: "same I I' \<Longrightarrow> same_but I I'"
  by (simp add: same_def same_but_def classes_of_def)

lemma same_but_trans: "same_but I I' \<Longrightarrow> same_but I' I'' \<Longrightarrow> same_but I I''"
  by (simp add: same_but_def)

lemma setOption_effect:
  fixes I :: inst and k :: key and v :: jsval
  assumes "inst_ok I" "k \<noteq> Key (u ''classes'')"
  defines "J \<equiv> widget_do (w_setOption k v) I"
  shows "same_but I J" "opts J = put (opts I) k v" "inp (snd J) = inp (snd I)" "c \<in> watched \<Longrightarrow> has J x c = has I x c" "c \<in> watched \<Longrightarrow> tracks J c = tracks I c"
proof -
  have o: "opts J = put (opts I) k v" by (simp add: J_def)
  then show "opts J = put (opts I) k v" .
  have cl: "classes_of J = classes_of I" using assms(1,2) o by (simp add: classes_of_def inst_ok_def)
  have "frame J = frame I" by (simp add: setOption_frame [OF assms(2)] J_def frame_def widget_do_def loaded_def Let_def)
  moreover have "pframe J = pframe I" "tabs (snd J) = tabs (snd I)" by (simp_all add: setOption_frame(6) [OF assms(2)] J_def)
  ultimately show "same_but I J" using o cl by (simp add: same_but_def)
  show "inp (snd J) = inp (snd I)" by (simp add: J_def)
  show "c \<in> watched \<Longrightarrow> has J x c = has I x c" "c \<in> watched \<Longrightarrow> tracks J c = tracks I c"
  proof -
    show "has J x c = has I x c" if c: "c \<in> watched"
    proof (cases "k = Key (u ''disabled'')")
      case True
      have "get (put (opts I) (Key (u ''disabled'')) v) (Key (u ''classes'')) = classes_of I"
        using assms(1) by (simp add: classes_of_def inst_ok_def u_inject)
      then have "c \<notin> option_words (get (put (opts I) (Key (u ''disabled'')) v) (Key (u ''classes''))) j" for j
        using c inst_okD [OF assms(1)] by (auto simp: ok_classes_def)
      then show ?thesis using assms(1) watched_literals(1) [OF c] unfolding J_def True has_def
        by (simp add: setOption_disabled inst_ok_def removeClass_def toggle_css literals key_words_def Let_def)
    qed (use assms(2) in \<open>simp add: J_def has_def setOption_plain\<close>)
    show "tracks J c = tracks I c" if c: "c \<in> watched"
    proof (cases "k = Key (u ''disabled'')")
      case True
      then show ?thesis using assms(1) watched_literals(1) [OF c] unfolding J_def True widget_do_tracks
        by (simp add: setOption_disabled inst_ok_def removeClass_def toggle_tracked literals Let_def) (simp add: tracks_def)
    qed (use assms(2) in \<open>simp add: J_def widget_do_tracks setOption_plain\<close>, simp add: tracks_def)
  qed
qed


lemma flip_words_other: "c \<notin> set cs \<Longrightarrow> c \<in> set (flip_words cs attr) \<longleftrightarrow> c \<in> set attr"
proof (induction cs arbitrary: attr)
  case (Cons k cs)
  then show ?case using Cons.IH [of "if k \<in> set attr then filter (\<lambda>x. x \<noteq> k) attr else attr @ [k]"] by (simp add: flip_words_def)
qed (simp add: flip_words_def)

lemma toggle_value_cases:
  obtains (bool) add where "v = JBool add" "toggleClass_value es extra v w = toggleClass es [] extra add w"
  | (other) cs where "set cs = set (words_by is_space extra)" "toggleClass_value es extra v w =
      (toggleClass es [] extra True w)\<lparr>css := \<lambda>e. if e \<in> set es then flip_words cs (css w e) else css w e\<rparr>"
proof (cases "\<exists>add. v = JBool add")
  case True
  then show ?thesis using bool by (auto simp: toggleClass_value_def)
next
  case False
  let ?v = "get (options w) (Key (u ''classes''))"
  obtain full w' where c: "w_classes True es [] extra ?v w = (full, w')" by (cases "w_classes True es [] extra ?v w")
  have css: "css w' = css w" using c by (rule classes_css)
  have "toggleClass_value es extra v w =
      (toggleClass es [] extra True w)\<lparr>css := \<lambda>e. if e \<in> set es then flip_words (concat (map words_of full)) (css w' e) else css w' e\<rparr>"
    using False by (cases v) (auto simp: toggleClass_value_def toggleClass_def c dom_toggle_def Let_def)
  then have "toggleClass_value es extra v w =
      (toggleClass es [] extra True w)\<lparr>css := \<lambda>e. if e \<in> set es then flip_words (concat (map words_of full)) (css w e) else css w e\<rparr>"
    unfolding css .
  moreover have "set (concat (map words_of full)) = set (words_by is_space extra)"
    using classes_words [of True es "[]" extra ?v w] c by (simp add: key_words_def)
  ultimately show ?thesis by (rule other [rotated])
qed

lemma toggle_value_effect:
  fixes I :: inst and es :: "nat list" and extra :: ustring and v :: jsval
  assumes "inst_ok I"
  defines "J \<equiv> widget_do (toggleClass_value es extra v) I"
  shows "same I J" "c \<in> watched \<Longrightarrow> c \<notin> set (words_by is_space extra) \<Longrightarrow> has J x c = has I x c"
    "c \<notin> set (words_by is_space extra) \<Longrightarrow> tracks J c = tracks I c"
proof -
  show "same I J"
  proof (cases v es extra "loaded I" rule: toggle_value_cases)
    case (bool add)
    then show ?thesis by (simp add: J_def widget_do_def same_def frame_def pframe_def opts_def loaded_def Let_def)
  next
    case (other cs)
    then show ?thesis by (simp add: J_def widget_do_def same_def frame_def pframe_def opts_def loaded_def Let_def)
  qed
  show "has J x c = has I x c" if "c \<in> watched" "c \<notin> set (words_by is_space extra)"
  proof (cases v es extra "loaded I" rule: toggle_value_cases)
    case (bool add)
    then show ?thesis using that has_toggle [OF inst_okD [OF assms(1)] that(1), of es "[]" extra add x] by (simp add: J_def has_def)
  next
    case (other cs)
    then show ?thesis using that by (simp add: J_def has_def flip_words_other)
  qed
  show "tracks J c = tracks I c" if "c \<notin> set (words_by is_space extra)"
  proof (cases v es extra "loaded I" rule: toggle_value_cases)
    case (bool add)
    then show ?thesis using that tracks_toggle [of es "[]" extra add I c] by (simp add: J_def widget_do_tracks)
  next
    case (other cs)
    then show ?thesis using that tracks_toggle [of es "[]" extra True I c] by (simp add: J_def widget_do_tracks)
  qed
qed

lemma set_disabled_effect:
  fixes I :: inst and v :: jsval and e :: nat
  assumes "inst_ok I"
  defines "J \<equiv> set_disabled e v I"
  shows "same_but I J" "opts J = put (opts I) (Key (u ''disabled'')) v" "inp (snd J) = (inp (snd I))(e := (inp (snd I) e)\<lparr>in_disabled := truthy v\<rparr>)"
    "c \<in> watched \<Longrightarrow> has J x c = has I x c" "c \<in> watched \<Longrightarrow> tracks J c = tracks I c"
    "icon (fst J) = icon (fst I)" "iconSpace (fst J) = iconSpace (fst I)" "fresh_node (snd J) = fresh_node (snd I)"
proof -
  define K where "K = widget_do (w_setOption (Key (u ''disabled'')) v) I"
  have dc: "Key (u ''disabled'') \<noteq> Key (u ''classes'')" by (simp add: u_inject)
  note k = setOption_effect [OF assms(1) dc, where v = v, folded K_def]
  have kok: "inst_ok K" using same_but_ok [OF k(1)] assms(1) by simp
  define L where "L = widget_do (toggleClass_value [box_label (fst I)] (u ''ui-state-disabled'') v) K"
  note l = toggle_value_effect [OF kok, where es = "[box_label (fst I)]" and extra = "u ''ui-state-disabled''" and v = v, folded L_def]
  have "box_label (fst K) = box_label (fst I)" by (simp add: K_def)
  then have J: "J = (fst L, (snd L)\<lparr>inp := (inp (snd L))(e := (inp (snd L) e)\<lparr>in_disabled := truthy v\<rparr>)\<rparr>)"
    by (simp add: J_def set_disabled_def K_def L_def Let_def)
  have JL: "frame J = frame L" "pframe J = pframe L" "opts J = opts L" "tabs (snd J) = tabs (snd L)" "has J = has L" "tracks J c = tracks L c" for c
    by (simp_all add: J frame_def pframe_def opts_def has_def [abs_def] tracks_def Let_def)
  have "same_but L J" using JL by (simp add: same_but_def classes_of_def)
  with k(1) same_same_but [OF l(1)] show "same_but I J" by (blast intro: same_but_trans)
  show "opts J = put (opts I) (Key (u ''disabled'')) v" using JL(3) l(1) k(2) by (simp add: same_def)
  show "inp (snd J) = (inp (snd I))(e := (inp (snd I) e)\<lparr>in_disabled := truthy v\<rparr>)" by (simp add: J L_def K_def)
  have w: "c \<in> watched \<Longrightarrow> c \<notin> set (words_by is_space (u ''ui-state-disabled''))" for c using watched_literals(1) [of c] by (simp add: literals)
  show "c \<in> watched \<Longrightarrow> has J x c = has I x c" using JL(5) l(2) [OF _ w] k(4) by simp
  show "c \<in> watched \<Longrightarrow> tracks J c = tracks I c" using JL(6) l(3) [OF w] k(5) by simp
  show "icon (fst J) = icon (fst I)" "iconSpace (fst J) = iconSpace (fst I)" "fresh_node (snd J) = fresh_node (snd I)"
    by (simp_all add: J L_def K_def)
qed


subsection \<open>Refreshing\<close>

text \<open>The classes that show the state, after an instance was brought up to date: those of its label and of the icon of a
  checkbox are as they should be, and those of elements that are neither its label nor its icon are as before.\<close>

definition updated :: "bool \<Rightarrow> inst \<Rightarrow> inst \<Rightarrow> bool" where
  "updated chk I J \<longleftrightarrow> (\<forall>x. \<forall>c \<in> watched.
     (x = box_label (fst I) \<and> c = checkedC \<longrightarrow> has J x c = chk) \<and>
     (icon (fst J) = Some x \<and> c \<noteq> checkedC \<and> box_type (fst I) = u ''checkbox'' \<longrightarrow> has J x c = (if c = checkC then chk else \<not> chk)) \<and>
     (\<not> (x = box_label (fst I) \<and> c = checkedC) \<and> \<not> (icon (fst J) = Some x \<and> c \<noteq> checkedC) \<longrightarrow> has J x c = has I x c))"

text \<open>What an instance tracks for the watched classes afterwards: nothing but its label and its icon is new.\<close>

definition grown :: "inst \<Rightarrow> inst \<Rightarrow> bool" where
  "grown I J \<longleftrightarrow> tracks J checkedC \<subseteq> insert (box_label (fst I)) (tracks I checkedC) \<and>
     (\<forall>c \<in> {checkC, blankC}. tracks J c \<subseteq> tracks I c \<union> set (numbered (icon (fst J))))"

lemma grown_mark: "grown I J \<Longrightarrow> box_label (fst J) = box_label (fst I) \<Longrightarrow> grown I (mark_label chk J)"
  by (auto simp: grown_def mark_label_tracks mark_label_tracks_other watched_literals split: if_splits)

lemma grown_icon: "inst_ok I \<Longrightarrow> grown I (updateIcon chk I)"
  using updateIcon_effect(8) [of I checkedC chk] updateIcon_effect(8) [of I checkC chk] updateIcon_effect(8) [of I blankC chk] updateIcon_effect(2) [of I chk]
  by (auto simp: grown_def watched_literals)

lemma mark_after_icon:
  assumes "inst_ok I"
  shows "updated chk I (mark_label chk (updateIcon chk I))"
proof -
  note u = updateIcon_effect [OF assms]
  have ok: "inst_ok (updateIcon chk I)" using same_ok(1) [OF u(1)] assms by simp
  have lab: "box_label (fst (updateIcon chk I)) = box_label (fst I)" using same_fields(2) [OF u(1)] .
  have "has (mark_label chk (updateIcon chk I)) x c = (if x = box_label (fst I) \<and> c = checkedC then chk else has (updateIcon chk I) x c)"
    if "c \<in> watched" for x c using mark_label_has [OF ok that] lab by simp
  then show ?thesis using u(2) u(3) u(4) by (auto simp: updated_def watched_def watched_literals(2-7))
qed

lemma updated_cong: "updated chk I J \<Longrightarrow> icon (fst J') = icon (fst J) \<Longrightarrow> (\<And>x c. c \<in> watched \<Longrightarrow> has J' x c = has J x c) \<Longrightarrow> updated chk I J'"
  by (simp add: updated_def)

lemma refresh_effect:
  fixes I :: inst and br :: browser and e :: nat
  assumes "inst_ok I"
  defines "chk \<equiv> in_checked (inp (snd I) e)" and "J \<equiv> refresh br e I"
  shows "same_but I J" "updated chk I J" "icon (fst J) = next_icon I" "inp (snd J) = inp (snd I)"
    "opt ''disabled'' (fst J) = JBool (in_disabled (inp (snd I) e))" "opt ''icon'' (fst J) = opt ''icon'' (fst I)"
    "chk \<Longrightarrow> box_label (fst I) \<in> tracks J checkedC" "fresh_node (snd I) \<le> fresh_node (snd J)"
    "icon (fst I) = None \<Longrightarrow> truthy (opt ''icon'' (fst I)) \<Longrightarrow> fresh_node (snd I) < fresh_node (snd J)" "grown I J"
proof -
  note u = updateIcon_effect [OF assms(1), where chk = chk]
  define K where "K = mark_label chk (updateIcon chk I)"
  have K: "same I K" using same_trans [OF u(1) mark_label_same] by (simp add: K_def)
  have kok: "inst_ok K" using same_ok(1) [OF K] assms(1) by simp
  define L where "L = (if opt ''label'' (fst K) \<noteq> JNull then updateLabel br e K else K)"
  have L: "same K L" "has L = has K" "tracks L c = tracks K c" "icon (fst L) = icon (fst K)" "fresh_node (snd L) = fresh_node (snd K)" for c
    by (simp_all add: L_def)
  have IL: "same I L" using K L(1) by (rule same_trans)
  have lok: "inst_ok L" using same_ok(1) [OF L(1)] kok by simp
  let ?d = "JBool (in_disabled (inp (snd I) e))"
  have J: "J = (if ?d \<noteq> opt ''disabled'' (fst L) then set_disabled e ?d L else L)"
    by (simp add: J_def refresh_def chk_def K_def L_def Let_def)
  note d = set_disabled_effect [OF lok, where e = e and v = ?d]
  have in0: "inp (snd L) = inp (snd I)" using same_fields(5) [OF IL] .
  have same_inp: "(inp (snd L))(e := (inp (snd L) e)\<lparr>in_disabled := in_disabled (inp (snd I) e)\<rparr>) = inp (snd I)" by (simp add: in0 fun_eq_iff)
  have "updated chk I K" using mark_after_icon [OF assms(1)] by (simp add: K_def)
  then have "updated chk I L" using L(2,4) by (simp add: updated_cong)
  then show "updated chk I J" unfolding J using d(4,6) by (auto intro: updated_cong)
  show "same_but I J" unfolding J using same_same_but [OF IL] d(1) by (auto intro: same_but_trans)
  show "icon (fst J) = next_icon I" unfolding J using d(6) L(4) u(2) by (simp add: K_def)
  show "inp (snd J) = inp (snd I)" unfolding J using d(3) same_inp in0 by simp
  have obj: "is_object (opts L)" using lok by (simp add: inst_ok_def)
  show "opt ''disabled'' (fst J) = ?d" using d(2) obj by (simp add: J opt_fst)
  have "opt ''icon'' (fst L) = opt ''icon'' (fst I)" using same_fields(4) [OF IL] .
  then show "opt ''icon'' (fst J) = opt ''icon'' (fst I)" using d(2) obj by (simp add: J opt_fst u_inject)
  have "chk \<Longrightarrow> box_label (fst I) \<in> tracks K checkedC" using same_fields(2) [OF u(1)] by (simp add: K_def mark_label_tracks)
  then show "chk \<Longrightarrow> box_label (fst I) \<in> tracks J checkedC" unfolding J using d(5) [of checkedC] L(3) watched_literals by simp
  have "grown I K" unfolding K_def by (rule grown_mark [OF grown_icon [OF assms(1)]]) (rule same_fields(2) [OF u(1)])
  then show "grown I J" unfolding J using d(5,6) L(3,4) watched_literals by (simp add: grown_def)
  show "fresh_node (snd I) \<le> fresh_node (snd J)" "icon (fst I) = None \<Longrightarrow> truthy (opt ''icon'' (fst I)) \<Longrightarrow> fresh_node (snd I) < fresh_node (snd J)"
    unfolding J using d(8) L(5) u(5,7) by (simp_all add: K_def)
qed


end
