(* ===== verification/BoxPage.thy ===== *)
theory BoxPage
  imports BoxState
begin

text \<open>
  The \<open>checkboxradio\<close> widgets of a page: the invariant that the labels and icons show the state of the inputs, that a
  method on one instance keeps it, and that a click keeps it, with the group of a radio button. The locale \<open>box_method\<close>
  says what a method that works on one instance owes the page; it is interpreted by the methods of the widget.
\<close>

subsection \<open>The invariant\<close>

definition marked :: "bpage \<Rightarrow> nat \<Rightarrow> ustring \<Rightarrow> bool" where
  "marked S x c \<longleftrightarrow> c \<in> set (cls S x)"

lemma has_marked: "has I = marked (snd I)"
  by (simp add: has_def [abs_def] marked_def [abs_def])

definition is_built :: "bpage \<Rightarrow> nat \<Rightarrow> bool" where
  "is_built S e \<longleftrightarrow> (case slots S e of Some (Built b) \<Rightarrow> True | _ \<Rightarrow> False)"

text \<open>The page around the widgets, which no step changes: the labels are below \<open>N\<close> and belong to one input each, the names
  have no backslash, the inputs are listed, and the inputs with the name of a radio button in its form are radio buttons.\<close>

definition static :: "nat \<Rightarrow> bpage \<Rightarrow> bool" where
  "static N S \<longleftrightarrow>
     (\<forall>x. \<forall>l \<in> set (in_labels (inp S x)). l < N) \<and>
     (\<forall>x y. x \<noteq> y \<longrightarrow> set (in_labels (inp S x)) \<inter> set (in_labels (inp S y)) = {}) \<and>
     (\<forall>x. 92 \<notin> set (in_name (inp S x))) \<and>
     (\<forall>x y. in_type (inp S x) = u ''radio'' \<and> in_name (inp S x) \<noteq> [] \<and> lower (in_node (inp S y)) = u ''input'' \<and>
        in_name (inp S y) = in_name (inp S x) \<and> in_form (inp S y) = in_form (inp S x) \<longrightarrow> in_type (inp S y) = u ''radio'') \<and>
     (\<forall>x. lower (in_node (inp S x)) = u ''input'' \<longrightarrow> x \<in> set (elems S)) \<and>
     (\<forall>x. readType (inp S x) = None \<longrightarrow> in_type (inp S x) \<in> {u ''radio'', u ''checkbox''})"

definition same_input :: "input \<Rightarrow> input \<Rightarrow> bool" where
  "same_input i j \<longleftrightarrow> in_node j = in_node i \<and> in_type j = in_type i \<and> in_name j = in_name i \<and> in_form j = in_form i \<and> in_labels j = in_labels i"

lemma same_inputD: "same_input i j \<Longrightarrow> in_node j = in_node i \<and> in_type j = in_type i \<and> in_name j = in_name i \<and> in_form j = in_form i \<and> in_labels j = in_labels i \<and>
    readType j = readType i"
  by (simp add: same_input_def readType_def Let_def)

lemma static_cong:
  assumes "static N S" "elems S' = elems S" "\<And>x. same_input (inp S x) (inp S' x)"
  shows "static N S'"
proof -
  have eqs: "in_node (inp S' x) = in_node (inp S x)" "in_type (inp S' x) = in_type (inp S x)" "in_name (inp S' x) = in_name (inp S x)"
    "in_form (inp S' x) = in_form (inp S x)" "in_labels (inp S' x) = in_labels (inp S x)" "readType (inp S' x) = readType (inp S x)" for x
    using same_inputD [OF assms(3)] by simp_all
  show ?thesis using assms(1) unfolding static_def assms(2) eqs .
qed

text \<open>An instance in order, and an instance that shows the state of its input.\<close>

definition tracks_ok :: "nat \<Rightarrow> inst \<Rightarrow> bool" where
  "tracks_ok N I \<longleftrightarrow> tracks I checkedC \<subseteq> {box_label (fst I)} \<and> (\<forall>c \<in> {checkC, blankC}. \<forall>n \<in> tracks I c. N \<le> n \<and> n < fresh_node (snd I))"

definition box_ok :: "nat \<Rightarrow> nat \<Rightarrow> inst \<Rightarrow> bool" where
  "box_ok N e I \<longleftrightarrow> (let b = fst I; S = snd I in
     inst_ok I \<and> box_type b = in_type (inp S e) \<and> readType (inp S e) = None \<and> box_label b \<in> set (in_labels (inp S e)) \<and>
     box_form b = in_form (inp S e) \<and> (icon b = None \<longleftrightarrow> \<not> truthy (opt ''icon'' b)) \<and>
     (\<forall>i. icon b = Some i \<longrightarrow> N \<le> i \<and> i < fresh_node S) \<and> (opt ''disabled'' b = JBool True \<longrightarrow> in_disabled (inp S e)) \<and>
     (has I (box_label b) checkedC \<longrightarrow> box_label b \<in> tracks I checkedC) \<and> tracks_ok N I)"

definition shows_state :: "nat \<Rightarrow> inst \<Rightarrow> bool" where
  "shows_state e I \<longleftrightarrow> (let b = fst I; S = snd I; chk = in_checked (inp S e) in
     has I (box_label b) checkedC = chk \<and>
     (\<forall>i. icon b = Some i \<and> box_type b = u ''checkbox'' \<longrightarrow> has I i checkC = chk \<and> has I i blankC = (\<not> chk)))"

text \<open>\<open>X\<close> are the inputs that need not be shown at the moment.\<close>

definition boxes_ok :: "nat \<Rightarrow> (nat \<Rightarrow> bool) \<Rightarrow> bpage \<Rightarrow> bool" where
  "boxes_ok N X S \<longleftrightarrow> N \<le> fresh_node S \<and> static N S \<and>
     (\<forall>e b. slots S e = Some (Built b) \<longrightarrow> box_ok N e (b, S) \<and> (\<not> X e \<longrightarrow> shows_state e (b, S))) \<and>
     (\<forall>e e' b b' i. slots S e = Some (Built b) \<and> slots S e' = Some (Built b') \<and> e \<noteq> e' \<and> icon b = Some i \<longrightarrow> icon b' \<noteq> Some i \<and> (\<forall>c \<in> {checkC, blankC}. i \<notin> tracks (b', S) c)) \<and>
     (\<forall>e. \<forall>l \<in> set (in_labels (inp S e)). (\<forall>b. slots S e = Some (Built b) \<longrightarrow> l \<noteq> box_label b) \<longrightarrow> \<not> marked S l checkedC) \<and>
     (\<forall>e n t. slots S e = Some (Failed (WrongType n t)) \<longrightarrow> readType (inp S e) \<noteq> None)"

text \<open>What a step on the instance of \<open>e\<close> leaves of the page: everything but the classes of its label and its icon.\<close>

definition local_effect :: "nat \<Rightarrow> inst \<Rightarrow> inst \<Rightarrow> bool" where
  "local_effect e I J \<longleftrightarrow>
     box_label (fst J) = box_label (fst I) \<and> box_type (fst J) = box_type (fst I) \<and> box_form (fst J) = box_form (fst I) \<and>
     elems (snd J) = elems (snd I) \<and> slots (snd J) = slots (snd I) \<and> fresh_node (snd I) \<le> fresh_node (snd J) \<and>
     (\<exists>d. inp (snd J) = (inp (snd I))(e := (inp (snd I) e)\<lparr>in_disabled := d\<rparr>)) \<and>
     (icon (fst J) = icon (fst I) \<or> icon (fst J) = None \<or> icon (fst J) = Some (fresh_node (snd I)) \<and> fresh_node (snd I) < fresh_node (snd J)) \<and>
     (\<forall>x. \<forall>c \<in> watched. x \<noteq> box_label (fst I) \<and> icon (fst J) \<noteq> Some x \<longrightarrow> has J x c = has I x c) \<and> grown I J"

lemma grown_refl [simp]: "grown I I"
  by (auto simp: grown_def)

lemma grown_in_order:
  assumes "grown I J" "tracks_ok N I" "box_label (fst J) = box_label (fst I)" "fresh_node (snd I) \<le> fresh_node (snd J)"
    "\<And>i. icon (fst J) = Some i \<Longrightarrow> N \<le> i \<and> i < fresh_node (snd J)"
  shows "tracks_ok N J"
  using assms by (fastforce simp: grown_def tracks_ok_def)

lemma tracks_ok_0: "tracks_ok N I \<Longrightarrow> tracks_ok 0 I"
  by (simp add: tracks_ok_def)

lemma inp_idle: "\<exists>d. inp S = (inp S)(e := (inp S e)\<lparr>in_disabled := d\<rparr>)"
proof
  show "inp S = (inp S)(e := (inp S e)\<lparr>in_disabled := in_disabled (inp S e)\<rparr>)" by (simp add: fun_eq_iff)
qed

lemma same_input_checked: "same_input i (i\<lparr>in_checked := c, in_disabled := d\<rparr>)" "same_input i (i\<lparr>in_disabled := d\<rparr>)" "same_input i (i\<lparr>in_checked := c\<rparr>)" "same_input i i"
  by (simp_all add: same_input_def)

text \<open>An instance that has its place on the page: a label of its input, and an icon that no other instance has.\<close>

definition placed :: "nat \<Rightarrow> nat \<Rightarrow> inst \<Rightarrow> bool" where
  "placed N e I \<longleftrightarrow> box_label (fst I) \<in> set (in_labels (inp (snd I) e)) \<and> (\<forall>i. icon (fst I) = Some i \<longrightarrow> N \<le> i) \<and>
     (\<forall>b'. slots (snd I) e = Some (Built b') \<longrightarrow> box_label b' = box_label (fst I)) \<and>
     (\<forall>x b' i. \<forall>c \<in> {checkC, blankC}. slots (snd I) x = Some (Built b') \<and> x \<noteq> e \<longrightarrow>
        (icon b' = Some i \<longrightarrow> icon (fst I) \<noteq> Some i \<and> i \<notin> tracks I c) \<and> (icon (fst I) = Some i \<longrightarrow> i \<notin> tracks (b', snd I) c))"

lemma built_placed: "boxes_ok N X S \<Longrightarrow> slots S e = Some (Built b) \<Longrightarrow> placed N e (b, S)"
proof -
  assume ok: "boxes_ok N X S" and e: "slots S e = Some (Built b)"
  have "box_ok N e (b, S)" using ok e by (simp add: boxes_ok_def)
  moreover have cross: "icon b1 = Some i \<longrightarrow> icon b2 \<noteq> Some i \<and> (\<forall>c \<in> {checkC, blankC}. i \<notin> tracks (b2, S) c)"
    if "slots S x = Some (Built b1)" "slots S y = Some (Built b2)" "x \<noteq> y" for x y b1 b2 i using ok that unfolding boxes_ok_def by blast
  ultimately show ?thesis using e cross [OF e] cross [OF _ e] unfolding placed_def box_ok_def Let_def by (simp only: fst_conv snd_conv) blast
qed

text \<open>Another instance is not touched.\<close>

lemma other_untouched:
  assumes "boxes_ok N X S" "local_effect e (b, S) J" "placed N e (b, S)" "slots S x = Some (Built b')" "x \<noteq> e"
    "y = box_label b' \<or> icon b' = Some y" "c \<in> watched"
  shows "has J y c = has (b, S) y c"
proof -
  have st: "static N S" and N: "N \<le> fresh_node S" and b': "box_ok N x (b', S)" using assms(1,4) by (auto simp: boxes_ok_def)
  have l: "box_label b \<in> set (in_labels (inp S e))" "box_label b' \<in> set (in_labels (inp S x))"
    using assms(3) b' by (simp_all add: placed_def box_ok_def)
  then have lt: "box_label b < N" "box_label b' < N" using st by (auto simp: static_def)
  have ic: "\<And>i. icon b' = Some i \<Longrightarrow> N \<le> i \<and> i < fresh_node S \<and> icon b \<noteq> Some i" "\<And>i. icon b = Some i \<Longrightarrow> N \<le> i"
    using assms(3-5) b' unfolding placed_def box_ok_def Let_def fst_conv snd_conv by blast+
  have "box_label b' \<noteq> box_label b" using st assms(5) l unfolding static_def by (metis disjoint_iff)
  with lt ic assms(6) have "y \<noteq> box_label b" by fastforce
  moreover have "icon (fst J) \<noteq> Some y" using assms(2,6) N lt ic unfolding local_effect_def by fastforce
  ultimately show ?thesis using assms(2,7) by (simp add: local_effect_def)
qed

lemma inst_ok_page: "inst_ok (b, S) = inst_ok (b, S')" "tracks (b, S) = tracks (b, S')"
  by (simp_all add: inst_ok_def classes_of_def opts_def tracks_def [abs_def])

lemma box_ok_move:
  assumes "box_ok N e (b, S)" "inp S' e = inp S e" "fresh_node S \<le> fresh_node S'" "marked S' (box_label b) checkedC = marked S (box_label b) checkedC"
  shows "box_ok N e (b, S')"
proof -
  have "tracks_ok N (b, S')" using assms(1,3) inst_ok_page(2) [of b S S'] by (fastforce simp: box_ok_def tracks_ok_def Let_def)
  then show ?thesis using assms inst_ok_page [of b S S'] by (auto simp: box_ok_def has_marked Let_def dest: less_le_trans)
qed

lemma shows_state_move:
  assumes "shows_state e (b, S)" "inp S' e = inp S e" "\<And>x c. x = box_label b \<or> icon b = Some x \<Longrightarrow> c \<in> watched \<Longrightarrow> marked S' x c = marked S x c"
  shows "shows_state e (b, S')"
  using assms by (simp add: shows_state_def has_marked Let_def watched_literals)

lemma store_simps [simp]:
  "inp (store e J) = inp (snd J)" "elems (store e J) = elems (snd J)" "cls (store e J) = cls (snd J)" "fresh_node (store e J) = fresh_node (snd J)"
  "slots (store e J) = (slots (snd J))(e := Some (Built (fst J)))" "tabs (store e J) = tabs (snd J)" "resets (store e J) = resets (snd J)"
  by (simp_all add: store_def)

text \<open>What the forms see of the instances: their form and their name space, the lists of the forms and the handlers.\<close>

definition forms_view :: "bpage \<Rightarrow> (nat \<Rightarrow> (nat option \<times> ustring) option) \<times> (nat \<Rightarrow> nat list option) \<times> box_fn tables" where
  "forms_view S = (\<lambda>e. case slots S e of Some (Built b) \<Rightarrow> Some (box_form b, eventNamespace (box_widget b)) | _ \<Rightarrow> None, resets S, tabs S)"

lemma built_view: "is_built S e \<longleftrightarrow> fst (forms_view S) e \<noteq> None"
  by (auto simp: is_built_def forms_view_def split: option.splits slot.splits)

lemma view_built: "forms_view S' = forms_view S \<Longrightarrow> is_built S' = is_built S"
  by (simp add: fun_eq_iff built_view)

lemma store_view:
  assumes "slots S e = Some (Built b)" "same_but (b, S) J"
  shows "forms_view (store e J) = forms_view S"
  using assms frameD [of J "(b, S)"] by (auto simp: forms_view_def store_def same_but_def pframe_def Let_def)

lemma store_marked [simp]: "marked (store e J) = marked (snd J)" "is_built (store e J) x = (x = e \<or> is_built (snd J) x)"
  by (simp_all add: marked_def [abs_def] is_built_def)

lemma local_inp: "local_effect e I J \<Longrightarrow> same_input (inp (snd I) x) (inp (snd J) x)" "local_effect e I J \<Longrightarrow> x \<noteq> e \<Longrightarrow> inp (snd J) x = inp (snd I) x"
  by (auto simp: local_effect_def same_input_def)

lemma store_others:
  assumes "boxes_ok N X S" "local_effect e (b, S) J" "placed N e (b, S)" "slots S x = Some (Built b')" "x \<noteq> e"
  shows "box_ok N x (b', store e J)" "shows_state x (b', S) \<Longrightarrow> shows_state x (b', store e J)"
proof -
  have old: "box_ok N x (b', S)" using assms(1,4) by (auto simp: boxes_ok_def)
  have m: "marked (store e J) y c = marked S y c" if "y = box_label b' \<or> icon b' = Some y" "c \<in> watched" for y c
    using other_untouched [OF assms that] by (simp add: has_marked)
  have i: "inp (store e J) x = inp S x" using local_inp(2) [OF assms(2,5)] by simp
  have fr: "fresh_node S \<le> fresh_node (store e J)" using assms(2) by (simp add: local_effect_def)
  show "box_ok N x (b', store e J)" by (rule box_ok_move [OF old i fr]) (rule m, simp, rule watched_literals)
  show "shows_state x (b', S) \<Longrightarrow> shows_state x (b', store e J)" using i m by (rule shows_state_move [rotated])
qed

lemma store_icons:
  assumes "boxes_ok N X S" "local_effect e (b, S) J" "placed N e (b, S)"
    "slots (store e J) x = Some (Built b')" "slots (store e J) y = Some (Built b'')" "x \<noteq> y" "icon b' = Some i"
  shows "icon b'' \<noteq> Some i \<and> (\<forall>c \<in> {checkC, blankC}. i \<notin> tracks (b'', store e J) c)"
proof -
  have sl: "slots (snd J) = slots S" using assms(2) by (simp add: local_effect_def)
  have tr: "tracks (z, store e J) = tracks (z, S)" "tracks (fst J, store e J) = tracks J" for z using inst_ok_page(2) [of z] inst_ok_page(2) [of "fst J" _ "snd J"] by auto
  have J: "icon (fst J) = Some j \<Longrightarrow> icon b = Some j \<or> j = fresh_node S" for j using assms(2) by (auto simp: local_effect_def)
  have g: "\<forall>c \<in> {checkC, blankC}. tracks J c \<subseteq> tracks (b, S) c \<union> set (numbered (icon (fst J)))" using assms(2) by (simp add: local_effect_def grown_def)
  have lt: "icon c = Some j \<longrightarrow> j < fresh_node S" "\<forall>k \<in> {checkC, blankC}. j = fresh_node S \<longrightarrow> j \<notin> tracks (c, S) k" if "slots S z = Some (Built c)" for z c j
    using assms(1) that by (auto simp: boxes_ok_def box_ok_def tracks_ok_def Let_def)
  have pl: "icon c = Some j \<longrightarrow> icon b \<noteq> Some j \<and> (\<forall>k \<in> {checkC, blankC}. j \<notin> tracks (b, S) k)" "icon b = Some j \<longrightarrow> (\<forall>k \<in> {checkC, blankC}. j \<notin> tracks (c, S) k)"
    if "slots S z = Some (Built c)" "z \<noteq> e" for z c j using assms(3) that unfolding placed_def fst_conv snd_conv by blast+
  consider "x = e" | "y = e" | "x \<noteq> e" "y \<noteq> e" by blast
  then show ?thesis
  proof cases
    case 1
    then have "b' = fst J" "slots S y = Some (Built b'')" "y \<noteq> e" using assms(4-6) sl by (auto split: if_splits)
    then show ?thesis using J [of i] lt [where z = y and c = b'' and j = i] pl [where z = y and c = b'' and j = i] assms(7) tr(1) by auto
  next
    case 2
    then have y: "b'' = fst J" "slots S x = Some (Built b')" "x \<noteq> e" using assms(4-6) sl by (auto split: if_splits)
    have "icon (fst J) \<noteq> Some i" using J [of i] lt(1) [OF y(2), of i] pl(1) [OF y(2,3), of i] assms(7) by auto
    then show ?thesis using g pl(1) [OF y(2,3), of i] assms(7) tr(2) y(1) by auto
  next
    case 3
    then have "slots S x = Some (Built b')" "slots S y = Some (Built b'')" using assms(4,5) sl by simp_all
    then show ?thesis unfolding tr(1) using assms(1,6,7) unfolding boxes_ok_def by blast
  qed
qed

lemma store_unmarked:
  assumes "boxes_ok N X S" "local_effect e (b, S) J" "placed N e (b, S)" "box_ok N e J" "l \<in> set (in_labels (inp (store e J) x))"
    "\<forall>b'. slots (store e J) x = Some (Built b') \<longrightarrow> l \<noteq> box_label b'"
  shows "\<not> marked (store e J) l checkedC"
proof -
  have st: "static N S" using assms(1) by (simp add: boxes_ok_def)
  have l: "l \<in> set (in_labels (inp S x))" using assms(5) same_inputD [OF local_inp(1) [OF assms(2)], of x] by simp
  have sl: "slots (snd J) = slots S" "box_label (fst J) = box_label b" using assms(2) by (simp_all add: local_effect_def)
  have pl: "box_label b \<in> set (in_labels (inp S e))" "\<forall>b'. slots S e = Some (Built b') \<longrightarrow> box_label b' = box_label b" using assms(3) by (simp_all add: placed_def)
  have nb: "l \<noteq> box_label b"
  proof (cases "x = e")
    case True
    then show ?thesis using assms(6) sl(2) by simp
  next
    case False
    then show ?thesis using l pl(1) st unfolding static_def by (metis disjoint_iff)
  qed
  have "\<forall>b'. slots S x = Some (Built b') \<longrightarrow> l \<noteq> box_label b'" using assms(6) sl(1) pl(2) nb by (cases "x = e") auto
  then have "\<not> marked S l checkedC" using assms(1) l unfolding boxes_ok_def by blast
  moreover have "l < N" using l st by (auto simp: static_def)
  then have "icon (fst J) \<noteq> Some l" using assms(4) by (auto simp: box_ok_def Let_def)
  ultimately show ?thesis using assms(2) nb watched_literals by (simp add: local_effect_def has_marked)
qed

lemma place_keeps:
  assumes ok: "boxes_ok N X S" and eff: "local_effect e (b, S) J" and pl: "placed N e (b, S)" and box: "box_ok N e J"
    and show_J: "\<not> X' e \<Longrightarrow> shows_state e J" and X': "\<And>x. x \<noteq> e \<Longrightarrow> X x \<Longrightarrow> X' x"
  shows "boxes_ok N X' (store e J)"
proof -
  let ?T = "store e J"
  have L: "elems (snd J) = elems S" "slots (snd J) = slots S" "fresh_node S \<le> fresh_node (snd J)" using eff by (simp_all add: local_effect_def)
  have "static N S" using ok by (simp add: boxes_ok_def)
  then have st: "static N ?T" by (rule static_cong) (use L(1) local_inp(1) [OF eff] in simp_all)
  have "box_ok N x (b', ?T) \<and> (\<not> X' x \<longrightarrow> shows_state x (b', ?T))" if x: "slots ?T x = Some (Built b')" for x b'
  proof (cases "x = e")
    case True
    have "box_ok N e (fst J, ?T)" by (rule box_ok_move [where S = "snd J"]) (simp_all add: box)
    moreover have "shows_state e (fst J, ?T)" if "\<not> X' e" by (rule shows_state_move [where S = "snd J"]) (simp_all add: show_J [OF that])
    ultimately show ?thesis using True x by simp
  next
    case False
    then have "slots S x = Some (Built b')" using x L(2) by simp
    moreover from this have "\<not> X x \<longrightarrow> shows_state x (b', S)" using ok by (simp add: boxes_ok_def)
    ultimately show ?thesis using store_others [OF ok eff pl _ False] X' [OF False] by blast
  qed
  moreover have "readType (inp ?T x) \<noteq> None" if "slots ?T x = Some (Failed (WrongType n t))" for x n t
  proof -
    have "x \<noteq> e" "slots S x = Some (Failed (WrongType n t))" using that L(2) by (auto split: if_splits)
    then show ?thesis using ok local_inp(2) [OF eff] unfolding boxes_ok_def by simp
  qed
  moreover have "N \<le> fresh_node ?T" using ok L(3) by (simp add: boxes_ok_def)
  ultimately show ?thesis using st store_icons [OF ok eff pl] store_unmarked [OF ok eff pl box] unfolding boxes_ok_def by (intro conjI allI impI ballI) blast+
qed

lemma store_keeps:
  assumes ok: "boxes_ok N X S" and e: "slots S e = Some (Built b)" and eff: "local_effect e (b, S) J" and box: "box_ok N e J"
    and show_J: "\<not> X' e \<Longrightarrow> (\<not> X e \<longrightarrow> shows_state e (b, S)) \<Longrightarrow> shows_state e J" and X': "\<And>x. x \<noteq> e \<Longrightarrow> X x \<Longrightarrow> X' x"
  shows "boxes_ok N X' (store e J)"
proof (rule place_keeps [OF ok eff built_placed [OF ok e] box])
  show "\<not> X' e \<Longrightarrow> shows_state e J" using ok e show_J by (simp add: boxes_ok_def)
qed (rule X')

subsection \<open>Methods of one instance\<close>

locale box_method =
  fixes meth :: "nat \<Rightarrow> inst \<Rightarrow> inst"
  assumes effect: "box_ok N e I \<Longrightarrow> N \<le> fresh_node (snd I) \<Longrightarrow> local_effect e I (meth e I)"
    and in_order: "box_ok N e I \<Longrightarrow> N \<le> fresh_node (snd I) \<Longrightarrow> box_ok N e (meth e I)"
    and shown: "box_ok N e I \<Longrightarrow> shows_state e I \<Longrightarrow> shows_state e (meth e I)"
    and rest: "box_ok N e I \<Longrightarrow> same_but I (meth e I)"
begin

lemma method_keeps:
  assumes "boxes_ok N X S"
  shows "boxes_ok N X (on_box (meth e) e S)"
proof (cases "\<exists>b. slots S e = Some (Built b)")
  case True
  then obtain b where b: "slots S e = Some (Built b)" by blast
  have I: "box_ok N e (b, S)" "N \<le> fresh_node (snd (b, S))" using assms b by (auto simp: boxes_ok_def)
  have "boxes_ok N X (store e (meth e (b, S)))"
    using assms b effect [OF I] in_order [OF I] by (rule store_keeps) (use shown [OF I(1)] in blast)+
  then show ?thesis by (simp add: on_box_def b)
qed (use assms in \<open>auto simp: on_box_def split: option.splits slot.splits\<close>)

lemma method_view: "boxes_ok N X S \<Longrightarrow> forms_view (on_box (meth e) e S) = forms_view S"
  using rest [of N e "(_, S)"] store_view [of S e _ "meth e (_, S)"]
  by (auto simp: on_box_def boxes_ok_def split: option.splits slot.splits)

end

text \<open>Before a refresh the icon need not fit the option, and the mark need not be right.\<close>

definition box_pre :: "nat \<Rightarrow> nat \<Rightarrow> inst \<Rightarrow> bool" where
  "box_pre N e I \<longleftrightarrow> (let b = fst I; S = snd I in
     inst_ok I \<and> box_type b = in_type (inp S e) \<and> readType (inp S e) = None \<and> box_label b \<in> set (in_labels (inp S e)) \<and>
     box_form b = in_form (inp S e) \<and> (\<forall>i. icon b = Some i \<longrightarrow> N \<le> i \<and> i < fresh_node S) \<and> tracks_ok N I)"

lemma box_ok_pre: "box_ok N e I \<Longrightarrow> box_pre N e I"
  by (simp add: box_ok_def box_pre_def Let_def)

lemma same_but_fields:
  assumes "same_but I J"
  shows "box_type (fst J) = box_type (fst I)" "box_label (fst J) = box_label (fst I)" "box_form (fst J) = box_form (fst I)"
    "slots (snd J) = slots (snd I)" "elems (snd J) = elems (snd I)" "resets (snd J) = resets (snd I)" "tabs (snd J) = tabs (snd I)"
  using assms by (simp_all add: same_but_def frame_def pframe_def Let_def)

lemma next_icon_cases: "next_icon I = icon (fst I) \<or> next_icon I = None \<or> next_icon I = Some (fresh_node (snd I)) \<and> icon (fst I) = None \<and> truthy (opt ''icon'' (fst I))"
  by (auto simp: next_icon_def split: option.splits)

lemma refresh_box:
  assumes "box_pre N e I" "N \<le> fresh_node (snd I)"
  shows "local_effect e I (refresh br e I) \<and> box_ok N e (refresh br e I) \<and> shows_state e (refresh br e I)"
proof -
  let ?J = "refresh br e I"
  have ok: "inst_ok I" and pre: "box_type (fst I) = in_type (inp (snd I) e)" "readType (inp (snd I) e) = None" "box_label (fst I) \<in> set (in_labels (inp (snd I) e))"
    "box_form (fst I) = in_form (inp (snd I) e)" "\<And>i. icon (fst I) = Some i \<Longrightarrow> N \<le> i \<and> i < fresh_node (snd I)" "tracks_ok N I"
    using assms(1) by (simp_all add: box_pre_def Let_def)
  note r = refresh_effect [OF ok, where br = br and e = e] and f = same_but_fields [OF refresh_effect(1) [OF ok, where br = br and e = e]]
  have up: "updated (in_checked (inp (snd I) e)) I ?J" using r(2) .
  have lab: "has ?J (box_label (fst I)) checkedC = in_checked (inp (snd I) e)" using up watched_literals by (simp add: updated_def)
  have ic: "icon (fst ?J) = next_icon I" using r(3) .
  have d: "\<exists>d. inp (snd ?J) = (inp (snd I))(e := (inp (snd I) e)\<lparr>in_disabled := d\<rparr>)" using r(4) inp_idle [of "snd I" e] by simp
  have icons: "icon (fst ?J) = icon (fst I) \<or> icon (fst ?J) = None \<or> icon (fst ?J) = Some (fresh_node (snd I)) \<and> fresh_node (snd I) < fresh_node (snd ?J)"
    using next_icon_cases [of I] ic r(9) by auto
  have "\<forall>x. \<forall>c \<in> watched. x \<noteq> box_label (fst I) \<and> icon (fst ?J) \<noteq> Some x \<longrightarrow> has ?J x c = has I x c"
    using up unfolding updated_def by blast
  then have le: "local_effect e I ?J" using f d icons r(8,10) unfolding local_effect_def by simp
  have "icon (fst ?J) = None \<longleftrightarrow> \<not> truthy (opt ''icon'' (fst ?J))" using ic r(6) by (auto simp: next_icon_def split: option.splits)
  moreover have "N \<le> i \<and> i < fresh_node (snd ?J)" if "icon (fst ?J) = Some i" for i using icons that pre(5) assms(2) r(8) by fastforce
  moreover have "inst_ok ?J" using same_but_ok [OF r(1)] ok by simp
  moreover from calculation(2) have "tracks_ok N ?J" using grown_in_order [OF r(10) pre(6) f(2) r(8)] by blast
  ultimately have "box_ok N e ?J" using pre f r(4,5,7) lab by (simp add: box_ok_def Let_def)
  moreover have "shows_state e ?J"
    using lab up f r(4) watched_literals by (auto simp: shows_state_def updated_def Let_def)
  ultimately show ?thesis using le by blast
qed


interpretation refreshing: box_method "refresh br" for br
proof
  fix N e and I :: inst
  assume "box_ok N e I" "N \<le> fresh_node (snd I)"
  then show "local_effect e I (refresh br e I)" "box_ok N e (refresh br e I)" using refresh_box [OF box_ok_pre] by blast+
next
  fix N e and I :: inst
  assume "box_ok N e I" "shows_state e I"
  then show "shows_state e (refresh br e I)" using refresh_box [OF box_ok_pre, of 0 e I br] tracks_ok_0 [of N I] by (simp add: box_ok_def box_pre_def Let_def)
next
  fix N e and I :: inst
  assume "box_ok N e I"
  then show "same_but I (refresh br e I)" by (simp add: refresh_effect(1) box_ok_def Let_def)
qed

lemma refresh_restores:
  assumes "boxes_ok N X S"
  shows "boxes_ok N (X(e := False)) (on_box (refresh br e) e S)"
proof (cases "\<exists>b. slots S e = Some (Built b)")
  case True
  then obtain b where b: "slots S e = Some (Built b)" by blast
  have I: "box_ok N e (b, S)" "N \<le> fresh_node (snd (b, S))" using assms b by (auto simp: boxes_ok_def)
  note r = refresh_box [OF box_ok_pre [OF I(1)] I(2), of br]
  have "boxes_ok N (X(e := False)) (store e (refresh br e (b, S)))"
    using assms b conjunct1 [OF r] conjunct1 [OF conjunct2 [OF r]] by (rule store_keeps) (use r in auto)
  then show ?thesis by (simp add: on_box_def b)
next
  case False
  then show ?thesis using assms by (auto simp: on_box_def boxes_ok_def split: option.splits slot.splits)
qed

text \<open>Methods that leave the watched classes alone.\<close>

definition quiet :: "nat \<Rightarrow> inst \<Rightarrow> inst \<Rightarrow> bool" where
  "quiet e I J \<longleftrightarrow> same_but I J \<and> icon (fst J) = icon (fst I) \<and> fresh_node (snd J) = fresh_node (snd I) \<and>
     (\<forall>x. \<forall>c \<in> watched. has J x c = has I x c) \<and> (\<forall>c \<in> watched. tracks J c = tracks I c) \<and>
     (\<exists>d. inp (snd J) = (inp (snd I))(e := (inp (snd I) e)\<lparr>in_disabled := d\<rparr>))"

lemma quiet_grown: "quiet e I J \<Longrightarrow> grown I J"
  by (auto simp: quiet_def grown_def watched_literals)

lemma quiet_local: "quiet e I J \<Longrightarrow> local_effect e I J"
  using same_but_fields [of I J] quiet_grown [of e I J] by (simp add: quiet_def local_effect_def)

lemma local_after_quiet: "quiet e I K \<Longrightarrow> local_effect e K J \<Longrightarrow> local_effect e I J"
proof -
  assume q: "quiet e I K" and l: "local_effect e K J"
  have "same_but I K" using q by (simp add: quiet_def)
  then have "grown I J" using q l same_but_fields(2) [of I K] by (simp add: quiet_def grown_def local_effect_def watched_literals)
  then show ?thesis using q l same_but_fields [OF \<open>same_but I K\<close>] by (auto simp: quiet_def local_effect_def)
qed

lemma quiet_shown: "quiet e I J \<Longrightarrow> shows_state e I \<Longrightarrow> shows_state e J"
  using same_but_fields [of I J] watched_literals by (auto simp: quiet_def shows_state_def Let_def)

lemma quiet_pre: "quiet e I J \<Longrightarrow> box_ok N e I \<Longrightarrow> box_pre N e J"
proof -
  assume q: "quiet e I J" and b: "box_ok N e I"
  have sb: "same_but I J" and n: "icon (fst J) = icon (fst I)" "fresh_node (snd J) = fresh_node (snd I)" using q by (simp_all add: quiet_def)
  obtain d where i: "inp (snd J) = (inp (snd I))(e := (inp (snd I) e)\<lparr>in_disabled := d\<rparr>)" using q by (auto simp: quiet_def)
  have rt: "readType ((inp (snd I) e)\<lparr>in_disabled := d\<rparr>) = readType (inp (snd I) e)" by (simp add: readType_def Let_def)
  have "tracks_ok N J" using grown_in_order [OF quiet_grown [OF q]] b n same_but_fields(2) [OF sb] by (simp add: box_ok_def Let_def)
  then show ?thesis using b same_but_fields [OF sb] same_but_ok [OF sb] n i rt by (simp add: box_ok_def box_pre_def Let_def)
qed

lemma quiet_in_order:
  assumes "quiet e I J" "box_ok N e I" "opt ''icon'' (fst J) = opt ''icon'' (fst I)" "opt ''disabled'' (fst J) = JBool True \<Longrightarrow> in_disabled (inp (snd J) e)"
  shows "box_ok N e J"
proof -
  have sb: "same_but I J" and n: "icon (fst J) = icon (fst I)" "fresh_node (snd J) = fresh_node (snd I)" using assms(1) by (simp_all add: quiet_def)
  have "has J (box_label (fst J)) checkedC \<longrightarrow> box_label (fst J) \<in> tracks J checkedC"
    using assms(1,2) same_but_fields(2) [OF sb] watched_literals by (simp add: quiet_def box_ok_def Let_def)
  then show ?thesis using assms(2-4) quiet_pre [OF assms(1,2)] n by (simp add: box_ok_def box_pre_def Let_def)
qed

lemma set_disabled_quiet: "inst_ok I \<Longrightarrow> quiet e I (set_disabled e v I)"
  using set_disabled_effect [where I = I and e = e and v = v] by (auto simp: quiet_def watched_literals)

lemma set_disabled_box: "box_ok N e I \<Longrightarrow> box_ok N e (set_disabled e v I)"
proof -
  assume b: "box_ok N e I"
  then have ok: "inst_ok I" by (simp add: box_ok_def Let_def)
  note d = set_disabled_effect [OF ok, where e = e and v = v]
  have obj: "is_object (opts I)" using ok by (simp add: inst_ok_def)
  show ?thesis
    by (rule quiet_in_order [OF set_disabled_quiet [OF ok] b]) (use d(2,3) obj in \<open>simp_all add: opt_fst u_inject\<close>)
qed

text \<open>Setting an option other than \<open>classes\<close>.\<close>

definition set_plain :: "browser \<Rightarrow> key \<Rightarrow> jsval \<Rightarrow> nat \<Rightarrow> inst \<Rightarrow> inst" where
  "set_plain br k v e I = (if k = Key (u ''classes'') then I else box_setOption br e k v I)"

lemma setOption_quiet:
  assumes "inst_ok I" "k \<noteq> Key (u ''classes'')"
  shows "quiet e I (widget_do (w_setOption k v) I)"
  using setOption_effect [OF assms, where v = v] inp_idle [of "snd I" e] by (simp add: quiet_def)

interpretation plain_option: box_method "set_plain br k v" for br k v
proof -
  have "local_effect e I (set_plain br k v e I) \<and> box_ok N e (set_plain br k v e I) \<and>
      (shows_state e I \<longrightarrow> shows_state e (set_plain br k v e I)) \<and> same_but I (set_plain br k v e I)"
    if b: "box_ok N e I" and N: "N \<le> fresh_node (snd I)" for N e I
  proof -
    have ok: "inst_ok I" using b by (simp add: box_ok_def Let_def)
    have idle: "local_effect e I I" using inp_idle [of "snd I" e] by (simp add: local_effect_def)
    consider "k = Key (u ''classes'') \<or> k = Key (u ''label'') \<and> \<not> truthy v" | "k = Key (u ''disabled'')"
      | "k \<noteq> Key (u ''classes'')" "\<not> (k = Key (u ''label'') \<and> \<not> truthy v)" "k \<noteq> Key (u ''disabled'')" by blast
    then show ?thesis
    proof cases
      case 1
      then have "set_plain br k v e I = I" by (auto simp: set_plain_def box_setOption_def)
      then show ?thesis using b idle same_same_but [OF same_refl, of I] by simp
    next
      case 2
      then have "set_plain br k v e I = set_disabled e v I" by (simp add: set_plain_def box_setOption_def u_inject)
      then show ?thesis using set_disabled_quiet [OF ok, of e v] quiet_local quiet_shown set_disabled_box [OF b] quiet_def by metis
    next
      case 3
      let ?K = "widget_do (w_setOption k v) I"
      have q: "quiet e I ?K" using setOption_quiet [OF ok 3(1)] .
      have "box_pre N e ?K" "N \<le> fresh_node (snd ?K)" using quiet_pre [OF q b] N by simp_all
      then have "local_effect e ?K (refresh br e ?K) \<and> box_ok N e (refresh br e ?K) \<and> shows_state e (refresh br e ?K)" by (rule refresh_box)
      moreover have "set_plain br k v e I = refresh br e ?K" using 3 by (auto simp: set_plain_def box_setOption_def)
      moreover have "inst_ok ?K" using same_but_ok [of I ?K] q ok by (simp add: quiet_def)
      ultimately show ?thesis using local_after_quiet [OF q] q refresh_effect(1) [of ?K br e] same_but_trans [of I ?K] by (simp add: quiet_def)
    qed
  qed
  moreover have "box_ok 0 e I" if "box_ok N e I" for N e and I :: inst using that tracks_ok_0 [of N I] by (simp add: box_ok_def Let_def)
  ultimately show "box_method (set_plain br k v)" by unfold_locales (blast+)
qed


definition focus_method :: "bool \<Rightarrow> nat \<Rightarrow> inst \<Rightarrow> inst" where
  "focus_method gained e I =
     (if runs False e (loaded I) then widget_do (toggleClass [box_label (fst I)] [] (u ''ui-state-focus ui-visual-focus'') gained) I else I)"

lemma store_again: "slots S e = Some (Built b) \<Longrightarrow> store e (b, S) = S"
  by (simp add: store_def fun_upd_idem)

lemma handle_focus_method: "handle_focus gained e S = on_box (focus_method gained e) e S"
  by (auto simp: handle_focus_def on_box_def focus_method_def store_again split: option.splits slot.splits)

lemma quiet_toggle:
  assumes "inst_ok I" "\<And>c. c \<in> watched \<Longrightarrow> c \<notin> set (words_by is_space keys @ words_by is_space extra)"
  shows "quiet e I (widget_do (toggleClass es keys extra add) I)"
proof -
  have "tracks (widget_do (toggleClass es keys extra add) I) c = tracks I c" if "c \<in> watched" for c
    using assms(2) [OF that] unfolding tracks_toggle by simp
  moreover have "has (widget_do (toggleClass es keys extra add) I) x c = has I x c" if "c \<in> watched" for x c
    using has_toggle [OF inst_okD [OF assms(1)] that] assms(2) [OF that] by simp
  ultimately show ?thesis using inp_idle [of "snd I" e] by (simp add: quiet_def same_same_but)
qed

lemma quiet_refl: "quiet e I I"
  using inp_idle [of "snd I" e] by (simp add: quiet_def same_same_but)

interpretation focusing: box_method "focus_method gained" for gained
proof -
  have q: "quiet e I (focus_method gained e I)" if "inst_ok I" for e I
    unfolding focus_method_def using that quiet_refl [of e I] watched_literals(1)
    by (cases "runs False e (loaded I)") (simp_all add: quiet_toggle literals)
  have o: "opt k (fst (focus_method gained e I)) = opt k (fst I)" "inp (snd (focus_method gained e I)) = inp (snd I)" for k e I
    by (simp_all add: focus_method_def opt_fst)
  have ok: "box_ok N e I \<Longrightarrow> inst_ok I" for N e I by (simp add: box_ok_def Let_def)
  have dis: "box_ok N e I \<Longrightarrow> opt ''disabled'' (fst I) = JBool True \<Longrightarrow> in_disabled (inp (snd I) e)" for N e I by (simp add: box_ok_def Let_def)
  show "box_method (focus_method gained)"
  proof
    fix N e and I :: inst
    assume b: "box_ok N e I"
    note qq = q [OF ok [OF b], of e]
    show "local_effect e I (focus_method gained e I)" using qq by (rule quiet_local)
    show "box_ok N e (focus_method gained e I)" by (rule quiet_in_order [OF qq b]) (use o dis [OF b] in simp_all)
    show "shows_state e I \<Longrightarrow> shows_state e (focus_method gained e I)" using qq by (rule quiet_shown)
    show "same_but I (focus_method gained e I)" using qq by (simp add: quiet_def)
  qed
qed

subsection \<open>The handler of \<open>change\<close>\<close>

definition mark_state :: "nat \<Rightarrow> inst \<Rightarrow> inst" where
  "mark_state e I = toggle_icon (in_checked (inp (snd I) e)) (mark_label (in_checked (inp (snd I) e)) I)"

lemma mark_state_same: "same I (mark_state e I)"
  unfolding mark_state_def by (rule same_trans [OF mark_label_same toggle_icon_same])

lemma mark_state_has:
  assumes "box_ok N e I" "c \<in> watched"
  shows "has (mark_state e I) x c =
    (if icon (fst I) = Some x \<and> box_type (fst I) = u ''checkbox'' \<and> c = checkC then in_checked (inp (snd I) e)
     else if icon (fst I) = Some x \<and> box_type (fst I) = u ''checkbox'' \<and> c = blankC then \<not> in_checked (inp (snd I) e)
     else if x = box_label (fst I) \<and> c = checkedC then in_checked (inp (snd I) e) else has I x c)"
proof -
  let ?chk = "in_checked (inp (snd I) e)"
  have ok: "inst_ok I" and ic: "icon (fst I) = Some x \<Longrightarrow> truthy (opt ''icon'' (fst I))" using assms(1) by (auto simp: box_ok_def Let_def)
  note f = same_fields [OF mark_label_same [of I ?chk]]
  have okm: "inst_ok (mark_label ?chk I)" using same_ok(1) [OF mark_label_same] ok by simp
  show ?thesis unfolding mark_state_def toggle_icon_has [OF okm assms(2)] mark_label_has [OF ok assms(2)] f mark_label_nodes
    using ic watched_literals(2-7) by auto
qed

lemma mark_state_box:
  assumes "box_ok N e I"
  shows "local_effect e I (mark_state e I)" "box_ok N e (mark_state e I)" "shows_state e (mark_state e I)"
proof -
  let ?chk = "in_checked (inp (snd I) e)"
  note f = same_fields [OF mark_state_same [of I e]] and h = mark_state_has [OF assms]
  have n: "icon (fst (mark_state e I)) = icon (fst I)" "fresh_node (snd (mark_state e I)) = fresh_node (snd I)" by (simp_all add: mark_state_def)
  have g: "grown I (mark_state e I)"
  proof -
    have "tracks (mark_label ?chk I) c = tracks I c" if "c \<in> {checkC, blankC}" for c
      by (rule mark_label_tracks_other) (use that watched_literals in auto)
    then have "tracks (mark_state e I) c \<subseteq> tracks I c \<union> set (numbered (icon (fst I)))" if "c \<in> {checkC, blankC}" for c
      using that toggle_icon_tracks_le [of ?chk "mark_label ?chk I" c] by (simp add: mark_state_def)
    moreover have "tracks (mark_state e I) checkedC \<subseteq> insert (box_label (fst I)) (tracks I checkedC)"
      by (auto simp: mark_state_def toggle_icon_tracks mark_label_tracks)
    ultimately show ?thesis by (simp add: grown_def n)
  qed
  show "local_effect e I (mark_state e I)" unfolding local_effect_def f n using h g inp_idle [of "snd I" e] by auto
  have lab: "has (mark_state e I) (box_label (fst I)) checkedC = ?chk" using h watched_literals by auto
  have tr: "?chk \<Longrightarrow> box_label (fst I) \<in> tracks (mark_state e I) checkedC" by (simp add: mark_state_def toggle_icon_tracks mark_label_tracks)
  have "inst_ok (mark_state e I)" using same_ok(1) [OF mark_state_same] assms by (simp add: box_ok_def Let_def)
  moreover have "tracks_ok N (mark_state e I)" using grown_in_order [OF g] assms by (simp add: box_ok_def f n Let_def)
  ultimately show "box_ok N e (mark_state e I)" using assms lab tr by (simp add: box_ok_def Let_def f n)
  show "shows_state e (mark_state e I)" using lab h watched_literals by (simp add: shows_state_def Let_def f n)
qed

lemma unmark_box:
  assumes "box_ok N e I" "box_type (fst I) = u ''radio''"
  shows "local_effect e I (mark_label False I)" "box_ok N e (mark_label False I)" "\<not> in_checked (inp (snd I) e) \<Longrightarrow> shows_state e (mark_label False I)"
proof -
  have ok: "inst_ok I" using assms(1) by (simp add: box_ok_def Let_def)
  note f = same_fields [OF mark_label_same [of I False]] and h = mark_label_has [OF ok, where chk = False]
  have g: "grown I (mark_label False I)" by (rule grown_mark) simp_all
  show "local_effect e I (mark_label False I)" unfolding local_effect_def f mark_label_nodes using h g inp_idle [of "snd I" e] by auto
  have lab: "\<not> has (mark_label False I) (box_label (fst I)) checkedC" using h watched_literals by simp
  have "inst_ok (mark_label False I)" using same_ok(1) [OF mark_label_same] ok by simp
  moreover have "tracks_ok N (mark_label False I)" using grown_in_order [OF g] assms(1) by (simp add: box_ok_def f Let_def)
  ultimately show "box_ok N e (mark_label False I)" using assms(1) lab by (simp add: box_ok_def Let_def f)
  have "u ''radio'' \<noteq> u ''checkbox''" by (simp add: u_inject)
  with lab assms(2) show "\<not> in_checked (inp (snd I) e) \<Longrightarrow> shows_state e (mark_label False I)" by (simp add: shows_state_def Let_def f)
qed

subsection \<open>Clicks\<close>

lemma boxes_ok_weaken:
  assumes "boxes_ok N X S" "\<And>x. is_built S x \<Longrightarrow> X x \<Longrightarrow> X' x"
  shows "boxes_ok N X' S"
proof -
  have "is_built S e" if "slots S e = Some (Built b)" for e b using that by (simp add: is_built_def)
  then show ?thesis using assms unfolding boxes_ok_def by blast
qed

lemma set_checked_ok:
  assumes "boxes_ok N X S"
  shows "boxes_ok N (\<lambda>x. X x \<or> ch x \<noteq> in_checked (inp S x)) (set_checked ch S)"
proof -
  let ?T = "set_checked ch S"
  have T: "slots ?T = slots S" "elems ?T = elems S" "cls ?T = cls S" "fresh_node ?T = fresh_node S" "inp ?T x = (inp S x)\<lparr>in_checked := ch x\<rparr>" for x
    by (simp_all add: set_checked_def)
  have "static N S" using assms by (simp add: boxes_ok_def)
  then have st: "static N ?T" by (rule static_cong) (simp_all add: T same_input_checked)
  have "readType (inp ?T x) = readType (inp S x)" for x by (simp add: T readType_def Let_def)
  moreover have "marked ?T = marked S" "is_built ?T = is_built S" by (simp_all add: marked_def [abs_def] is_built_def [abs_def] T)
  moreover have "box_ok N e (b, S) \<Longrightarrow> box_ok N e (b, ?T)" for e b
    using calculation inst_ok_page [of b S ?T] by (simp add: box_ok_def tracks_ok_def has_marked T Let_def)
  moreover have "shows_state e (b, S) \<Longrightarrow> ch e = in_checked (inp S e) \<Longrightarrow> shows_state e (b, ?T)" for e b
    using calculation by (simp add: shows_state_def has_marked T Let_def)
  moreover have "tracks (b, ?T) = tracks (b, S)" for b by (rule inst_ok_page(2))
  ultimately show ?thesis using assms st unfolding boxes_ok_def T by (simp add: T)
qed

lemma radio_input: "lower (in_node i) = u ''input'' \<Longrightarrow> in_type i = u ''radio'' \<Longrightarrow> readType i = None"
proof -
  have "cut (u ''radio'') (u ''radio'') \<noteq> None" by (simp add: u_def)
  then show "lower (in_node i) = u ''input'' \<Longrightarrow> in_type i = u ''radio'' \<Longrightarrow> readType i = None" by (simp add: readType_def Let_def)
qed

text \<open>The loop over a group of radio buttons that the browser has unchecked.\<close>

lemma unmark_each_ok:
  assumes "boxes_ok N X S" "\<forall>x \<in> set xs. in_type (inp S x) = u ''radio'' \<and> lower (in_node (inp S x)) = u ''input'' \<and> \<not> in_checked (inp S x)"
  shows "\<exists>S'. unmark_each xs S = (None, S') \<and> boxes_ok N (\<lambda>x. X x \<and> x \<notin> set xs) S' \<and> forms_view S' = forms_view S"
  using assms
proof (induction xs arbitrary: S X)
  case (Cons x xs)
  have radio: "in_type (inp S x) = u ''radio''" "lower (in_node (inp S x)) = u ''input''" "\<not> in_checked (inp S x)" using Cons.prems(2) by simp_all
  consider b where "slots S x = Some (Built b)" | "slots S x = None \<or> slots S x = Some (Failed NoLabel)" | n t where "slots S x = Some (Failed (WrongType n t))"
    by (metis box_error.exhaust option.exhaust slot.exhaust)
  then show ?case
  proof cases
    case (1 b)
    let ?J = "mark_label False (b, S)"
    have b: "box_ok N x (b, S)" using Cons.prems(1) 1 by (simp add: boxes_ok_def)
    then have "box_type (fst (b, S)) = u ''radio''" using radio by (simp add: box_ok_def)
    note un = unmark_box [OF b this]
    have T: "boxes_ok N (X(x := False)) (store x ?J)"
      using Cons.prems(1) 1 un(1,2) by (rule store_keeps) (use un(3) radio in auto)
    have f: "inp (snd ?J) = inp S" using same_fields [OF mark_label_same [of "(b, S)" False]] by simp
    have bs: "forms_view (store x ?J) = forms_view S" using 1 same_same_but [OF mark_label_same] by (rule store_view)
    obtain S' where "unmark_each xs (store x ?J) = (None, S')" "boxes_ok N (\<lambda>y. (X(x := False)) y \<and> y \<notin> set xs) S'" "forms_view S' = forms_view S"
      using Cons.IH [OF T] Cons.prems(2) f bs by auto
    moreover have "boxes_ok N (\<lambda>y. X y \<and> y \<notin> set (x # xs)) S'" using calculation(2) by (rule boxes_ok_weaken) (auto split: if_splits)
    ultimately show ?thesis using 1 by simp
  next
    case 2
    then have skip: "unmark_each (x # xs) S = unmark_each xs S" by auto
    obtain S' where S': "unmark_each xs S = (None, S')" "boxes_ok N (\<lambda>y. X y \<and> y \<notin> set xs) S'" "forms_view S' = forms_view S"
      using Cons.IH [OF Cons.prems(1)] Cons.prems(2) by auto
    have "\<not> is_built S' x" using view_built [OF S'(3)] 2 by (auto simp: is_built_def)
    then have "boxes_ok N (\<lambda>y. X y \<and> y \<notin> set (x # xs)) S'" using S'(2) by (auto elim!: boxes_ok_weaken)
    with S' skip show ?thesis by simp
  next
    case (3 n t)
    then have "readType (inp S x) \<noteq> None" using Cons.prems(1) unfolding boxes_ok_def by blast
    with radio_input [OF radio(2,1)] show ?thesis by simp
  qed
qed simp

text \<open>The group that the code finds is the group of the browser.\<close>

lemma radio_group:
  assumes "boxes_ok N X S" "slots S e = Some (Built b)" "box_type b = u ''radio''" "same I (b, S) \<or> same (b, S) I"
  shows "\<forall>x \<in> set (getRadioGroup e I). x \<noteq> e \<and> lower (in_node (inp S x)) = u ''input'' \<and> same_group (inp S e) (inp S x)"
    "\<And>x. is_built S x \<Longrightarrow> x \<noteq> e \<Longrightarrow> same_group (inp S e) (inp S x) \<Longrightarrow> x \<in> set (getRadioGroup e I)"
proof -
  have f: "box_form (fst I) = box_form b" "inp (snd I) = inp S" "elems (snd I) = elems S"
    using assms(4) same_fields [of I "(b, S)"] same_fields [of "(b, S)" I] by auto
  have b: "box_ok N e (b, S)" and st: "static N S" using assms(1,2) by (auto simp: boxes_ok_def)
  have e: "in_type (inp S e) = u ''radio''" "box_form b = in_form (inp S e)" using b assms(3) by (auto simp: box_ok_def)
  have name: "unescape (escapeSelector (in_name (inp S e))) = in_name (inp S e)" using st by (intro unescape_escape) (simp add: static_def)
  have G: "getRadioGroup e I = (if in_name (inp S e) = [] then [] else filter (\<lambda>x. lower (in_node (inp S x)) = u ''input'' \<and>
      in_name (inp S x) = in_name (inp S e) \<and> in_form (inp S x) = in_form (inp S e) \<and> (in_form (inp S e) = None \<or> in_type (inp S x) \<noteq> u ''image'') \<and> x \<noteq> e) (elems S))"
    by (simp add: getRadioGroup_def f name e(2) Let_def)
  show "\<forall>x \<in> set (getRadioGroup e I). x \<noteq> e \<and> lower (in_node (inp S x)) = u ''input'' \<and> same_group (inp S e) (inp S x)"
  proof
    fix x assume "x \<in> set (getRadioGroup e I)"
    then have x: "in_name (inp S e) \<noteq> []" "lower (in_node (inp S x)) = u ''input''" "in_name (inp S x) = in_name (inp S e)"
      "in_form (inp S x) = in_form (inp S e)" "x \<noteq> e" by (auto simp: G split: if_splits)
    then have "in_type (inp S x) = u ''radio''" using st e(1) unfolding static_def by blast
    with x e(1) show "x \<noteq> e \<and> lower (in_node (inp S x)) = u ''input'' \<and> same_group (inp S e) (inp S x)" by (simp add: same_group_def)
  qed
  show "x \<in> set (getRadioGroup e I)" if x: "is_built S x" "x \<noteq> e" "same_group (inp S e) (inp S x)" for x
  proof -
    obtain b' where "slots S x = Some (Built b')" using x(1) by (auto simp: is_built_def split: option.splits slot.splits)
    then have "readType (inp S x) = None" using assms(1) by (auto simp: boxes_ok_def box_ok_def Let_def)
    then have "lower (in_node (inp S x)) = u ''input''" by (auto simp: readType_def Let_def split: if_splits)
    moreover from this have "x \<in> set (elems S)" using st unfolding static_def by blast
    moreover have "u ''radio'' \<noteq> u ''image''" by simp
    ultimately show ?thesis using x by (auto simp: G same_group_def)
  qed
qed


lemma runs_enabled: "box_ok N e (b, S) \<Longrightarrow> \<not> in_disabled (inp S e) \<Longrightarrow> u ''ui-state-disabled'' \<notin> set (cls S e) \<Longrightarrow> runs False e (loaded (b, S))"
  by (auto simp: box_ok_def runs_def opt_fst opt_opts [of _ b S] Let_def)

lemma toggleClasses_eq:
  "toggleClasses e I = (if box_type (fst I) = u ''radio'' then unmark_each (getRadioGroup e (mark_state e I)) (store e (mark_state e I))
     else (None, store e (mark_state e I)))"
  using same_fields(1) [OF mark_state_same [of I e]] by (simp add: toggleClasses_def mark_state_def Let_def)

lemma browser_click_page:
  "slots (browser_click e S) = slots S" "cls (browser_click e S) = cls S" "resets (browser_click e S) = resets S" "tabs (browser_click e S) = tabs S"
  "forms_view (browser_click e S) = forms_view S" "in_disabled (inp (browser_click e S) x) = in_disabled (inp S x)"
  "same_input (inp S x) (inp (browser_click e S) x)"
  "x \<noteq> e \<Longrightarrow> in_checked (inp (browser_click e S) x) = (in_checked (inp S x) \<and> \<not> same_group (inp S e) (inp S x))"
  by (simp_all add: browser_click_def set_checked_def forms_view_def same_input_def)

lemma same_group_cong: "same_input i i' \<Longrightarrow> same_input j j' \<Longrightarrow> same_group i' j' = same_group i j"
  by (simp add: same_group_def same_input_def)

lemma change_ok:
  assumes T: "boxes_ok N X T" and b: "slots T e = Some (Built b)" and r: "runs False e (loaded (b, T))"
    and un: "\<And>x. x \<noteq> e \<Longrightarrow> same_group (inp T e) (inp T x) \<Longrightarrow> \<not> in_checked (inp T x)"
  shows "\<exists>S'. handle_change e T = (None, S') \<and> boxes_ok N (\<lambda>x. X x \<and> x \<noteq> e \<and> \<not> same_group (inp T e) (inp T x)) S' \<and>
    forms_view S' = forms_view T"
proof -
  let ?J = "mark_state e (b, T)"
  let ?U = "store e ?J"
  have box: "box_ok N e (b, T)" using T b by (simp add: boxes_ok_def)
  note m = mark_state_box [OF box]
  have U: "boxes_ok N (X(e := False)) ?U" using T b m(1,2) by (rule store_keeps) (use m(3) in auto)
  have f: "inp (snd ?J) = inp T" using same_fields [OF mark_state_same [of "(b, T)" e]] by simp
  have bU: "forms_view ?U = forms_view T" using b same_same_but [OF mark_state_same] by (rule store_view)
  show ?thesis
  proof (cases "box_type b = u ''radio''")
    case True
    note g = radio_group [OF T b True, of ?J]
    have gs: "\<forall>x \<in> set (getRadioGroup e ?J). in_type (inp ?U x) = u ''radio'' \<and> lower (in_node (inp ?U x)) = u ''input'' \<and> \<not> in_checked (inp ?U x)"
      using g(1) mark_state_same [of "(b, T)" e] un f by (auto simp: same_group_def)
    then obtain S' where S': "unmark_each (getRadioGroup e ?J) ?U = (None, S')" "boxes_ok N (\<lambda>x. (X(e := False)) x \<and> x \<notin> set (getRadioGroup e ?J)) S'"
      "forms_view S' = forms_view ?U" using unmark_each_ok [OF U gs] by blast
    moreover have "boxes_ok N (\<lambda>x. X x \<and> x \<noteq> e \<and> \<not> same_group (inp T e) (inp T x)) S'"
      using S'(2) by (rule boxes_ok_weaken) (use g(2) mark_state_same [of "(b, T)" e] view_built [OF trans [OF S'(3) bU]] in \<open>auto split: if_splits\<close>)
    ultimately show ?thesis using True b r bU by (simp add: handle_change_def toggleClasses_eq)
  next
    case False
    then have "\<not> same_group (inp T e) i" for i using box by (simp add: box_ok_def same_group_def)
    then have "boxes_ok N (\<lambda>x. X x \<and> x \<noteq> e \<and> \<not> same_group (inp T e) (inp T x)) ?U" using U by (auto elim!: boxes_ok_weaken split: if_splits)
    then show ?thesis using False b r bU by (simp add: handle_change_def toggleClasses_eq)
  qed
qed

lemma click_ok:
  assumes ok: "boxes_ok N X S" and en: "\<not> in_disabled (inp S e)" "u ''ui-state-disabled'' \<notin> set (cls S e)"
    and grp: "is_built S e \<or> (\<forall>x. is_built S x \<longrightarrow> \<not> same_group (inp S e) (inp S x))"
  shows "\<exists>S'. handle_change e (browser_click e S) = (None, S') \<and> boxes_ok N X S' \<and> forms_view S' = forms_view S"
proof -
  let ?T = "browser_click e S"
  note p = browser_click_page [where e = e and S = S]
  define X1 where "X1 = (\<lambda>x. X x \<or> (x = e \<or> same_group (inp S e) (inp S x)))"
  have "boxes_ok N (\<lambda>x. X x \<or> in_checked (inp ?T x) \<noteq> in_checked (inp S x)) ?T"
    using set_checked_ok [OF ok] unfolding browser_click_def by (simp add: set_checked_def)
  then have T: "boxes_ok N X1 ?T" by (rule boxes_ok_weaken) (use p(8) in \<open>auto simp: X1_def\<close>)
  have sg: "same_group (inp ?T e) (inp ?T x) = same_group (inp S e) (inp S x)" for x by (rule same_group_cong [OF p(7) p(7)])
  show ?thesis
  proof (cases "is_built S e")
    case True
    then obtain b where b: "slots ?T e = Some (Built b)" using p(1) by (auto simp: is_built_def split: option.splits slot.splits)
    have "box_ok N e (b, ?T)" using T b by (simp add: boxes_ok_def)
    then have r: "runs False e (loaded (b, ?T))" using en p(2,6) by (simp add: runs_enabled)
    obtain S' where "handle_change e ?T = (None, S')" and X: "boxes_ok N (\<lambda>x. X1 x \<and> x \<noteq> e \<and> \<not> same_group (inp ?T e) (inp ?T x)) S'"
      and "forms_view S' = forms_view ?T"
      using change_ok [OF T b r] p(8) sg by blast
    moreover have "boxes_ok N X S'" using X by (rule boxes_ok_weaken) (auto simp: X1_def sg)
    ultimately show ?thesis using p by simp
  next
    case False
    then have h: "handle_change e ?T = (None, ?T)" using p(1) by (auto simp: handle_change_def is_built_def split: option.splits slot.splits)
    have "boxes_ok N X ?T" using T by (rule boxes_ok_weaken) (use grp False view_built [OF p(5)] in \<open>auto simp: X1_def\<close>)
    with h p show ?thesis by simp
  qed
qed


end
