(* ===== verification/BoxRun.thy ===== *)
theory BoxRun
  imports BoxPage
begin

text \<open>
  New \<open>checkboxradio\<close> widgets on a page: the handler for resets that the instances of a form share, the other handlers that an
  instance registers, and that creation keeps the invariant of the page, whether it succeeds or fails.
\<close>

subsection \<open>The handler of a form\<close>

definition reset_space :: ustring where
  "reset_space = u ''ui-form-reset''"

definition resetters :: "nat \<Rightarrow> box_fn tables \<Rightarrow> box_fn handleObj list" where
  "resetters f T = filter (\<lambda>h. reset_space \<in> set (namespace h)) (handlers (handlers_for f (u ''reset'') T))"

definition is_resetter :: "box_fn handleObj \<Rightarrow> bool" where
  "is_resetter h \<longleftrightarrow> hfn h = Fn FormResetFn \<and> origType h = u ''reset'' \<and> namespace h = [reset_space]"

lemma on_handlers:
  assumes "tokens types = [tok]" "token_type tok \<noteq> []"
  shows "\<exists>h. hfn h = Fn f \<and> origType h = token_type tok \<and> namespace h = token_spaces tok \<and>
    (\<forall>e' t. handlers (handlers_for e' t (on fs False [e] types (Func f) Missing Missing T)) =
      (if e' = e \<and> t = mapped_type fs False (token_type tok) then handlers (handlers_for e t T) @ [h] else handlers (handlers_for e' t T)))"
proof -
  let ?T = "ensure_guid (Fn f) T"
  let ?h = "make_handler fs tok (Fn f) JUndef [] ?T"
  let ?t = "mapped_type fs False (token_type tok)"
  have e: "events ?T = events T" by (simp add: ensure_guid_def)
  have "on fs False [e] types (Func f) Missing Missing T = add_token fs e (Fn f) JUndef [] tok ?T"
    using assms(1) by (simp add: on_def event_add_def)
  moreover have "events (add_token fs e (Fn f) JUndef [] tok ?T) = (events T)(e := AList.update ?t (insert_handler ?h (handlers_for e ?t T)) (events T e))"
    using assms(2) e by (auto simp: add_token_def Let_def make_handler_def handlers_for_def)
  ultimately have ev: "events (on fs False [e] types (Func f) Missing Missing T) = (events T)(e := AList.update ?t (insert_handler ?h (handlers_for e ?t T)) (events T e))"
    by simp
  have "handlers (handlers_for e' t (on fs False [e] types (Func f) Missing Missing T)) =
      (if e' = e \<and> t = ?t then handlers (handlers_for e t T) @ [?h] else handlers (handlers_for e' t T))" for e' t
    unfolding handlers_for_def ev by (auto simp: update_conv handlers_for_def insert_handler_def make_handler_def)
  moreover have "hfn ?h = Fn f" "origType ?h = token_type tok" "namespace ?h = token_spaces tok" by (simp_all add: make_handler_def)
  ultimately show ?thesis by blast
qed

lemma types_ok_on: "types_ok fs T \<Longrightarrow> types_ok fs (on fs one es types sel data f T)"
  using types_ok_call [of fs T "On one es types sel data f"] by simp

lemma types_ok_off: "types_ok fs T \<Longrightarrow> types_ok fs (off fs es types sel f T)"
  using types_ok_call [of fs T "Off es types sel f"] by simp

lemma reset_token:
  "tokens reset_event = [reset_event]" "token_type reset_event = u ''reset''" "token_rest reset_event = reset_space" "token_spaces reset_event = [reset_space]"
  "mapped_type fs False (u ''reset'') = u ''reset''"
proof -
  have ev: "reset_event = u ''reset'' @ 46 # reset_space" by (simp add: reset_event_def reset_space_def u_def)
  have nd: "46 \<notin> set (u ''reset'')" "46 \<notin> set reset_space" by (auto simp: reset_space_def u_def)
  show t: "token_type reset_event = u ''reset''" "token_rest reset_event = reset_space" unfolding ev by (rule token_parts [OF nd(1)])+
  show "token_spaces reset_event = [reset_space]" by (simp add: token_spaces_def t(2) split_dots_none [OF nd(2)])
  have "plain reset_event" "reset_event \<noteq> []" by (simp_all add: reset_event_def u_def is_white_def)
  then show "tokens reset_event = [reset_event]" by (simp add: tokens_def words_word)
  show "mapped_type fs False (u ''reset'') = u ''reset''" by (simp add: mapped_type_def special_of_def no_special_def)
qed

lemma on_resetters:
  fixes T :: "box_fn tables" and fs :: bool
  defines "T' \<equiv> \<lambda>f. on fs False [f] reset_event (Func FormResetFn) Missing Missing T"
  shows "resetters f T = [] \<Longrightarrow> \<exists>h. resetters f (T' f) = [h] \<and> is_resetter h" "f' \<noteq> f \<Longrightarrow> resetters f' (T' f) = resetters f' T"
proof -
  have ne: "token_type reset_event \<noteq> []" by (simp add: reset_token u_def)
  obtain h where h: "hfn h = Fn FormResetFn" "origType h = u ''reset''" "namespace h = [reset_space]"
    "\<And>e t. handlers (handlers_for e t (T' f)) = (if e = f \<and> t = u ''reset'' then handlers (handlers_for f t T) @ [h] else handlers (handlers_for e t T))"
    using on_handlers [OF reset_token(1) ne, of FormResetFn fs f T] reset_token(2,4,5) by (auto simp: T'_def)
  show "resetters f T = [] \<Longrightarrow> \<exists>h. resetters f (T' f) = [h] \<and> is_resetter h" using h by (auto simp: resetters_def is_resetter_def)
  show "f' \<noteq> f \<Longrightarrow> resetters f' (T' f) = resetters f' T" using h(4) by (simp add: resetters_def)
qed

lemma off_resetters:
  fixes T :: "box_fn tables" and fs :: bool
  defines "T' \<equiv> \<lambda>f. off fs [f] reset_event Missing Missing T"
  shows "resetters f T = [h] \<Longrightarrow> is_resetter h \<Longrightarrow> resetters f (T' f) = []" "f' \<noteq> f \<Longrightarrow> resetters f' (T' f) = resetters f' T"
proof -
  let ?t = "u ''reset''"
  define l where "l = handlers_for f ?t T"
  define l' where "l' = drop_handlers (removes False reset_event None []) l"
  have "T' f = remove_typed fs f None [] False reset_event T"
    using reset_token(1,2) by (simp add: T'_def off_def event_remove_def remove_token_def u_def)
  then have R: "T' f = (if handlers l = [] then T
      else if handlers l' = [] then (detach fs f ?t ?t T)\<lparr>events := (events T)(f := AList.delete ?t (events T f))\<rparr>
      else T\<lparr>events := (events T)(f := AList.update ?t l' (events T f))\<rparr>)"
    by (simp add: remove_typed_def reset_token Let_def l_def [symmetric] l'_def [symmetric])
  have rem: "removes False reset_event None [] h = (origType h = ?t \<and> reset_space \<in> set (namespace h))" for h :: "box_fn handleObj"
    by (auto simp: removes_def reset_token reset_space_def subseq_singleton_left u_def)
  have "handlers (handlers_for f ?t (T' f)) = handlers l'"
    unfolding R by (auto simp: handlers_for_def delete_conv' update_conv l_def l'_def drop_handlers.simps)
  moreover have "handlers l' = filter (\<lambda>h. \<not> (origType h = ?t \<and> reset_space \<in> set (namespace h))) (handlers l)" by (simp add: l'_def drop_handlers.simps rem)
  ultimately have "resetters f (T' f) = filter (\<lambda>h. origType h \<noteq> ?t) (resetters f T)"
    by (simp add: resetters_def l_def) (rule filter_cong, auto)
  then show "resetters f T = [h] \<Longrightarrow> is_resetter h \<Longrightarrow> resetters f (T' f) = []" by (simp add: is_resetter_def)
  have "handlers_for f' ?t (T' f) = handlers_for f' ?t T" if "f' \<noteq> f" using that unfolding R by (auto simp: handlers_for_def)
  then show "f' \<noteq> f \<Longrightarrow> resetters f' (T' f) = resetters f' T" by (simp add: resetters_def)
qed

text \<open>The lists of the forms: each has the instances of its form, once each, and the form has the shared handler, once, as
  long as the list is not empty. \<open>B\<close>, \<open>R\<close> and \<open>T\<close> are the three parts of \<open>forms_view\<close>.\<close>

definition own_space :: "ustring \<Rightarrow> bool" where
  "own_space ns \<longleftrightarrow> (\<exists>s. ns = 46 # s \<and> word_space s \<and> s \<noteq> reset_space)"

definition form_ok :: "(nat \<Rightarrow> (nat option \<times> ustring) option) \<Rightarrow> box_fn tables \<Rightarrow> nat \<Rightarrow> nat list option \<Rightarrow> bool" where
  "form_ok B T f lo \<longleftrightarrow> (case lo of
     None \<Rightarrow> resetters f T = [] \<and> (\<forall>e ns. B e \<noteq> Some (Some f, ns))
   | Some l \<Rightarrow> l \<noteq> [] \<and> distinct l \<and> (\<exists>h. resetters f T = [h] \<and> is_resetter h) \<and> (\<forall>e. e \<in> set l \<longleftrightarrow> (\<exists>ns. B e = Some (Some f, ns))))"

fun view_ok :: "bool \<Rightarrow> (nat \<Rightarrow> (nat option \<times> ustring) option) \<times> (nat \<Rightarrow> nat list option) \<times> box_fn tables \<Rightarrow> bool" where
  "view_ok fs (B, R, T) \<longleftrightarrow> types_ok fs T \<and> (\<forall>e fo ns. B e = Some (fo, ns) \<longrightarrow> own_space ns) \<and> (\<forall>f. form_ok B T f (R f))"

lemma form_ok_cong: "(\<And>x ns. (B' x = Some (Some f, ns)) = (B x = Some (Some f, ns))) \<Longrightarrow> resetters f T' = resetters f T \<Longrightarrow> form_ok B' T' f lo = form_ok B T f lo"
  by (cases lo) (simp_all add: form_ok_def)

lemma view_tables: "view_ok fs (B, R, T) \<Longrightarrow> types_ok fs T' \<Longrightarrow> (\<And>f. resetters f T' = resetters f T) \<Longrightarrow> view_ok fs (B, R, T')"
  using form_ok_cong [of B _ B T' T] by simp

lemma view_add:
  assumes "view_ok fs (B, R, T)" "B e = None" "own_space ns"
  shows "view_ok fs (B(e \<mapsto> (None, ns)), R, T)"
    "R f = Some l \<Longrightarrow> view_ok fs (B(e \<mapsto> (Some f, ns)), R(f \<mapsto> l @ [e]), T)"
    "R f = None \<Longrightarrow> view_ok fs (B(e \<mapsto> (Some f, ns)), R(f \<mapsto> [e]), on fs False [f] reset_event (Func FormResetFn) Missing Missing T)"
proof -
  have fo: "form_ok B T g (R g)" for g using assms(1) by simp
  show "view_ok fs (B(e \<mapsto> (None, ns)), R, T)" using assms form_ok_cong [of "B(e \<mapsto> (None, ns))" _ B T T] by (auto split: if_splits)
  have other: "form_ok (B(e \<mapsto> (Some f, ns))) T' g lo = form_ok B T g lo" if "g \<noteq> f" "resetters g T' = resetters g T" for g T' lo
    using that assms(2) by (intro form_ok_cong) auto
  show "view_ok fs (B(e \<mapsto> (Some f, ns)), R(f \<mapsto> l @ [e]), T)" if "R f = Some l"
  proof -
    have "form_ok (B(e \<mapsto> (Some f, ns))) T f (Some (l @ [e]))" using fo [of f] that assms(2) by (auto simp: form_ok_def)
    with assms fo other [of _ T] show ?thesis by auto
  qed
  show "view_ok fs (B(e \<mapsto> (Some f, ns)), R(f \<mapsto> [e]), on fs False [f] reset_event (Func FormResetFn) Missing Missing T)" if "R f = None"
  proof -
    let ?T = "on fs False [f] reset_event (Func FormResetFn) Missing Missing T"
    have "form_ok (B(e \<mapsto> (Some f, ns))) ?T f (Some [e])" using fo [of f] that on_resetters(1) [of f T fs] by (auto simp: form_ok_def)
    with assms fo other [of _ ?T] on_resetters(2) [of _ f fs T] types_ok_on show ?thesis by auto
  qed
qed

lemma view_remove:
  assumes "view_ok fs (B, R, T)" "B e = Some (fo, ns)"
  shows "fo = None \<Longrightarrow> view_ok fs (B(e := None), R, T)"
    "fo = Some f \<Longrightarrow> R f = Some l \<Longrightarrow> remove1 e l \<noteq> [] \<Longrightarrow> view_ok fs (B(e := None), R(f \<mapsto> remove1 e l), T)"
    "fo = Some f \<Longrightarrow> R f = Some l \<Longrightarrow> remove1 e l = [] \<Longrightarrow> view_ok fs (B(e := None), R(f := None), off fs [f] reset_event Missing Missing T)"
    "fo = Some f \<Longrightarrow> \<exists>l. R f = Some l \<and> e \<in> set l"
proof -
  have fo: "form_ok B T g (R g)" for g using assms(1) by simp
  show "view_ok fs (B(e := None), R, T)" if "fo = None" using that assms form_ok_cong [of "B(e := None)" _ B T T] by (auto split: if_splits)
  have other: "form_ok (B(e := None)) T' g lo = form_ok B T g lo" if "fo = Some f" "g \<noteq> f" "resetters g T' = resetters g T" for g T' lo
    using that assms(2) by (intro form_ok_cong) auto
  show "view_ok fs (B(e := None), R(f \<mapsto> remove1 e l), T)" if h: "fo = Some f" "R f = Some l" "remove1 e l \<noteq> []"
  proof -
    have "form_ok (B(e := None)) T f (Some (remove1 e l))" using fo [of f] h by (auto simp: form_ok_def)
    with assms fo other [OF h(1), of _ T] show ?thesis by auto
  qed
  show "view_ok fs (B(e := None), R(f := None), off fs [f] reset_event Missing Missing T)" if h: "fo = Some f" "R f = Some l" "remove1 e l = []"
  proof -
    let ?T = "off fs [f] reset_event Missing Missing T"
    have l: "set l \<subseteq> {e}" using h(3) by (cases l) (auto split: if_splits)
    have B: "x \<in> set l \<longleftrightarrow> (\<exists>ns. B x = Some (Some f, ns))" for x using fo [of f] h(2) by (simp add: form_ok_def)
    have "form_ok (B(e := None)) ?T f None" using fo [of f] h(2) l B off_resetters(1) [of f T] by (auto simp: form_ok_def)
    with assms fo other [OF h(1), of _ ?T] off_resetters(2) [of _ f fs T] types_ok_off show ?thesis by auto
  qed
  show "\<exists>l. R f = Some l \<and> e \<in> set l" if "fo = Some f" using fo [of f] assms(2) that by (auto simp: form_ok_def split: option.splits)
qed


subsection \<open>Registering handlers\<close>

definition plain_event :: "bool \<Rightarrow> ustring \<Rightarrow> bool" where
  "plain_event fs k \<longleftrightarrow> event_key k = (k, []) \<and> 46 \<notin> set k \<and> class_name k \<and> mapped_type fs False k \<noteq> u ''reset''"

lemma own_space_token:
  assumes "plain_event fs k" "own_space ns"
  shows "tokens (k @ ns) = [k @ ns]" "token_type (k @ ns) = k"
proof -
  obtain s where s: "ns = 46 # s" "word_space s" using assms(2) by (auto simp: own_space_def)
  have "46 \<notin> set k" using assms(1) by (simp add: plain_event_def)
  then show "token_type (k @ ns) = k" unfolding s(1) by (rule token_parts)
  have "\<not> is_white 46" by (simp add: is_white_def)
  then have "plain (k @ ns)" "k @ ns \<noteq> []" using assms(1) s by (auto simp: plain_event_def class_name_def word_space_def plain_def)
  then show "tokens (k @ ns) = [k @ ns]" by (simp add: tokens_def words_word)
qed

lemma w_on_effect:
  fixes w :: "box_fn widget"
  assumes "list_all (\<lambda>h. plain_event fs (fst h)) hs" "own_space (eventNamespace w)" "types_ok fs (tables w)" "es = None \<or> es = Some [x]"
  shows "types_ok fs (tables (w_on fs es hs w))" "resetters f (tables (w_on fs es hs w)) = resetters f (tables w)"
    "\<exists>T B. w_on fs es hs w = w\<lparr>tables := T, bindings := B\<rparr>"
proof -
  obtain y where y: "(case es of None \<Rightarrow> [element w] | Some es \<Rightarrow> es) = [y]" using assms(4) by auto
  define dl where "dl = (case es of None \<Rightarrow> [widgetElement w] | Some es \<Rightarrow> es)"
  define w0 where "w0 = (case es of None \<Rightarrow> w | Some es \<Rightarrow> w\<lparr>bindings := sort (remdups (bindings w @ es))\<rparr>)"
  have w0: "tables w0 = tables w" "eventNamespace w0 = eventNamespace w" "\<exists>B. w0 = w\<lparr>bindings := B\<rparr>"
  proof -
    show "tables w0 = tables w" "eventNamespace w0 = eventNamespace w" by (simp_all add: w0_def split: option.splits)
    show "\<exists>B. w0 = w\<lparr>bindings := B\<rparr>" by (cases es) (auto simp: w0_def intro: exI [of _ "bindings w"])
  qed
  define step where "step = (\<lambda>(key, f) (w :: box_fn widget). case event_key key of (name, sel) \<Rightarrow>
      w\<lparr>tables := on fs False (if sel \<noteq> [] then dl else [y]) (name @ eventNamespace w)
        (if sel \<noteq> [] then Text sel else Func f) (if sel \<noteq> [] then Func f else Missing) Missing (tables w)\<rparr>)"
  have W: "w_on fs es hs w = fold step hs w0" by (simp add: w_on_def step_def dl_def [symmetric] w0_def [symmetric] y Let_def)
  have "types_ok fs (tables (fold step hs v)) \<and> resetters f (tables (fold step hs v)) = resetters f (tables v) \<and> (\<exists>T. fold step hs v = v\<lparr>tables := T\<rparr>)"
    if "own_space (eventNamespace v)" "types_ok fs (tables v)" for v using assms(1) that
  proof (induction hs arbitrary: v)
    case Nil
    then show ?case by (auto intro: exI [of _ "tables v"])
  next
    case (Cons h hs)
    obtain k g where h: "h = (k, g)" by (cases h)
    have pe: "plain_event fs k" using Cons.prems(1) h by simp
    let ?T = "on fs False [y] (k @ eventNamespace v) (Func g) Missing Missing (tables v)"
    have v': "step h v = v\<lparr>tables := ?T\<rparr>" using pe by (simp add: step_def h plain_event_def)
    note tk = own_space_token [OF pe Cons.prems(2)]
    have "k \<noteq> []" "mapped_type fs False k \<noteq> u ''reset''" using pe by (auto simp: plain_event_def class_name_def)
    then have "resetters f ?T = resetters f (tables v)" using on_handlers [OF tk(1), of g fs y "tables v"] tk(2) by (auto simp: resetters_def)
    moreover have "types_ok fs ?T" using Cons.prems(3) by (rule types_ok_on)
    ultimately show ?case using Cons.IH [of "step h v"] Cons.prems(1,2) by (auto simp: v')
  qed
  note r = this [of w0, unfolded w0(1,2), OF assms(2,3)]
  show "types_ok fs (tables (w_on fs es hs w))" "resetters f (tables (w_on fs es hs w)) = resetters f (tables w)" using r by (simp_all add: W)
  obtain T B where "fold step hs w0 = w0\<lparr>tables := T\<rparr>" "w0 = w\<lparr>bindings := B\<rparr>" using r w0(3) by auto
  then show "\<exists>T B. w_on fs es hs w = w\<lparr>tables := T, bindings := B\<rparr>" using W by (intro exI [of _ T] exI [of _ B]) simp
qed

lemma event_names: "plain_event fs (u ''remove'')" "plain_event fs (u ''change'')" "plain_event fs (u ''focus'')" "plain_event fs (u ''blur'')"
  by (simp_all add: plain_event_def event_key_def name_char_def u_def class_name_def is_white_def mapped_type_def special_of_def no_special_def)

lemma on_inst:
  assumes "list_all (\<lambda>h. plain_event fs (fst h)) hs" "own_space (eventNamespace (box_widget (fst I)))" "types_ok fs (tabs (snd I))" "es = None \<or> es = Some [x]"
  defines "J \<equiv> widget_do (w_on fs es hs) I"
  shows "types_ok fs (tabs (snd J))" "resetters f (tabs (snd J)) = resetters f (tabs (snd I))" "frame J = frame I" "opts J = opts I" "has J = has I"
    "tracks J c = tracks I c" "inst_ok J = inst_ok I"
proof -
  have "own_space (eventNamespace (loaded I))" using assms(2) by (simp add: loaded_def)
  note w = w_on_effect [OF assms(1) this _ assms(4), unfolded loaded_simps, OF assms(3)]
  obtain T B where W: "w_on fs es hs (loaded I) = (loaded I)\<lparr>tables := T, bindings := B\<rparr>" using w(3) by blast
  show "types_ok fs (tabs (snd J))" "resetters f (tabs (snd J)) = resetters f (tabs (snd I))" using w(1,2) by (simp_all add: J_def)
  show fr: "frame J = frame I" "opts J = opts I" by (simp_all add: J_def widget_do_def W [unfolded loaded_def] frame_def opts_def loaded_def Let_def)
  show "has J = has I" "tracks J c = tracks I c" by (simp_all add: J_def has_def [abs_def] W widget_do_tracks) (simp add: tracks_def)
  show "inst_ok J = inst_ok I" by (rule inst_ok_cong [OF fr])
qed


subsection \<open>Creation\<close>

lemma quiet_trans: "quiet e I J \<Longrightarrow> quiet e J K \<Longrightarrow> quiet e I K"
  using same_but_trans [of I J K] by (auto simp: quiet_def)

lemma quiet_same: "same I J \<Longrightarrow> icon (fst J) = icon (fst I) \<Longrightarrow> fresh_node (snd J) = fresh_node (snd I) \<Longrightarrow> has J = has I \<Longrightarrow>
    (\<And>c. tracks J c = tracks I c) \<Longrightarrow> quiet e I J"
  using inp_idle [of "snd I" e] same_fields(5) [of I J] by (simp add: quiet_def same_same_but)

lemma quiet_ok: "quiet e I J \<Longrightarrow> inst_ok J = inst_ok I"
  by (simp add: quiet_def same_but_ok)

lemma set_opt_quiet:
  assumes "inst_ok I" "k \<noteq> ''classes''"
  shows "quiet e I (set_opt k v (fst I), snd I)" "opts (set_opt k v (fst I), snd I) = put (opts I) (Key (u k)) v"
proof -
  show o: "opts (set_opt k v (fst I), snd I) = put (opts I) (Key (u k)) v" by (simp add: opts_def set_opt_def)
  have "frame (set_opt k v (fst I), snd I) = frame I" "tracks (set_opt k v (fst I), snd I) c = tracks I c" for c
    by (simp_all add: frame_def set_opt_def tracks_def Let_def)
  moreover have "classes_of (set_opt k v (fst I), snd I) = classes_of I" using assms o by (simp add: classes_of_def inst_ok_def)
  moreover have "icon (set_opt k v (fst I)) = icon (fst I)" "has (set_opt k v (fst I), snd I) = has I" by (simp_all add: set_opt_def has_def [abs_def])
  ultimately show "quiet e I (set_opt k v (fst I), snd I)" using o inp_idle [of "snd I" e] by (simp add: quiet_def same_but_def pframe_def)
qed

lemma read_disabled_quiet:
  assumes "inst_ok I"
  shows "quiet e I (read_disabled e I)" "opt ''icon'' (fst (read_disabled e I)) = opt ''icon'' (fst I)" "inp (snd (read_disabled e I)) = inp (snd I)"
  using assms set_opt_quiet [OF assms, of "''disabled''"] quiet_refl
  by (auto simp: read_disabled_def opt_fst inst_ok_def)

lemma base_classes_quiet:
  assumes "inst_ok I"
  shows "quiet e I (base_classes e I)" "opts (base_classes e I) = opts I" "inp (snd (base_classes e I)) = inp (snd I)"
proof -
  define J where "J = widget_do (toggleClass [e] (u ''ui-checkboxradio'') (u ''ui-helper-hidden-accessible'') True) I"
  define K where "K = widget_do (toggleClass [box_label (fst I)] (u ''ui-checkboxradio-label'') (u ''ui-button ui-widget'') True) J"
  define L where "L = widget_do (toggleClass [box_label (fst I)] (u ''ui-checkboxradio-radio-label'') [] True) K"
  have B: "base_classes e I = (if box_type (fst K) = u ''radio'' then L else K)"
    by (simp add: base_classes_def J_def K_def L_def addClass_def [abs_def] Let_def)
  have J: "quiet e I J" unfolding J_def using assms by (rule quiet_toggle) (use watched_literals(1) in \<open>auto simp: literals\<close>)
  then have okJ: "inst_ok J" using assms quiet_ok by simp
  have K: "quiet e J K" unfolding K_def using okJ by (rule quiet_toggle) (use watched_literals(1) in \<open>auto simp: literals\<close>)
  then have okK: "inst_ok K" using okJ quiet_ok by simp
  have "quiet e K L" unfolding L_def using okK by (rule quiet_toggle) (use watched_literals(1) in \<open>auto simp: literals\<close>)
  then show "quiet e I (base_classes e I)" unfolding B using J K by (auto intro: quiet_trans)
  show "opts (base_classes e I) = opts I" "inp (snd (base_classes e I)) = inp (snd I)" unfolding B by (simp_all add: J_def K_def L_def)
qed

lemma first_label_quiet:
  assumes "inst_ok I"
  shows "quiet e I (first_label br e I)" "k \<noteq> ''label'' \<Longrightarrow> opt k (fst (first_label br e I)) = opt k (fst I)" "inp (snd (first_label br e I)) = inp (snd I)"
proof -
  have u: "quiet e I (updateLabel br e I)" by (rule quiet_same) simp_all
  note s = set_opt_quiet [OF assms, of "''label''"]
  show "quiet e I (first_label br e I)" using u s(1) quiet_refl by (simp add: first_label_def Let_def)
  have obj: "is_object (opts I)" using assms by (simp add: inst_ok_def)
  show "k \<noteq> ''label'' \<Longrightarrow> opt k (fst (first_label br e I)) = opt k (fst I)"
    using s(2) obj same_fields(4) [OF updateLabel_effect(1) [of I br e]] by (auto simp: first_label_def opt_def opts_def set_opt_def Let_def)
  show "inp (snd (first_label br e I)) = inp (snd I)" by (simp add: first_label_def updateLabel_def Let_def)
qed

text \<open>The icon and the mark of a new instance, whose label has no mark yet.\<close>

lemma first_shown:
  fixes I :: inst and chk :: bool
  assumes "inst_ok I" "\<not> has I (box_label (fst I)) checkedC"
  defines "J \<equiv> first_mark chk (updateIcon chk I)"
  shows "same I J" "updated chk I J" "icon (fst J) = next_icon I" "chk \<Longrightarrow> box_label (fst I) \<in> tracks J checkedC"
    "fresh_node (snd I) \<le> fresh_node (snd J)" "icon (fst I) = None \<Longrightarrow> truthy (opt ''icon'' (fst I)) \<Longrightarrow> fresh_node (snd I) < fresh_node (snd J)" "grown I J"
proof -
  note u = updateIcon_effect [OF assms(1), where chk = chk]
  let ?K = "mark_label True (updateIcon chk I)"
  define L where "L = (if icon (fst ?K) \<noteq> None then widget_do (toggleClass (numbered (icon (fst ?K))) [] (u ''ui-state-hover'') True) ?K else ?K)"
  have J: "J = (if chk then L else updateIcon chk I)" by (simp add: J_def first_mark_def L_def addClass_def [abs_def] Let_def)
  have K: "same I ?K" using same_trans [OF u(1) mark_label_same] .
  then have okK: "inst_ok ?K" using same_ok(1) assms(1) by simp
  have KL: "same ?K L" by (simp add: L_def)
  have h: "has L x c = has ?K x c" if "c \<in> watched" for x c
    using has_toggle [OF inst_okD [OF okK] that] watched_literals(1) [OF that] by (simp add: L_def literals)
  have ic: "icon (fst L) = icon (fst ?K)" "fresh_node (snd L) = fresh_node (snd ?K)" by (simp_all add: L_def)
  have tr: "tracks L c = tracks ?K c" if "c \<in> watched" for c using watched_literals(1) [OF that] by (simp add: L_def tracks_toggle literals)
  show "same I J" unfolding J using u(1) same_trans [OF K KL] by (cases chk) simp_all
  show i: "icon (fst J) = next_icon I" unfolding J using ic u(2) by (cases chk) simp_all
  have "updated True I ?K" if chk using mark_after_icon [OF assms(1), of True] that by simp
  then have up: "updated True I L" if chk using that ic h updated_cong [of True I ?K L] by blast
  have "updated False I (updateIcon False I)" if "\<not> chk"
    using u(2-4) that assms(2) by (auto simp: updated_def watched_def watched_literals(2-7))
  with up show "updated chk I J" unfolding J by (cases chk) simp_all
  have "box_label (fst (updateIcon chk I)) = box_label (fst I)" using same_fields(2) [OF u(1)] .
  then show "chk \<Longrightarrow> box_label (fst I) \<in> tracks J checkedC" unfolding J using tr [of checkedC] watched_literals by (simp add: mark_label_tracks)
  have "grown I (updateIcon chk I)" using assms(1) by (rule grown_icon)
  moreover have "grown I ?K" by (rule grown_mark [OF calculation]) (rule same_fields(2) [OF u(1)])
  then have "grown I L" using tr ic(1) watched_literals by (simp add: grown_def)
  ultimately show "grown I J" unfolding J by (cases chk) simp_all
  show "fresh_node (snd I) \<le> fresh_node (snd J)" "icon (fst I) = None \<Longrightarrow> truthy (opt ''icon'' (fst I)) \<Longrightarrow> fresh_node (snd I) < fresh_node (snd J)"
    unfolding J using ic u(5,7) by (cases chk; simp)+
qed


lemma loaded_do: "loaded (widget_do f I) = f (loaded I)"
  by (simp add: loaded_def widget_do_def Let_def)

lemma widget_do_comp: "widget_do g (widget_do f I) = widget_do (\<lambda>w. g (f w)) I"
  by (simp add: widget_do_def [of g] loaded_do) (simp add: widget_do_def Let_def)

lemma shown_disabled_quiet:
  assumes "inst_ok I"
  shows "quiet e I (widget_do (setOptionDisabled v) I)" "opts (widget_do (setOptionDisabled v) I) = opts I" "inp (snd (widget_do (setOptionDisabled v) I)) = inp (snd I)"
proof -
  let ?l = "box_label (fst I)"
  define J where "J = widget_do (toggleClass [?l] (u ''ui-checkboxradio'' @ u ''-disabled'') [] (truthy v)) I"
  define K where "K = widget_do (toggleClass [] [] (u ''ui-state-hover'') False) J"
  define L where "L = widget_do (toggleClass [] [] (u ''ui-state-focus'') False) K"
  have w: "widgetElement (loaded I) = ?l" "widgetFullName (loaded I) = u ''ui-checkboxradio''" "hoverable (loaded I) = []" "focusable (loaded I) = []"
    using assms by (simp_all add: inst_ok_def)
  have D: "widget_do (setOptionDisabled v) I = (if truthy v then L else J)"
    unfolding J_def K_def L_def widget_do_comp using w by (simp add: widget_do_def setOptionDisabled_def removeClass_def Let_def)
  have J: "quiet e I J" unfolding J_def using assms by (rule quiet_toggle) (use watched_literals(1) in \<open>auto simp: literals\<close>)
  then have okJ: "inst_ok J" using assms quiet_ok by simp
  have K: "quiet e J K" unfolding K_def using okJ by (rule quiet_toggle) (use watched_literals(1) in \<open>auto simp: literals\<close>)
  then have okK: "inst_ok K" using okJ quiet_ok by simp
  have "quiet e K L" unfolding L_def using okK by (rule quiet_toggle) (use watched_literals(1) in \<open>auto simp: literals\<close>)
  with J K show "quiet e I (widget_do (setOptionDisabled v) I)" unfolding D by (auto intro: quiet_trans)
  show "opts (widget_do (setOptionDisabled v) I) = opts I" "inp (snd (widget_do (setOptionDisabled v) I)) = inp (snd I)"
    unfolding D by (simp_all add: J_def K_def L_def)
qed

definition create_rest :: "browser \<Rightarrow> nat \<Rightarrow> inst \<Rightarrow> inst" where
  "create_rest br e I =
     (let chk = in_checked (inp (snd I) e); I = read_disabled e I;
          I = first_label br e (base_classes e (set_disabled e (opt ''disabled'' (fst I)) I))
      in first_mark chk (updateIcon chk I))"

text \<open>A new instance in order, which shows the state of its input.\<close>

definition fresh_ok :: "nat \<Rightarrow> inst \<Rightarrow> inst \<Rightarrow> bool" where
  "fresh_ok e I J \<longleftrightarrow> frame J = frame I \<and> elems (snd J) = elems (snd I) \<and> slots (snd J) = slots (snd I) \<and> inst_ok J \<and> updated (in_checked (inp (snd I) e)) I J \<and>
     (icon (fst J) = None \<or> icon (fst J) = Some (fresh_node (snd I)) \<and> fresh_node (snd I) < fresh_node (snd J)) \<and>
     (icon (fst J) = None \<longleftrightarrow> \<not> truthy (opt ''icon'' (fst J))) \<and> fresh_node (snd I) \<le> fresh_node (snd J) \<and>
     (\<exists>d. inp (snd J) = (inp (snd I))(e := (inp (snd I) e)\<lparr>in_disabled := d\<rparr>)) \<and>
     (opt ''disabled'' (fst J) = JBool True \<longrightarrow> in_disabled (inp (snd J) e)) \<and>
     (in_checked (inp (snd I) e) \<longrightarrow> box_label (fst I) \<in> tracks J checkedC) \<and> grown I J"

lemma create_rest_fresh:
  assumes "inst_ok I" "\<not> has I (box_label (fst I)) checkedC" "icon (fst I) = None"
  shows "fresh_ok e I (create_rest br e I)" "same_but I (create_rest br e I)"
proof -
  let ?chk = "in_checked (inp (snd I) e)"
  define J where "J = read_disabled e I"
  define v where "v = opt ''disabled'' (fst J)"
  define K where "K = set_disabled e v J"
  define L where "L = first_label br e (base_classes e K)"
  have C: "create_rest br e I = first_mark ?chk (updateIcon ?chk L)" by (simp add: create_rest_def J_def K_def L_def v_def Let_def)
  have J: "quiet e I J" "inp (snd J) = inp (snd I)" unfolding J_def using read_disabled_quiet [OF assms(1)] by auto
  then have okJ: "inst_ok J" using assms(1) quiet_ok by simp
  have K: "quiet e J K" unfolding K_def using okJ by (rule set_disabled_quiet)
  note k = set_disabled_effect(2,3) [OF okJ, where e = e and v = v, folded K_def]
  have okK: "inst_ok K" using K okJ quiet_ok by simp
  note b = base_classes_quiet [OF okK, where e = e]
  have okB: "inst_ok (base_classes e K)" using b(1) okK quiet_ok by simp
  note f = first_label_quiet [OF okB, where e = e and br = br]
  have q: "quiet e I L" unfolding L_def using J(1) K b(1) f(1) by (blast intro: quiet_trans)
  have okL: "inst_ok L" using q assms(1) quiet_ok by simp
  have lab: "box_label (fst L) = box_label (fst I)" using q same_but_fields(2) [of I L] by (simp add: quiet_def)
  have un: "\<not> has L (box_label (fst L)) checkedC" using q assms(2) lab watched_literals by (simp add: quiet_def)
  note s = first_shown [OF okL un, where chk = ?chk, folded C]
  have dis: "opt ''disabled'' (fst L) = v" using f(2) [of "''disabled''"] b(2) k(1) okJ by (simp add: L_def opt_fst inst_ok_def)
  have inpL: "inp (snd L) = (inp (snd I))(e := (inp (snd I) e)\<lparr>in_disabled := truthy v\<rparr>)" using f(3) b(3) k(2) J(2) by (simp add: L_def)
  have M: "inp (snd (create_rest br e I)) = inp (snd L)" "opt a (fst (create_rest br e I)) = opt a (fst L)" for a using same_fields(4,5) [OF s(1)] by auto
  have qf: "fresh_node (snd L) = fresh_node (snd I)" "icon (fst L) = None" "\<And>x c. c \<in> watched \<Longrightarrow> has L x c = has I x c" "same_but I L" "box_type (fst L) = box_type (fst I)"
    using q assms(3) same_but_fields(1) [of I L] by (auto simp: quiet_def)
  show sb: "same_but I (create_rest br e I)" using qf(4) same_same_but [OF s(1)] by (rule same_but_trans)
  have "frame (create_rest br e I) = frame I" "elems (snd (create_rest br e I)) = elems (snd I)" "slots (snd (create_rest br e I)) = slots (snd I)"
    "inst_ok (create_rest br e I)" using sb same_but_fields [OF sb] same_but_ok [OF sb] assms(1) by (auto simp: same_but_def)
  moreover have "updated ?chk I (create_rest br e I)" using s(2) qf(3,5) lab by (simp add: updated_def)
  moreover have "icon (fst (create_rest br e I)) = (if truthy (opt ''icon'' (fst L)) then Some (fresh_node (snd I)) else None)"
    using s(3) qf(1,2) by (simp add: next_icon_def)
  moreover have "grown I (create_rest br e I)" using s(7) q lab watched_literals by (simp add: grown_def quiet_def)
  ultimately show "fresh_ok e I (create_rest br e I)" using s(4-6) qf(1,2) lab M inpL dis unfolding fresh_ok_def by auto
qed


lemma dec_digits: "\<forall>c \<in> set (dec n). 48 \<le> c \<and> c \<le> 57"
  by (induction n rule: dec.induct) (subst dec.simps, auto)

lemma fresh_space: "own_space (u ''.checkboxradio'' @ dec n)"
proof -
  have "u ''.checkboxradio'' @ dec n = 46 # (u ''checkboxradio'' @ dec n)" by (simp add: u_def)
  moreover have "c \<in> set (dec n) \<Longrightarrow> \<not> is_white c \<and> c \<noteq> 46" for c using dec_digits [of n] by (auto simp: is_white_def)
  then have "word_space (u ''checkboxradio'' @ dec n)" by (auto simp: word_space_def u_def is_white_def)
  moreover have "u ''checkboxradio'' @ dec n \<noteq> reset_space" by (simp add: reset_space_def u_def)
  ultimately show ?thesis by (auto simp: own_space_def)
qed

lemma start_instance_effect:
  fixes br :: browser and e :: nat and S :: bpage
  assumes "types_ok (focusin br) (tabs S)"
  defines "I \<equiv> start_instance br e S"
  shows "types_ok (focusin br) (tabs (snd I))" "resetters f (tabs (snd I)) = resetters f (tabs S)" "frame I = frame (fresh_box e (uuid S), S)"
    "opts I = box_proto" "has I = marked S" "tracks I c = {}" "inp (snd I) = inp S" "slots (snd I) = slots S" "elems (snd I) = elems S" "resets (snd I) = resets S"
    "kids (snd I) = kids S" "fresh_node (snd I) = fresh_node S" "icon (fst I) = None"
proof -
  let ?I = "(fresh_box e (uuid S), S\<lparr>uuid := uuid S + 1\<rparr>)"
  have ns: "own_space (eventNamespace (box_widget (fst ?I)))" using fresh_space by (simp add: fresh_box_def fresh_widget_def)
  have pe: "list_all (\<lambda>h. plain_event (focusin br) (fst h)) [(u ''remove'', RemoveFn e)]" using event_names by simp
  have I: "I = widget_do (w_on (focusin br) (Some [e]) [(u ''remove'', RemoveFn e)]) ?I" by (simp add: I_def start_instance_def)
  have t: "types_ok (focusin br) (tabs (snd ?I))" using assms(1) by simp
  note o = on_inst [OF pe ns t, where es = "Some [e]" and x = e, folded I, simplified]
  show "types_ok (focusin br) (tabs (snd I))" "resetters f (tabs (snd I)) = resetters f (tabs S)" using o(1,2) by simp_all
  show "frame I = frame (fresh_box e (uuid S), S)" "opts I = box_proto" "has I = marked S" "tracks I c = {}"
    using o(3-6) by (simp_all add: frame_def opts_def fresh_box_def fresh_widget_def has_marked marked_def [abs_def] tracks_def tracked_def)
  have "pframe I = pframe ?I" by (simp add: I)
  then show "slots (snd I) = slots S" "elems (snd I) = elems S" "resets (snd I) = resets S" by (simp_all add: pframe_def Let_def)
  show "inp (snd I) = inp S" "kids (snd I) = kids S" "fresh_node (snd I) = fresh_node S" "icon (fst I) = None" by (simp_all add: I fresh_box_def)
qed

lemma bind_page [simp]:
  "inp (snd (bindFormResetHandler br e I)) = inp (snd I)" "slots (snd (bindFormResetHandler br e I)) = slots (snd I)"
  "elems (snd (bindFormResetHandler br e I)) = elems (snd I)" "fresh_node (snd (bindFormResetHandler br e I)) = fresh_node (snd I)"
  "icon (fst (bindFormResetHandler br e I)) = icon (fst I)" "box_label (fst (bindFormResetHandler br e I)) = box_label (fst I)"
  "box_type (fst (bindFormResetHandler br e I)) = box_type (fst I)" "box_form (fst (bindFormResetHandler br e I)) = in_form (inp (snd I) e)"
  "box_widget (fst (bindFormResetHandler br e I)) = box_widget (fst I)" "has (bindFormResetHandler br e I) = has I"
  "tracks (bindFormResetHandler br e I) c = tracks I c" "opts (bindFormResetHandler br e I) = opts I" "inst_ok (bindFormResetHandler br e I) = inst_ok I"
  by (cases "in_form (inp (snd I) e)";
    simp add: bindFormResetHandler_def has_def [abs_def] tracks_def opts_def inst_ok_def classes_of_def Let_def)+

lemma bind_view:
  assumes "view_ok (focusin br) (B, resets (snd I), tabs (snd I))" "B e = None" "own_space ns"
  defines "J \<equiv> bindFormResetHandler br e I"
  shows "view_ok (focusin br) (B(e \<mapsto> (in_form (inp (snd I) e), ns)), resets (snd J), tabs (snd J))"
proof (cases "in_form (inp (snd I) e)")
  case None
  then show ?thesis using view_add(1) [OF assms(1-3)] by (simp add: J_def bindFormResetHandler_def Let_def)
next
  case (Some f)
  show ?thesis
  proof (cases "resets (snd I) f")
    case None
    then have "reset_list f (snd I) = []" by (simp add: reset_list_def)
    with None Some view_add(3) [OF assms(1-3) None] show ?thesis by (simp add: J_def bindFormResetHandler_def Let_def)
  next
    case l: (Some l)
    then have "reset_list f (snd I) = l" "l \<noteq> []" using assms(1) by (auto simp: reset_list_def form_ok_def dest!: spec [of _ f])
    with l Some view_add(2) [OF assms(1-3) l] show ?thesis by (simp add: J_def bindFormResetHandler_def Let_def)
  qed
qed


lemma box_create_eq:
  "box_create br e I = widget_do (w_on (focusin br) None [(u ''change'', ToggleFn e), (u ''focus'', FocusFn e), (u ''blur'', BlurFn e)])
     (create_rest br e (bindFormResetHandler br e I))"
proof -
  have "in_checked (inp (snd (first_label br e J)) x) = in_checked (inp (snd J) x)" "in_checked (inp (snd (base_classes e J)) x) = in_checked (inp (snd J) x)"
    "in_checked (inp (snd (set_disabled e v J)) x) = in_checked (inp (snd J) x)" "in_checked (inp (snd (read_disabled e J)) x) = in_checked (inp (snd J) x)" for J v x
    by (simp_all add: first_label_def updateLabel_def base_classes_def set_disabled_def read_disabled_def Let_def)
  then show ?thesis by (simp add: box_create_def create_rest_def Let_def)
qed

text \<open>The instance that \<open>_create\<close> gets.\<close>

definition new_instance :: "browser \<Rightarrow> nat \<Rightarrow> jsval \<Rightarrow> bpage \<Rightarrow> nat \<times> ustring \<times> jsval \<Rightarrow> inst" where
  "new_instance br e copts S r = (case r of (l, orig, eopts) \<Rightarrow> (let I = start_instance br e S; b = fst I
     in (b\<lparr>box_widget := (box_widget b)\<lparr>options := create_options box_proto eopts copts, widgetElement := l\<rparr>, box_type := in_type (inp S e),
          box_label := l, originalLabel := orig\<rparr>, snd I)))"

definition last_touch :: "inst \<Rightarrow> inst" where
  "last_touch I = (if truthy (opt ''disabled'' (fst I)) then widget_do (setOptionDisabled (opt ''disabled'' (fst I))) I else I)"

lemma createBox_eq:
  assumes "getCreateOptions br e S = Inr r" "types_ok (focusin br) (tabs S)"
  shows "createBox br e copts S = (None, store e (last_touch (box_create br e (new_instance br e copts S r))))"
proof -
  have "getCreateOptions br e (snd (start_instance br e S)) = Inr r"
    using assms(1) unfolding getCreateOptions_def start_instance_effect(7,11) [OF assms(2)] .
  then show ?thesis by (cases r) (simp add: createBox_def new_instance_def last_touch_def Let_def)
qed

definition client_ok :: "browser \<Rightarrow> nat \<Rightarrow> jsval \<Rightarrow> bpage \<Rightarrow> bool" where
  "client_ok br e copts S \<longleftrightarrow> (case getCreateOptions br e S of
     Inl err \<Rightarrow> True
   | Inr (l, orig, eopts) \<Rightarrow> ok_classes (get (create_options box_proto eopts copts) (Key (u ''classes''))))"

lemma new_instance_effect:
  assumes "getCreateOptions br e S = Inr (l, orig, eopts)" "client_ok br e copts S" "types_ok (focusin br) (tabs S)"
  defines "I \<equiv> new_instance br e copts S (l, orig, eopts)"
  shows "inst_ok I" "box_label (fst I) = l" "l \<in> set (in_labels (inp S e))" "readType (inp S e) = None" "box_type (fst I) = in_type (inp S e)"
    "own_space (eventNamespace (box_widget (fst I)))" "icon (fst I) = None" "has I = marked S" "tracks I c = {}"
    "inp (snd I) = inp S" "slots (snd I) = slots S" "elems (snd I) = elems S" "fresh_node (snd I) = fresh_node S" "resets (snd I) = resets S"
    "types_ok (focusin br) (tabs (snd I))" "resetters f (tabs (snd I)) = resetters f (tabs S)"
proof -
  note s = start_instance_effect [OF assms(3), where e = e]
  have I: "snd I = snd (start_instance br e S)" "fst I = (fst (start_instance br e S))\<lparr>box_widget := (box_widget (fst (start_instance br e S)))\<lparr>options := create_options box_proto eopts copts,
      widgetElement := l\<rparr>, box_type := in_type (inp S e), box_label := l, originalLabel := orig\<rparr>" by (simp_all add: I_def new_instance_def Let_def)
  have fr: "widgetFullName (box_widget (fst I)) = u ''ui-checkboxradio''" "hoverable (box_widget (fst I)) = []" "focusable (box_widget (fst I)) = []"
    "eventNamespace (box_widget (fst I)) = u ''.checkboxradio'' @ dec (uuid S)" using s(3) by (simp_all add: I frame_def fresh_box_def fresh_widget_def Let_def)
  have "is_object (create_options box_proto eopts copts)" by (simp add: create_options_def widget_extend_def)
  moreover have "ok_classes (get (create_options box_proto eopts copts) (Key (u ''classes'')))" using assms(1,2) by (simp add: client_ok_def)
  ultimately show "inst_ok I" using fr by (simp add: inst_ok_def opts_def classes_of_def I)
  show "own_space (eventNamespace (box_widget (fst I)))" using fr(4) fresh_space by simp
  show "box_label (fst I) = l" "box_type (fst I) = in_type (inp S e)" "icon (fst I) = None" using s(13) by (simp_all add: I)
  show "l \<in> set (in_labels (inp S e))" "readType (inp S e) = None"
    using assms(1) by (auto simp: getCreateOptions_def Let_def split: option.splits if_splits)
  have "has I = has (start_instance br e S)" "tracks I c = tracks (start_instance br e S) c"
    by (simp_all add: I has_def [abs_def] tracks_def tracked_def)
  then show "has I = marked S" "tracks I c = {}" using s(5,6) by simp_all
  show "inp (snd I) = inp S" "slots (snd I) = slots S" "elems (snd I) = elems S" "fresh_node (snd I) = fresh_node S" "resets (snd I) = resets S"
    "types_ok (focusin br) (tabs (snd I))" "resetters f (tabs (snd I)) = resetters f (tabs S)" unfolding I(1) using s by simp_all
qed


lemma fresh_ok_after:
  assumes "fresh_ok e I J" "frame K = frame J" "opts K = opts J" "elems (snd K) = elems (snd J)" "slots (snd K) = slots (snd J)" "inp (snd K) = inp (snd J)"
    "icon (fst K) = icon (fst J)" "fresh_node (snd K) = fresh_node (snd J)" "\<And>x c. c \<in> watched \<Longrightarrow> has K x c = has J x c" "\<And>c. c \<in> watched \<Longrightarrow> tracks K c = tracks J c"
  shows "fresh_ok e I K"
proof -
  have "grown I K" using assms(1,7,10) watched_literals by (simp add: fresh_ok_def grown_def)
  moreover have "updated (in_checked (inp (snd I) e)) I K" using assms(1,7,9) updated_cong [of _ I J K] by (simp add: fresh_ok_def)
  moreover have "inst_ok K" using assms(1) inst_ok_cong [OF assms(2,3)] by (simp add: fresh_ok_def)
  moreover have "tracks K checkedC = tracks J checkedC" using assms(10) watched_literals by blast
  ultimately show ?thesis using assms(1) unfolding fresh_ok_def opt_fst assms(2-8) by (elim conjE, intro conjI) simp_all
qed

lemma settle_new:
  assumes "fresh_ok e I Z" "box_label (fst I) \<in> set (in_labels (inp (snd I) e))" "readType (inp (snd I) e) = None" "box_type (fst I) = in_type (inp (snd I) e)"
    "box_form (fst I) = in_form (inp (snd I) e)" "N \<le> fresh_node (snd I)" "tracks_ok N I"
  shows "local_effect e I Z" "box_ok N e Z" "shows_state e Z"
proof -
  have f: "frame Z = frame I" "elems (snd Z) = elems (snd I)" "slots (snd Z) = slots (snd I)" "inst_ok Z" and up: "updated (in_checked (inp (snd I) e)) I Z"
    and ic: "icon (fst Z) = None \<or> icon (fst Z) = Some (fresh_node (snd I)) \<and> fresh_node (snd I) < fresh_node (snd Z)"
    and io: "icon (fst Z) = None \<longleftrightarrow> \<not> truthy (opt ''icon'' (fst Z))" and fr: "fresh_node (snd I) \<le> fresh_node (snd Z)"
    and inp: "\<exists>d. inp (snd Z) = (inp (snd I))(e := (inp (snd I) e)\<lparr>in_disabled := d\<rparr>)"
    and dis: "opt ''disabled'' (fst Z) = JBool True \<longrightarrow> in_disabled (inp (snd Z) e)"
    and tr: "in_checked (inp (snd I) e) \<longrightarrow> box_label (fst I) \<in> tracks Z checkedC" and g: "grown I Z"
    using assms(1) unfolding fresh_ok_def by blast+
  note fd = frameD [OF f(1)]
  have "\<forall>x. \<forall>c \<in> watched. x \<noteq> box_label (fst I) \<and> icon (fst Z) \<noteq> Some x \<longrightarrow> has Z x c = has I x c" using up unfolding updated_def by blast
  then show "local_effect e I Z" using fd f ic fr inp g unfolding local_effect_def by simp
  obtain d where d: "inp (snd Z) e = (inp (snd I) e)\<lparr>in_disabled := d\<rparr>" using inp by auto
  have rt: "readType (inp (snd Z) e) = readType (inp (snd I) e)" by (simp add: d readType_def Let_def)
  have lab: "has Z (box_label (fst I)) checkedC = in_checked (inp (snd I) e)" using up watched_literals by (simp add: updated_def)
  have ics: "\<forall>i. icon (fst Z) = Some i \<longrightarrow> N \<le> i \<and> i < fresh_node (snd Z)" using ic assms(6) by auto
  then have "tracks_ok N Z" using grown_in_order [OF g assms(7) _ fr] fd by blast
  with ics show "box_ok N e Z" using f(4) assms(2-5) fd io dis tr lab d rt by (simp add: box_ok_def Let_def)
  show "shows_state e Z" using up lab fd d watched_literals by (simp add: shows_state_def updated_def Let_def)
qed

lemma last_touch_after:
  assumes "fresh_ok e I J"
  shows "fresh_ok e I (last_touch J)" "resets (snd (last_touch J)) = resets (snd J)" "tabs (snd (last_touch J)) = tabs (snd J)"
proof -
  have ok: "inst_ok J" using assms by (simp add: fresh_ok_def)
  note q = shown_disabled_quiet(1) [OF ok, of e "opt ''disabled'' (fst J)"] shown_disabled_quiet(2,3) [OF ok, of "opt ''disabled'' (fst J)"]
  have f: "frame (widget_do (setOptionDisabled v) J) = frame J" "elems (snd (widget_do (setOptionDisabled v) J)) = elems (snd J)"
    "slots (snd (widget_do (setOptionDisabled v) J)) = slots (snd J)" "tabs (snd (widget_do (setOptionDisabled v) J)) = tabs (snd J)" for v
    using shown_disabled_quiet(1) [OF ok, of e v] same_but_fields [of J "widget_do (setOptionDisabled v) J"] by (auto simp: quiet_def same_but_def)
  show "fresh_ok e I (last_touch J)"
  proof (cases "truthy (opt ''disabled'' (fst J))")
    case True
    have "fresh_ok e I (widget_do (setOptionDisabled (opt ''disabled'' (fst J))) J)"
      using assms f(1) q(2) f(2,3) q(3) by (rule fresh_ok_after) (use q(1) in \<open>auto simp: quiet_def\<close>)
    with True show ?thesis by (simp add: last_touch_def)
  qed (use assms in \<open>simp add: last_touch_def\<close>)
  have "pframe (last_touch J) = pframe J" by (simp add: last_touch_def)
  then show "resets (snd (last_touch J)) = resets (snd J)" by (simp add: pframe_def Let_def)
  show "tabs (snd (last_touch J)) = tabs (snd J)" using f(4) by (simp add: last_touch_def)
qed

lemma fail_keeps:
  assumes ok: "boxes_ok N X S" and un: "\<not> is_built S e" and err: "\<And>n t. err = WrongType n t \<Longrightarrow> readType (inp S e) \<noteq> None"
    and T: "inp T = inp S" "elems T = elems S" "fresh_node T = fresh_node S" "marked T = marked S" "slots T = (slots S)(e := Some (Failed err))"
  shows "boxes_ok N X T"
proof -
  have b: "slots S x = Some (Built b)" if "slots T x = Some (Built b)" for x b using that T(5) by (auto split: if_splits)
  have "static N S" using ok by (simp add: boxes_ok_def)
  then have "static N T" by (rule static_cong) (simp_all add: T same_input_checked)
  moreover have "box_ok N x (b, T) \<and> (\<not> X x \<longrightarrow> shows_state x (b, T))" if "slots T x = Some (Built b)" for x b
  proof -
    have old: "box_ok N x (b, S)" "\<not> X x \<longrightarrow> shows_state x (b, S)" using ok b [OF that] by (auto simp: boxes_ok_def)
    have "box_ok N x (b, T)" by (rule box_ok_move [OF old(1)]) (simp_all add: T)
    moreover have "shows_state x (b, S) \<Longrightarrow> shows_state x (b, T)" by (erule shows_state_move) (simp_all add: T)
    ultimately show ?thesis using old(2) by blast
  qed
  moreover have "icon b' \<noteq> Some i \<and> (\<forall>c \<in> {checkC, blankC}. i \<notin> tracks (b', T) c)"
    if "slots T x = Some (Built b)" "slots T y = Some (Built b')" "x \<noteq> y" "icon b = Some i" for x y b b' i
    using ok b [OF that(1)] b [OF that(2)] that(3,4) unfolding boxes_ok_def inst_ok_page(2) [of b' T S] by blast
  moreover have "\<not> marked T l checkedC" if "l \<in> set (in_labels (inp T x))" "\<forall>b. slots T x = Some (Built b) \<longrightarrow> l \<noteq> box_label b" for x l
  proof -
    have "\<forall>b. slots S x = Some (Built b) \<longrightarrow> l \<noteq> box_label b" using that(2) un T(5) by (cases "x = e") (auto simp: is_built_def)
    then show ?thesis using ok that(1) unfolding boxes_ok_def T(1,4) by blast
  qed
  moreover have "readType (inp T x) \<noteq> None" if "slots T x = Some (Failed (WrongType n t))" for x n t
  proof (cases "x = e")
    case True
    then have "err = WrongType n t" using that T(5) by simp
    then show ?thesis using err True T(1) by simp
  next
    case False
    then have "slots S x = Some (Failed (WrongType n t))" using that T(5) by simp
    then show ?thesis using ok unfolding boxes_ok_def T(1) by blast
  qed
  moreover have "N \<le> fresh_node T" using ok T(3) by (simp add: boxes_ok_def)
  ultimately show ?thesis unfolding boxes_ok_def by (intro conjI allI impI ballI) blast+
qed

lemma create_failed:
  assumes e: "getCreateOptions br e S = Inl err" and ok: "boxes_ok N X S" and vw: "view_ok (focusin br) (forms_view S)" and un: "\<not> is_built S e"
  shows "boxes_ok N X (snd (createBox br e copts S)) \<and> view_ok (focusin br) (forms_view (snd (createBox br e copts S)))"
proof -
  have ty: "types_ok (focusin br) (tabs S)" using vw by (simp add: forms_view_def)
  note s = start_instance_effect [OF ty, where e = e]
  let ?I = "start_instance br e S"
  let ?T = "(snd ?I)\<lparr>slots := (slots (snd ?I))(e := Some (Failed err))\<rparr>"
  have "getCreateOptions br e (snd ?I) = Inl err" using e unfolding getCreateOptions_def s(7,11) .
  then have C: "snd (createBox br e copts S) = ?T" by (simp add: createBox_def Let_def)
  have "\<And>n t. err = WrongType n t \<Longrightarrow> readType (inp S e) \<noteq> None" using e by (auto simp: getCreateOptions_def Let_def split: option.splits if_splits)
  with ok un have "boxes_ok N X ?T" by (rule fail_keeps) (use s(5,7,8,9,12) in \<open>simp_all add: has_marked marked_def [abs_def]\<close>)
  moreover have "view_ok (focusin br) (forms_view ?T)"
  proof -
    have "forms_view ?T = (fst (forms_view S), resets S, tabs (snd ?I))"
      using un s(8,10) by (auto simp: forms_view_def is_built_def fun_eq_iff split: option.splits slot.splits)
    moreover have "view_ok (focusin br) (fst (forms_view S), resets S, tabs S)" using vw by (simp add: forms_view_def)
    then have "view_ok (focusin br) (fst (forms_view S), resets S, tabs (snd ?I))" using s(1) s(2) by (rule view_tables)
    ultimately show ?thesis by simp
  qed
  ultimately show ?thesis using C by simp
qed

text \<open>A new instance, before it is stored; \<open>b\<close> is what it started from.\<close>

definition created :: "browser \<Rightarrow> nat \<Rightarrow> nat \<Rightarrow> bpage \<Rightarrow> box \<Rightarrow> inst \<Rightarrow> bool" where
  "created br N e S b Z \<longleftrightarrow> local_effect e (b, S) Z \<and> placed N e (b, S) \<and> box_ok N e Z \<and> shows_state e Z \<and> slots (snd Z) = slots S \<and>
     view_ok (focusin br) (forms_view (store e Z))"

lemma create_built:
  assumes ok: "boxes_ok N X S" and vw: "view_ok (focusin br) (forms_view S)" and un: "\<not> is_built S e" and cl: "client_ok br e copts S"
    and g: "getCreateOptions br e S = Inr r"
  shows "\<exists>b Z. createBox br e copts S = (None, store e Z) \<and> created br N e S b Z"
proof -
  obtain l orig eopts where r: "r = (l, orig, eopts)" by (cases r)
  have ty: "types_ok (focusin br) (tabs S)" using vw by (simp add: forms_view_def)
  define I where "I = new_instance br e copts S r"
  note n = new_instance_effect [OF g [unfolded r] cl ty, folded r, folded I_def]
  define J where "J = bindFormResetHandler br e I"
  have un_l: "\<not> has J (box_label (fst J)) checkedC"
  proof -
    have "\<forall>b. slots S e \<noteq> Some (Built b)" using un by (auto simp: is_built_def)
    then have "\<not> marked S l checkedC" using ok n(3) unfolding boxes_ok_def by blast
    then show ?thesis using n(2,8) by (simp add: J_def)
  qed
  have okJ: "inst_ok J" "icon (fst J) = None" using n(1,7) by (simp_all add: J_def)
  note c = create_rest_fresh [OF okJ(1) un_l okJ(2), where e = e and br = br]
  let ?hs = "[(u ''change'', ToggleFn e), (u ''focus'', FocusFn e), (u ''blur'', BlurFn e)]"
  let ?M = "create_rest br e J"
  let ?W = "widget_do (w_on (focusin br) None ?hs) ?M"
  let ?Z = "last_touch ?W"
  have W: "box_create br e I = ?W" by (simp add: box_create_eq J_def)
  let ?B = "fst (forms_view S)"
  have vB: "view_ok (focusin br) (?B, resets S, tabs S)" using vw by (simp add: forms_view_def)
  let ?ns = "eventNamespace (box_widget (fst I))"
  have vI: "view_ok (focusin br) (?B, resets (snd I), tabs (snd I))" unfolding n(14) using vB n(15) n(16) by (rule view_tables)
  have Be: "?B e = None" using un unfolding built_view by blast
  have vJ: "view_ok (focusin br) (?B(e \<mapsto> (in_form (inp S e), ?ns)), resets (snd J), tabs (snd J))"
    using bind_view [OF vI Be n(6)] unfolding J_def n(10) .
  have M: "tabs (snd ?M) = tabs (snd J)" "resets (snd ?M) = resets (snd J)" "eventNamespace (box_widget (fst ?M)) = ?ns"
    using same_but_fields [OF c(2)] frameD [of ?M J] c(2) by (auto simp: same_but_def J_def)
  have pe: "list_all (\<lambda>h. plain_event (focusin br) (fst h)) ?hs" using event_names by simp
  have nsM: "own_space (eventNamespace (box_widget (fst ?M)))" using M(3) n(6) by simp
  have tyM: "types_ok (focusin br) (tabs (snd ?M))" using vJ M(1) by simp
  note o = on_inst [OF pe nsM tyM disjI1 [OF refl]]
  have "pframe ?W = pframe ?M" by simp
  then have pW: "elems (snd ?W) = elems (snd ?M)" "slots (snd ?W) = slots (snd ?M)" "resets (snd ?W) = resets (snd ?M)" by (simp_all add: pframe_def Let_def)
  have "fresh_ok e J ?W" using c(1) o(3,4) pW(1,2) by (rule fresh_ok_after) (simp_all add: o)
  note z = last_touch_after [OF this]
  have inpJ: "inp (snd J) = inp S" "fresh_node (snd J) = fresh_node S" "slots (snd J) = slots S" "elems (snd J) = elems S" using n(10-13) by (simp_all add: J_def)
  have s: "local_effect e J ?Z" "box_ok N e ?Z" "shows_state e ?Z"
    using settle_new [OF z(1), of N] n(2-5) inpJ ok n(9,10) by (simp_all add: J_def boxes_ok_def tracks_ok_def)
  have "has J = has (fst J, S)" using n(8) has_marked [of "(fst J, S)"] by (simp add: J_def)
  moreover have "grown (fst J, S) ?Z = grown J ?Z" using inst_ok_page(2) [of "fst J" S "snd J"] by (simp add: grown_def)
  ultimately have eff: "local_effect e (fst J, S) ?Z" using s(1) inpJ by (simp add: local_effect_def)
  have "tracks (fst J, S) c = {}" for c using n(9) bind_page(11) [of br e I c] by (simp add: J_def tracks_def)
  moreover have "\<forall>b. slots S e \<noteq> Some (Built b)" using un by (auto simp: is_built_def)
  ultimately have pl: "placed N e (fst J, S)" using n(2,3,7) by (simp add: J_def placed_def)
  have fZ: "frame ?Z = frame J" using z(1) by (simp add: fresh_ok_def)
  have "forms_view (store e ?Z) = (?B(e \<mapsto> (in_form (inp S e), ?ns)), resets (snd J), tabs (snd ?W))"
    using frameD [OF fZ] z(1,2,3) pW(3) M(2) inpJ(3) n(10)
    by (auto simp: forms_view_def fresh_ok_def J_def fun_eq_iff)
  moreover have "view_ok (focusin br) (?B(e \<mapsto> (in_form (inp S e), ?ns)), resets (snd J), tabs (snd ?W))"
    using vJ o(1) by (rule view_tables) (simp only: o(2) M(1))
  moreover have "slots (snd ?Z) = slots S" using z(1) inpJ(3) by (simp add: fresh_ok_def)
  ultimately have "created br N e S (fst J) ?Z" using eff pl s(2,3) by (simp add: created_def)
  moreover have "createBox br e copts S = (None, store e ?Z)" using createBox_eq [OF g ty, of copts] by (simp add: I_def [symmetric] W)
  ultimately show ?thesis by blast
qed

lemma create_ok:
  assumes ok: "boxes_ok N X S" and vw: "view_ok (focusin br) (forms_view S)" and un: "\<not> is_built S e" and cl: "client_ok br e copts S"
  shows "boxes_ok N X (snd (createBox br e copts S)) \<and> view_ok (focusin br) (forms_view (snd (createBox br e copts S)))"
proof (cases "getCreateOptions br e S")
  case (Inr r)
  obtain b Z where Z: "createBox br e copts S = (None, store e Z)" "created br N e S b Z" using create_built [OF assms Inr] by blast
  then have "boxes_ok N X (store e Z)" using place_keeps [OF ok, of e b Z X] by (simp add: created_def)
  with Z show ?thesis by (simp add: created_def)
next
  case (Inl err)
  then show ?thesis using ok vw un by (rule create_failed)
qed


end
