(* ===== verification/BoxSteps.thy ===== *)
theory BoxSteps
  imports BoxRun
begin

text \<open>
  The \<open>checkboxradio\<close> widgets of a page over time: destruction, the steps of the page with the timers after a reset, and
  what holds in every state that it reaches.
\<close>

subsection \<open>The names under which elements are tracked\<close>

text \<open>\<open>destroy\<close> takes away all words of every key of \<open>classesElementLookup\<close>, so that it matters that each key is one word.\<close>

definition keys_ok :: "'f widget \<Rightarrow> bool" where
  "keys_ok w \<longleftrightarrow> distinct (map fst (classesElementLookup w)) \<and> (\<forall>k \<in> fst ` set (classesElementLookup w). words_by is_space k = [k])"

lemma words_by_again: "k \<in> set (words_by is_space s) \<Longrightarrow> words_by is_space k = [k]"
proof (induction is_space s rule: words_by.induct)
  case (1 s)
  let ?r = "dropWhile is_space s"
  show ?case
  proof (cases "?r = []")
    case True
    then have "words_by is_space s = []" by (simp add: words_by.simps [of _ s])
    with 1 show ?thesis by simp
  next
    case False
    then have W: "words_by is_space s = takeWhile (\<lambda>c. \<not> is_space c) ?r # words_by is_space (dropWhile (\<lambda>c. \<not> is_space c) ?r)"
      by (simp only: words_by.simps [of _ s] Let_def if_False)
    have "\<not> is_space (hd ?r)" using False by (metis hd_dropWhile)
    then have "takeWhile (\<lambda>c. \<not> is_space c) ?r \<noteq> []" using False by (cases ?r) auto
    moreover have "\<forall>x \<in> set (takeWhile (\<lambda>c. \<not> is_space c) ?r). \<not> is_space x" by (auto dest: set_takeWhileD)
    ultimately have "words_by is_space (takeWhile (\<lambda>c. \<not> is_space c) ?r) = [takeWhile (\<lambda>c. \<not> is_space c) ?r]" by (rule words_by_word)
    with 1 False W show ?thesis by (metis set_ConsD)
  qed
qed

lemma keys_fields [simp]: "keys_ok (w\<lparr>css := X\<rparr>) = keys_ok w" "keys_ok (w\<lparr>tables := T\<rparr>) = keys_ok w" "keys_ok (w\<lparr>options := v\<rparr>) = keys_ok w"
  "keys_ok (w\<lparr>bindings := es\<rparr>) = keys_ok w" "keys_ok (w\<lparr>widgetElement := x\<rparr>) = keys_ok w"
  by (simp_all add: keys_ok_def)

lemma keys_track: "keys_ok w \<Longrightarrow> words_by is_space c = [c] \<Longrightarrow> keys_ok (track add es c w)"
  by (auto simp: keys_ok_def track_def distinct_update dom_update)

lemma keys_process: "keys_ok w \<Longrightarrow> \<forall>c \<in> set cs. words_by is_space c = [c] \<Longrightarrow> keys_ok (snd (processClassString add es classes cs w))"
proof (induction cs arbitrary: w)
  case (Cons c cs)
  obtain full w' where p: "processClassString add es classes cs (track add es c w) = (full, w')"
    by (cases "processClassString add es classes cs (track add es c w)")
  show ?case using Cons.IH [of "track add es c w"] Cons.prems keys_track [of w c add es] p by simp
qed simp

lemma keys_classes: "keys_ok w \<Longrightarrow> keys_ok (snd (w_classes add es keys extra classes w))"
proof -
  assume w: "keys_ok w"
  obtain f1 w1 where p: "processClassString add es classes (words_by is_space keys) w = (f1, w1)"
    by (cases "processClassString add es classes (words_by is_space keys) w")
  obtain f2 w2 where q: "processClassString add es (JObj Plain []) (words_by is_space extra) w1 = (f2, w2)"
    by (cases "processClassString add es (JObj Plain []) (words_by is_space extra) w1")
  have one: "\<forall>c \<in> set (words_by is_space s). words_by is_space c = [c]" for s by (rule ballI) (rule words_by_again)
  have "keys_ok w1" using keys_process [OF w one, of add es classes keys] p by simp
  then have "keys_ok w2" using keys_process [OF _ one, of w1 add es "JObj Plain []" extra] q by simp
  then show ?thesis by (simp add: w_classes_def p q)
qed

lemma keys_toggle: "keys_ok w \<Longrightarrow> keys_ok (toggleClass es keys extra add w)"
proof -
  obtain full w' where c: "w_classes add es keys extra (get (options w) (Key (u ''classes''))) w = (full, w')"
    by (cases "w_classes add es keys extra (get (options w) (Key (u ''classes''))) w")
  then show "keys_ok w \<Longrightarrow> ?thesis" using keys_classes [of w add es keys extra "get (options w) (Key (u ''classes''))"]
    by (simp add: toggleClass_def dom_toggle_def Let_def)
qed

lemma keys_toggle_value: "keys_ok w \<Longrightarrow> keys_ok (toggleClass_value es extra v w)"
proof -
  assume w: "keys_ok w"
  obtain full w' where c: "w_classes True es [] extra (get (options w) (Key (u ''classes''))) w = (full, w')"
    by (cases "w_classes True es [] extra (get (options w) (Key (u ''classes''))) w")
  then have "keys_ok w'" using keys_classes [OF w, of True es "[]" extra "get (options w) (Key (u ''classes''))"] by simp
  with c show ?thesis using keys_toggle [OF w] by (cases v) (simp_all add: toggleClass_value_def)
qed

lemma keys_untrack: "keys_ok w \<Longrightarrow> keys_ok (untrackClassesElement n w)"
  by (auto simp: keys_ok_def untrackClassesElement_def comp_def case_prod_beta)

lemma keys_setOptionDisabled: "keys_ok w \<Longrightarrow> keys_ok (setOptionDisabled v w)"
  by (simp add: setOptionDisabled_def removeClass_def keys_toggle Let_def)

lemma keys_setOption: "keys_ok w \<Longrightarrow> k \<noteq> Key (u ''classes'') \<Longrightarrow> keys_ok (w_setOption k v w)"
  by (simp add: w_setOption_def keys_setOptionDisabled Let_def)

lemma keys_w_on: "keys_ok w \<Longrightarrow> keys_ok (w_on fs es hs w)"
  unfolding w_on_def Let_def by (rule fold_keeps) (auto split: prod.splits option.splits)

text \<open>Every method of the widget keeps that.\<close>

definition names_ok :: "nat \<Rightarrow> inst \<Rightarrow> bool" where
  "names_ok N I \<longleftrightarrow> keys_ok (box_widget (fst I)) \<and> N \<le> fresh_node (snd I) \<and> (\<forall>n. iconSpace (fst I) = Some n \<longrightarrow> N \<le> n)"

lemma names_do: "(keys_ok (loaded I) \<Longrightarrow> keys_ok (f (loaded I))) \<Longrightarrow> names_ok N I \<Longrightarrow> names_ok N (widget_do f I)"
  by (simp add: names_ok_def widget_do_def loaded_def Let_def)

lemma names_methods:
  assumes "names_ok N I"
  shows "names_ok N (widget_do (toggleClass es keys extra add) I)" "names_ok N (widget_do (toggleClass_value es extra v) I)"
    "names_ok N (widget_do (untrackClassesElement n) I)" "names_ok N (widget_do (setOptionDisabled v) I)" "names_ok N (widget_do (w_on fs els hs) I)"
  using assms by (auto intro!: names_do keys_toggle keys_toggle_value keys_untrack keys_setOptionDisabled keys_w_on)

lemma names_remove: "names_ok N I \<Longrightarrow> names_ok N (remove_node n I)"
  using names_methods(3) [of N I n] by (auto simp: remove_node_def names_ok_def Let_def)

lemma names_updateIcon: "names_ok N I \<Longrightarrow> names_ok N (updateIcon chk I)"
proof -
  assume I: "names_ok N I"
  have m: "names_ok N (make_icon I)"
    using I names_methods(1) [of N "((fst I)\<lparr>icon := Some (fresh_node (snd I)), iconSpace := Some (fresh_node (snd I) + 1)\<rparr>, (snd I)\<lparr>fresh_node := fresh_node (snd I) + 2\<rparr>)"]
    by (simp add: make_icon_def addClass_def [abs_def] names_ok_def Let_def split: option.splits)
  have "names_ok N J \<Longrightarrow> names_ok N (icon_classes chk J)" for J
    by (simp add: icon_classes_def addClass_def [abs_def] removeClass_def [abs_def] names_methods(1) Let_def)
  moreover have "names_ok N J \<Longrightarrow> names_ok N (prepend_icon J)" for J by (simp add: prepend_icon_def names_ok_def Let_def)
  moreover have "names_ok N (drop_icon I)" unfolding drop_icon_def using I names_remove by (rule fold_keeps)
  then have "names_ok N ((fst (drop_icon I))\<lparr>icon := None\<rparr>, snd (drop_icon I))" by (simp add: names_ok_def)
  ultimately show ?thesis using I m by (simp add: updateIcon_def Let_def)
qed

lemma names_mark: "names_ok N I \<Longrightarrow> names_ok N (mark_label chk I)"
  by (simp add: mark_label_def names_methods(1))

lemma names_updateLabel: "names_ok N I \<Longrightarrow> names_ok N (updateLabel br e I)"
  by (simp add: updateLabel_def names_ok_def Let_def)

lemma names_set_disabled: "names_ok N I \<Longrightarrow> names_ok N (set_disabled e v I)"
proof -
  assume I: "names_ok N I"
  have k: "Key (u ''disabled'') \<noteq> Key (u ''classes'')" by (simp add: u_inject)
  have "names_ok N (widget_do (w_setOption (Key (u ''disabled'')) v) I)" using I by (rule names_do [rotated]) (rule keys_setOption [OF _ k])
  then have "names_ok N (widget_do (toggleClass_value es x v) (widget_do (w_setOption (Key (u ''disabled'')) v) I))" for es x by (rule names_methods(2))
  then show ?thesis by (simp add: set_disabled_def names_ok_def Let_def)
qed

lemma names_refresh: "names_ok N I \<Longrightarrow> names_ok N (refresh br e I)"
  by (simp add: refresh_def names_set_disabled names_updateLabel names_mark names_updateIcon Let_def)

lemma names_set_plain: "names_ok N I \<Longrightarrow> names_ok N (set_plain br k v e I)"
  by (simp add: set_plain_def box_setOption_def names_set_disabled names_refresh names_do keys_setOption)

lemma names_focus: "names_ok N I \<Longrightarrow> names_ok N (focus_method gained e I)"
  by (simp add: focus_method_def names_methods(1))

lemma names_mark_state: "names_ok N I \<Longrightarrow> names_ok N (mark_state e I)"
  by (simp add: mark_state_def toggle_icon_def names_mark names_methods(1))

lemma names_last_touch: "names_ok N I \<Longrightarrow> names_ok N (last_touch I)"
  by (simp add: last_touch_def names_methods(4))

lemma names_create: "names_ok N I \<Longrightarrow> names_ok N (box_create br e I)"
proof -
  assume "names_ok N I"
  moreover have "iconSpace (fst (bindFormResetHandler br e I)) = iconSpace (fst I)" by (simp add: bindFormResetHandler_def Let_def split: option.splits)
  ultimately have "names_ok N (bindFormResetHandler br e I)" by (simp add: names_ok_def)
  then have "names_ok N (read_disabled e (bindFormResetHandler br e I))" by (simp add: read_disabled_def names_ok_def set_opt_def)
  moreover have "names_ok N J \<Longrightarrow> names_ok N (base_classes e J)" for J by (simp add: base_classes_def addClass_def [abs_def] names_methods(1) Let_def)
  moreover have "names_ok N J \<Longrightarrow> names_ok N (first_label br e J)" for J
    using names_updateLabel [of N J br e] by (simp add: first_label_def set_opt_def names_ok_def Let_def)
  moreover have "names_ok N J \<Longrightarrow> names_ok N (first_mark chk J)" for chk J
    by (simp add: first_mark_def addClass_def [abs_def] names_methods(1) names_mark Let_def)
  ultimately show ?thesis by (simp add: box_create_def names_methods(5) names_updateIcon names_set_disabled Let_def)
qed

lemma names_new: "N \<le> fresh_node S \<Longrightarrow> names_ok N (new_instance br e copts S r)"
proof -
  assume "N \<le> fresh_node S"
  then have "names_ok N (fresh_box e n, S\<lparr>uuid := m\<rparr>)" for n m by (simp add: names_ok_def fresh_box_def fresh_widget_def keys_ok_def)
  then have "names_ok N (start_instance br e S)" by (simp add: start_instance_def names_methods(5))
  then show ?thesis by (cases r) (simp add: new_instance_def names_ok_def Let_def)
qed

subsection \<open>Destruction\<close>

lemma destroy_watched:
  assumes "inst_ok I" "names_ok N I" "c \<in> watched"
  shows "has (widget_do (destroy fs) I) x c \<longleftrightarrow> has I x c \<and> x \<notin> tracks I c"
proof -
  let ?w = "loaded I"
  let ?L = "classesElementLookup ?w"
  have L: "distinct (map fst ?L)" "\<And>k es. (k, es) \<in> set ?L \<Longrightarrow> words_by is_space k = [k]" using assms(2) by (auto simp: names_ok_def keys_ok_def loaded_def)
  have "c \<notin> option_words (get (options ?w) (Key (u ''classes''))) k" for k
    using inst_okD [OF assms(1)] assms(3) by (auto simp: ok_classes_def classes_of_def)
  then have "c \<in> key_words (get (options ?w) (Key (u ''classes''))) (words_by is_space k) \<longleftrightarrow> c = k" if "(k, es) \<in> set ?L" for k es
    using L(2) [OF that] by (simp add: key_words_def)
  moreover have "css (destroy fs ?w) = css (fold (\<lambda>(k, es). removeClass es k []) ?L ?w)" by (simp add: destroy_def Let_def)
  ultimately have "c \<in> set (css (destroy fs ?w) x) \<longleftrightarrow> c \<in> set (css ?w x) \<and> \<not> (\<exists>es. (c, es) \<in> set ?L \<and> x \<in> set es)"
    by (auto simp: remove_all_css)
  moreover have "x \<in> tracks I c \<longleftrightarrow> (\<exists>es. (c, es) \<in> set ?L \<and> x \<in> set es)"
    using L(1) map_of_eq_Some_iff [OF L(1)] by (auto simp: tracks_def tracked_def loaded_def split: option.splits)
  ultimately show ?thesis by (simp add: has_def)
qed

lemma unbind_page [simp]:
  "inp (snd (unbindFormResetHandler br e I)) = inp (snd I)" "slots (snd (unbindFormResetHandler br e I)) = slots (snd I)"
  "elems (snd (unbindFormResetHandler br e I)) = elems (snd I)" "fresh_node (snd (unbindFormResetHandler br e I)) = fresh_node (snd I)"
  "fst (unbindFormResetHandler br e I) = fst I" "has (unbindFormResetHandler br e I) = has I"
  by (cases "box_form (fst I)"; simp add: unbindFormResetHandler_def has_def [abs_def] Let_def)+

definition before_destroy :: "browser \<Rightarrow> nat \<Rightarrow> inst \<Rightarrow> inst" where
  "before_destroy br e I = (let I = unbindFormResetHandler br e I in if icon (fst I) \<noteq> None then drop_icon I else I)"

lemma destroyBox_eq: "destroyBox br e I = (let S = snd (widget_do (destroy (focusin br)) (before_destroy br e I)) in S\<lparr>slots := (slots S)(e := None)\<rparr>)"
  by (simp add: destroyBox_def before_destroy_def Let_def)

lemma before_destroy_effect:
  fixes br :: browser and e :: nat and I :: inst
  defines "J \<equiv> before_destroy br e I"
  shows "same (unbindFormResetHandler br e I) J" "has J = has I" "fresh_node (snd J) = fresh_node (snd I)" "tracks J c \<subseteq> tracks I c"
    "icon (fst I) \<noteq> Some x \<Longrightarrow> iconSpace (fst I) \<noteq> Some x \<Longrightarrow> x \<in> tracks I c \<Longrightarrow> x \<in> tracks J c" "names_ok N I \<Longrightarrow> names_ok N J"
proof -
  let ?K = "unbindFormResetHandler br e I"
  have t: "tracks ?K c = tracks I c" for c by (simp add: tracks_def)
  note d = drop_icon_effect [of ?K]
  have J: "J = (if icon (fst I) \<noteq> None then drop_icon ?K else ?K)" by (simp add: J_def before_destroy_def Let_def)
  show "same ?K J" "has J = has I" "fresh_node (snd J) = fresh_node (snd I)" using d(1-5) unfolding J by simp_all
  show "tracks J c \<subseteq> tracks I c" using d(7) t unfolding J by simp
  show "icon (fst I) \<noteq> Some x \<Longrightarrow> iconSpace (fst I) \<noteq> Some x \<Longrightarrow> x \<in> tracks I c \<Longrightarrow> x \<in> tracks J c" using d(6) [of c] t unfolding J by simp
  assume "names_ok N I"
  then have K: "names_ok N ?K" by (simp add: names_ok_def)
  have "names_ok N (drop_icon ?K)" unfolding drop_icon_def using K names_remove by (rule fold_keeps)
  with K show "names_ok N J" unfolding J by simp
qed

lemma destroy_page:
  fixes br :: browser
  assumes "box_ok N e (b, S)" "names_ok N (b, S)" "\<forall>l \<in> set (in_labels (inp S e)). l < N"
  defines "T \<equiv> destroyBox br e (b, S)"
  shows "inp T = inp S" "elems T = elems S" "fresh_node T = fresh_node S" "slots T = (slots S)(e := None)"
    "c \<in> watched \<Longrightarrow> x \<notin> tracks (b, S) c \<Longrightarrow> marked T x c = marked S x c" "\<not> marked T (box_label b) checkedC"
    "c \<in> watched \<Longrightarrow> marked T x c \<Longrightarrow> marked S x c"
proof -
  let ?J = "before_destroy br e (b, S)"
  note d = before_destroy_effect [where br = br and e = e and I = "(b, S)"]
  have T: "T = (let S = snd (widget_do (destroy (focusin br)) ?J) in S\<lparr>slots := (slots S)(e := None)\<rparr>)" by (simp add: T_def destroyBox_eq)
  have p: "pframe (widget_do (destroy (focusin br)) ?J) = pframe ?J" by simp
  note f = same_fields [OF d(1)]
  show "inp T = inp S" "fresh_node T = fresh_node S" using f d(3) by (simp_all add: T Let_def)
  show "elems T = elems S" "slots T = (slots S)(e := None)" using p f by (simp_all add: T pframe_def Let_def)
  have ok: "inst_ok (b, S)" using assms(1) by (simp add: box_ok_def Let_def)
  have "inst_ok (unbindFormResetHandler br e (b, S)) = inst_ok (b, S)" by (simp add: inst_ok_def opts_def classes_of_def)
  then have "inst_ok ?J" using same_ok(1) [OF d(1)] ok by simp
  then have h: "marked T x c \<longleftrightarrow> marked S x c \<and> x \<notin> tracks ?J c" if "c \<in> watched" for x c
    using destroy_watched [OF _ d(6) [OF assms(2)] that, of "focusin br" x] d(2) has_marked [of "(b, S)"]
      has_marked [of "widget_do (destroy (focusin br)) ?J"] by (simp add: T marked_def Let_def)
  show "c \<in> watched \<Longrightarrow> x \<notin> tracks (b, S) c \<Longrightarrow> marked T x c = marked S x c" "c \<in> watched \<Longrightarrow> marked T x c \<Longrightarrow> marked S x c" using h [of c x] d(4) by auto
  have "box_label b < N" using assms(1,3) by (simp add: box_ok_def Let_def)
  then have "icon (fst (b, S)) \<noteq> Some (box_label b)" "iconSpace (fst (b, S)) \<noteq> Some (box_label b)"
    using assms(1,2) by (auto simp: box_ok_def names_ok_def Let_def)
  then have "box_label b \<in> tracks (b, S) checkedC \<Longrightarrow> box_label b \<in> tracks ?J checkedC" by (rule d(5))
  then show "\<not> marked T (box_label b) checkedC" using h [of checkedC "box_label b"] assms(1) watched_literals by (auto simp: box_ok_def has_marked Let_def)
qed


lemma other_not_tracked:
  assumes "boxes_ok N X S" "slots S e = Some (Built b)" "slots S x = Some (Built b')" "x \<noteq> e" "y = box_label b' \<or> icon b' = Some y" "c \<in> watched"
  shows "y \<notin> tracks (b, S) c"
proof -
  have st: "static N S" and b: "box_ok N e (b, S)" "box_ok N x (b', S)" using assms(1-3) by (auto simp: boxes_ok_def)
  have cross: "icon b' = Some y \<longrightarrow> (\<forall>c \<in> {checkC, blankC}. y \<notin> tracks (b, S) c)" using assms(1-4) unfolding boxes_ok_def by blast
  have l: "box_label b \<in> set (in_labels (inp S e))" "box_label b' \<in> set (in_labels (inp S x))" using b by (simp_all add: box_ok_def Let_def)
  then have lt: "box_label b < N" "box_label b' < N" using st by (auto simp: static_def)
  have ne: "box_label b' \<noteq> box_label b" using st assms(4) l unfolding static_def by (metis disjoint_iff)
  have tr: "tracks (b, S) checkedC \<subseteq> {box_label b}" "\<And>n c. c \<in> {checkC, blankC} \<Longrightarrow> n \<in> tracks (b, S) c \<Longrightarrow> N \<le> n" and ic: "icon b' = Some y \<Longrightarrow> N \<le> y"
    using b by (auto simp: box_ok_def tracks_ok_def Let_def)
  consider "c = checkedC" | "c \<in> {checkC, blankC}" using assms(6) by (auto simp: watched_def)
  then show ?thesis
  proof cases
    case 1
    then show ?thesis using tr(1) assms(5) ne lt ic by auto
  next
    case 2
    then show ?thesis using tr(2) [OF 2] cross assms(5) lt by fastforce
  qed
qed

lemma destroy_keeps:
  assumes ok: "boxes_ok N X S" and e: "slots S e = Some (Built b)" and nm: "names_ok N (b, S)"
  shows "boxes_ok N X (destroyBox br e (b, S))"
proof -
  let ?T = "destroyBox br e (b, S)"
  have st: "static N S" and b: "box_ok N e (b, S)" using ok e by (auto simp: boxes_ok_def)
  have "\<forall>l \<in> set (in_labels (inp S e)). l < N" using st by (simp add: static_def)
  note p = destroy_page [OF b nm this, where br = br]
  have old: "slots S x = Some s \<and> x \<noteq> e" if "slots ?T x = Some s" for x s using that p(4) by (auto split: if_splits)
  have "static N ?T" using st by (rule static_cong) (simp_all add: p(1,2) same_input_checked)
  moreover have "box_ok N x (b', ?T) \<and> (\<not> X x \<longrightarrow> shows_state x (b', ?T))" if "slots ?T x = Some (Built b')" for x b'
  proof -
    have x: "slots S x = Some (Built b')" "x \<noteq> e" using old [OF that] by simp_all
    have o: "box_ok N x (b', S)" "\<not> X x \<longrightarrow> shows_state x (b', S)" using ok x by (auto simp: boxes_ok_def)
    have m: "marked ?T y c = marked S y c" if "y = box_label b' \<or> icon b' = Some y" "c \<in> watched" for y c
      using p(5) [OF that(2) other_not_tracked [OF ok e x that]] .
    have "box_ok N x (b', ?T)" by (rule box_ok_move [OF o(1)]) (use m watched_literals in \<open>simp_all add: p(1,3)\<close>)
    moreover have "shows_state x (b', S) \<Longrightarrow> shows_state x (b', ?T)" by (erule shows_state_move) (use m in \<open>simp_all add: p(1)\<close>)
    ultimately show ?thesis using o(2) by blast
  qed
  moreover have "icon b2 \<noteq> Some i \<and> (\<forall>c \<in> {checkC, blankC}. i \<notin> tracks (b2, ?T) c)"
    if "slots ?T x = Some (Built b1)" "slots ?T y = Some (Built b2)" "x \<noteq> y" "icon b1 = Some i" for x y b1 b2 i
    using ok old [OF that(1)] old [OF that(2)] that(3,4) unfolding boxes_ok_def inst_ok_page(2) [of b2 ?T S] by blast
  moreover have "\<not> marked ?T l checkedC" if l: "l \<in> set (in_labels (inp ?T x))" "\<forall>b. slots ?T x = Some (Built b) \<longrightarrow> l \<noteq> box_label b" for x l
  proof (cases "x = e \<and> l = box_label b")
    case True
    then show ?thesis using p(6) by simp
  next
    case False
    then have "\<forall>b. slots S x = Some (Built b) \<longrightarrow> l \<noteq> box_label b" using l(2) p(4) e by (cases "x = e") auto
    then have "\<not> marked S l checkedC" using ok l(1) unfolding boxes_ok_def p(1) by blast
    then show ?thesis using p(7) watched_literals by blast
  qed
  moreover have "readType (inp ?T x) \<noteq> None" if "slots ?T x = Some (Failed (WrongType n t))" for x n t
    using ok old [OF that] unfolding boxes_ok_def p(1) by blast
  moreover have "N \<le> fresh_node ?T" using ok by (simp add: boxes_ok_def p(3))
  ultimately show ?thesis unfolding boxes_ok_def by (intro conjI allI impI ballI) blast+
qed

text \<open>The handlers of the instance go, and the handler of the form with the last instance of it.\<close>

lemma outside_resetters: "s \<noteq> reset_space \<Longrightarrow> \<forall>h \<in> set (resetters f T). is_resetter h \<Longrightarrow>
    filter (\<lambda>h. reset_space \<in> set (namespace h)) (outside s (handlers (handlers_for f (u ''reset'') T))) = resetters f T"
  by (auto simp: outside_def resetters_def is_resetter_def intro!: filter_cong)

lemma off_own:
  assumes "own_space ns" "types_ok fs T" "\<forall>h \<in> set (resetters f T). is_resetter h"
  shows "resetters f (off fs es ns Missing Missing T) = resetters f T"
proof -
  obtain s where s: "ns = 46 # s" "word_space s" "s \<noteq> reset_space" using assms(1) by (auto simp: own_space_def)
  have "handlers (handlers_for f (u ''reset'') (off fs es ns Missing Missing T)) =
      (if f \<in> set es then outside s (handlers (handlers_for f (u ''reset'') T)) else handlers (handlers_for f (u ''reset'') T))"
    using off_space [OF s(2) assms(2)] s(1) by simp
  then show ?thesis using outside_resetters [OF s(3) assms(3)] by (simp add: resetters_def)
qed

lemma view_resetters: "view_ok fs (B, R, T) \<Longrightarrow> \<forall>h \<in> set (resetters f T). is_resetter h"
  by (cases "R f") (auto simp: form_ok_def dest!: spec [of _ f])

lemma view_off:
  assumes "view_ok fs (B, R, T)" "own_space ns"
  shows "view_ok fs (B, R, off fs es ns Missing Missing T)"
proof -
  have ty: "types_ok fs T" using assms(1) by simp
  show ?thesis using assms(1) types_ok_off [OF ty] off_own [OF assms(2) ty view_resetters [OF assms(1)]] by (rule view_tables)
qed

lemma unbind_view:
  assumes "view_ok (focusin br) (B, resets (snd I), tabs (snd I))" "B e = Some (box_form (fst I), ns)"
  defines "J \<equiv> unbindFormResetHandler br e I"
  shows "view_ok (focusin br) (B(e := None), resets (snd J), tabs (snd J))"
proof (cases "box_form (fst I)")
  case None
  then show ?thesis using view_remove(1) [OF assms(1,2) None] by (simp add: J_def unbindFormResetHandler_def)
next
  case (Some f)
  obtain l where l: "resets (snd I) f = Some l" "e \<in> set l" using view_remove(4) [OF assms(1,2) Some] by blast
  then have "splice_out e (reset_list f (snd I)) = remove1 e l" by (simp add: splice_out_def reset_list_def)
  then show ?thesis using view_remove(2,3) [OF assms(1,2) Some l(1)] Some by (simp add: J_def unbindFormResetHandler_def Let_def)
qed

lemma destroy_view:
  assumes vw: "view_ok (focusin br) (forms_view S)" and e: "slots S e = Some (Built b)"
  shows "view_ok (focusin br) (forms_view (destroyBox br e (b, S)))"
proof -
  let ?T = "destroyBox br e (b, S)"
  let ?K = "unbindFormResetHandler br e (b, S)"
  let ?J = "before_destroy br e (b, S)"
  let ?ns = "eventNamespace (box_widget b)"
  let ?B = "fst (forms_view S)"
  have B: "?B e = Some (box_form (fst (b, S)), ?ns)" using e by (simp add: forms_view_def)
  have v: "view_ok (focusin br) (?B, resets (snd (b, S)), tabs (snd (b, S)))" using vw by (simp add: forms_view_def)
  have ns: "own_space ?ns" using v B by simp
  note d = before_destroy_effect(1) [where br = br and e = e and I = "(b, S)"]
  note f = same_fields [OF d]
  have T: "?T = (let S = snd (widget_do (destroy (focusin br)) ?J) in S\<lparr>slots := (slots S)(e := None)\<rparr>)" by (rule destroyBox_eq)
  have p: "pframe (widget_do (destroy (focusin br)) ?J) = pframe ?J" "pframe ?J = pframe ?K" using d by (simp_all add: same_def)
  have J: "eventNamespace (box_widget (fst ?J)) = ?ns" "tabs (snd ?J) = tabs (snd ?K)" using d frameD [of ?J ?K] by (simp_all add: same_def)
  have "forms_view ?T = (?B(e := None), resets (snd ?K), tables (destroy (focusin br) (loaded ?J)))"
    using p by (auto simp: T forms_view_def pframe_def Let_def fun_eq_iff)
  moreover have "eventNamespace (loaded ?J) = ?ns" "tables (loaded ?J) = tabs (snd ?K)" using J by (simp_all add: loaded_def)
  ultimately show ?thesis using unbind_view [OF v B] by (simp only: destroy_tables) (intro view_off ns)
qed

subsection \<open>The steps of a page\<close>

text \<open>The state is the page with the forms for which a timer of \<open>_formResetHandler\<close> is pending. Each handler of the name space
  \<open>ui-form-reset\<close> that a form has when it is reset starts one timer. An option is set by its name, and the option \<open>classes\<close> is left
  alone. The plug-in makes an instance only for an element that has none, not even a failed one. A click reaches an input that is not disabled; that of an input without a widget is about no group with widgets.\<close>

definition clickable :: "nat \<Rightarrow> bpage \<Rightarrow> bool" where
  "clickable e S \<longleftrightarrow> \<not> in_disabled (inp S e) \<and> u ''ui-state-disabled'' \<notin> set (cls S e) \<and>
     (is_built S e \<or> (\<forall>x. is_built S x \<longrightarrow> \<not> same_group (inp S e) (inp S x)))"

inductive box_step :: "browser \<Rightarrow> bpage \<times> nat list \<Rightarrow> bpage \<times> nat list \<Rightarrow> bool" for br where
  create: "slots S e = None \<Longrightarrow> client_ok br e copts S \<Longrightarrow> createBox br e copts S = (err, S') \<Longrightarrow> box_step br (S, P) (S', P)"
| click: "clickable e S \<Longrightarrow> handle_change e (browser_click e S) = (err, S') \<Longrightarrow> box_step br (S, P) (S', P)"
| reset: "box_step br (S, P) (browser_reset f defaults S, P @ map (\<lambda>h. f) (resetters f (tabs S)))"
| timer: "f \<in> set P \<Longrightarrow> box_step br (S, P) (reset_timeout br f S, remove1 f P)"
| focus: "box_step br (S, P) (handle_focus gained e S, P)"
| set: "k \<noteq> Key (u ''classes'') \<Longrightarrow> box_step br (S, P) (on_box (box_setOptions br e (JObj Plain [(k, v)])) e S, P)"
| refresh: "box_step br (S, P) (on_box (refresh br e) e S, P)"
| destroy: "slots S e = Some (Built b) \<Longrightarrow> box_step br (S, P) (destroyBox br e (b, S), P)"

definition box_start :: "nat \<Rightarrow> bpage \<Rightarrow> bool" where
  "box_start N S \<longleftrightarrow> N \<le> fresh_node S \<and> static N S \<and> slots S = (\<lambda>_. None) \<and> resets S = (\<lambda>_. None) \<and> tabs S = no_handlers \<and>
     (\<forall>x. \<forall>l \<in> set (in_labels (inp S x)). u ''ui-checkboxradio-checked'' \<notin> set (cls S l))"

text \<open>The instances that a pending timer will refresh.\<close>

definition waiting :: "nat list \<Rightarrow> bpage \<Rightarrow> nat \<Rightarrow> bool" where
  "waiting P S e \<longleftrightarrow> (\<exists>f \<in> set P. \<exists>ns. fst (forms_view S) e = Some (Some f, ns))"

definition named :: "nat \<Rightarrow> bpage \<Rightarrow> bool" where
  "named N S \<longleftrightarrow> (\<forall>e b. slots S e = Some (Built b) \<longrightarrow> keys_ok (box_widget b) \<and> (\<forall>n. iconSpace b = Some n \<longrightarrow> N \<le> n))"

fun page_ok :: "browser \<Rightarrow> nat \<Rightarrow> bpage \<times> nat list \<Rightarrow> bool" where
  "page_ok br N (S, P) \<longleftrightarrow> boxes_ok N (waiting P S) S \<and> view_ok (focusin br) (forms_view S) \<and> named N S"

lemma named_names: "named N S \<Longrightarrow> N \<le> fresh_node S \<Longrightarrow> slots S e = Some (Built b) \<Longrightarrow> names_ok N (b, S)"
  by (simp add: named_def names_ok_def)

lemma named_slot: "named N S \<Longrightarrow> slots S' = (slots S)(e := s) \<Longrightarrow> (\<And>b. s = Some (Built b) \<Longrightarrow> names_ok N (b, T)) \<Longrightarrow> named N S'"
  by (auto simp: named_def names_ok_def)

lemma named_store: "named N S \<Longrightarrow> slots (snd J) = slots S \<Longrightarrow> names_ok N J \<Longrightarrow> named N (store e J)"
  by (auto simp: named_def names_ok_def)

lemma named_method:
  assumes "named N S" "N \<le> fresh_node S" "\<And>b. slots S e = Some (Built b) \<Longrightarrow> slots (snd (m (b, S))) = slots S" "\<And>I. names_ok N I \<Longrightarrow> names_ok N (m I)"
  shows "named N (on_box m e S)"
  using assms named_names [of N S e] by (auto simp: on_box_def intro!: named_store split: option.splits slot.splits)

lemma named_unmark:
  assumes "named N S" "N \<le> fresh_node S"
  shows "named N (snd (unmark_each xs S))"
  using assms
proof (induction xs arbitrary: S)
  case (Cons x xs)
  have "named N (store x (mark_label False (b, S)))" if "slots S x = Some (Built b)" for b
    using Cons.prems(1) _ names_mark [OF named_names [OF Cons.prems that]]
    by (rule named_store) (use same_fields [OF mark_label_same [of "(b, S)" False]] in simp)
  then show ?case using Cons by (auto split: option.splits slot.splits box_error.splits)
qed simp


lemma waiting_view: "forms_view S' = forms_view S \<Longrightarrow> waiting P S' = waiting P S"
  by (simp add: waiting_def fun_eq_iff)

lemma waiting_built: "waiting P S e \<Longrightarrow> is_built S e"
  by (auto simp: waiting_def built_view)

lemma page_nodes: "page_ok br N (S, P) \<Longrightarrow> N \<le> fresh_node S"
  by (simp add: boxes_ok_def)

context box_method
begin

lemma method_slots: "boxes_ok N X S \<Longrightarrow> slots S e = Some (Built b) \<Longrightarrow> slots (snd (meth e (b, S))) = slots S"
  using same_but_fields(4) [OF rest [of N e "(b, S)"]] by (simp add: boxes_ok_def)

lemma method_page:
  assumes "page_ok br N (S, P)" "\<And>I. names_ok N I \<Longrightarrow> names_ok N (meth e I)"
  shows "page_ok br N (on_box (meth e) e S, P)"
proof -
  have ok: "boxes_ok N (waiting P S) S" "view_ok (focusin br) (forms_view S)" "named N S" using assms(1) by simp_all
  note v = method_view [OF ok(1), of e]
  have "named N (on_box (meth e) e S)" using ok(3) page_nodes [OF assms(1)] method_slots [OF ok(1)] assms(2) by (rule named_method)
  with method_keeps [OF ok(1), of e] ok(2) v show ?thesis by (simp add: waiting_view [OF v])
qed

end

lemma set_single: "k \<noteq> Key (u ''classes'') \<Longrightarrow> box_setOptions br e (JObj Plain [(k, v)]) = set_plain br k v e"
  by (rule ext) (simp add: box_setOptions_def set_plain_def for_in_def)

lemma create_page:
  assumes "page_ok br N (S, P)" "\<not> is_built S e" "client_ok br e copts S"
  shows "page_ok br N (snd (createBox br e copts S), P)"
proof -
  let ?T = "snd (createBox br e copts S)"
  have ok: "boxes_ok N (waiting P S) S" "view_ok (focusin br) (forms_view S)" "named N S" using assms(1) by simp_all
  have ty: "types_ok (focusin br) (tabs S)" using ok(2) by (simp add: forms_view_def)
  note c = create_ok [OF ok(1,2) assms(2,3)]
  have "\<exists>s. slots ?T = (slots S)(e := s) \<and> (\<forall>b. s = Some (Built b) \<longrightarrow> (\<exists>T. names_ok N (b, T)))"
  proof (cases "getCreateOptions br e S")
    case (Inl err)
    then have "getCreateOptions br e (snd (start_instance br e S)) = Inl err" unfolding getCreateOptions_def start_instance_effect(7,11) [OF ty] .
    then show ?thesis using start_instance_effect(8) [OF ty, of e] by (intro exI [of _ "Some (Failed err)"]) (simp add: createBox_def Let_def)
  next
    case (Inr r)
    obtain b Z where Z: "createBox br e copts S = (None, store e Z)" "created br N e S b Z" using create_built [OF ok(1,2) assms(2,3) Inr] by blast
    have C: "createBox br e copts S = (None, store e (last_touch (box_create br e (new_instance br e copts S r))))" by (rule createBox_eq [OF Inr ty])
    have nm: "names_ok N (last_touch (box_create br e (new_instance br e copts S r)))" using page_nodes [OF assms(1)] by (intro names_last_touch names_create names_new)
    have "slots ?T = (slots S)(e := Some (Built (fst Z)))" using Z by (simp add: created_def)
    moreover have "slots ?T e = Some (Built (fst (last_touch (box_create br e (new_instance br e copts S r)))))" by (simp add: C)
    ultimately show ?thesis using nm by (metis fun_upd_same option.inject slot.inject(1) prod.collapse)
  qed
  then obtain s where s: "slots ?T = (slots S)(e := s)" "\<And>b. s = Some (Built b) \<Longrightarrow> \<exists>T. names_ok N (b, T)" by blast
  have "named N ?T" using ok(3) s(2) unfolding named_def s(1) by (auto simp: names_ok_def)
  moreover have "waiting P S x \<Longrightarrow> waiting P ?T x" for x
    using waiting_built [of P S x] assms(2) s(1) by (cases "x = e") (auto simp: waiting_def forms_view_def)
  then have "boxes_ok N (waiting P ?T) ?T" using conjunct1 [OF c] by (rule boxes_ok_weaken [rotated])
  ultimately show ?thesis using c by simp
qed

lemma destroy_step:
  assumes "page_ok br N (S, P)" "slots S e = Some (Built b)"
  shows "page_ok br N (destroyBox br e (b, S), P)"
proof -
  let ?T = "destroyBox br e (b, S)"
  have ok: "boxes_ok N (waiting P S) S" "view_ok (focusin br) (forms_view S)" "named N S" using assms(1) by simp_all
  have nm: "names_ok N (b, S)" using named_names [OF ok(3) page_nodes [OF assms(1)] assms(2)] .
  have b: "box_ok N e (b, S)" "\<forall>l \<in> set (in_labels (inp S e)). l < N" using ok(1) assms(2) by (auto simp: boxes_ok_def static_def)
  have sl: "slots ?T = (slots S)(e := None)" by (rule destroy_page(4) [OF b(1) nm b(2)])
  have "boxes_ok N (waiting P S) ?T" using ok(1) assms(2) nm by (rule destroy_keeps)
  then have "boxes_ok N (waiting P ?T) ?T" by (rule boxes_ok_weaken) (use sl in \<open>auto simp: waiting_def forms_view_def is_built_def\<close>)
  moreover have "named N ?T" using ok(3) sl by (rule named_slot) simp
  ultimately show ?thesis using destroy_view [OF ok(2) assms(2)] by simp
qed


lemma click_page:
  assumes "page_ok br N (S, P)" "clickable e S"
  shows "fst (handle_change e (browser_click e S)) = None" "page_ok br N (snd (handle_change e (browser_click e S)), P)"
proof -
  let ?T = "browser_click e S"
  have ok: "boxes_ok N (waiting P S) S" "view_ok (focusin br) (forms_view S)" "named N S" using assms(1) by simp_all
  obtain S' where S': "handle_change e ?T = (None, S')" "boxes_ok N (waiting P S) S'" "forms_view S' = forms_view S"
    using click_ok [OF ok(1)] assms(2) by (auto simp: clickable_def)
  show "fst (handle_change e ?T) = None" using S'(1) by simp
  have T: "slots ?T = slots S" "fresh_node ?T = fresh_node S" by (simp_all add: browser_click_def set_checked_def)
  then have nT: "named N ?T" "N \<le> fresh_node ?T" using ok(3) page_nodes [OF assms(1)] by (simp_all add: named_def)
  have "named N (store e (mark_state e (b, ?T)))" if "slots ?T e = Some (Built b)" for b
    using nT(1) _ names_mark_state [OF named_names [OF nT that]] by (rule named_store) (use same_fields [OF mark_state_same [of "(b, ?T)" e]] in simp)
  moreover have "fresh_node (store e (mark_state e (b, ?T))) = fresh_node ?T" for b by (simp add: mark_state_def)
  ultimately have "named N (snd (handle_change e ?T))"
    using nT named_unmark by (auto simp: handle_change_def toggleClasses_eq split: option.splits slot.splits)
  with S' ok(2) show "page_ok br N (snd (handle_change e ?T), P)" by (simp add: waiting_view [OF S'(3)])
qed

lemma reset_page:
  assumes "page_ok br N (S, P)"
  shows "page_ok br N (browser_reset f defaults S, P @ map (\<lambda>h. f) (resetters f (tabs S)))"
proof -
  let ?T = "browser_reset f defaults S"
  let ?P = "P @ map (\<lambda>h. f) (resetters f (tabs S))"
  have ok: "boxes_ok N (waiting P S) S" "view_ok (focusin br) (forms_view S)" "named N S" using assms by simp_all
  have v: "forms_view ?T = forms_view S" by (simp add: browser_reset_def set_checked_def forms_view_def)
  define X where "X = (\<lambda>x. waiting P S x \<or> in_form (inp S x) = Some f)"
  have "boxes_ok N (\<lambda>x. waiting P S x \<or> (if in_form (inp S x) = Some f then defaults x else in_checked (inp S x)) \<noteq> in_checked (inp S x)) ?T"
    unfolding browser_reset_def by (rule set_checked_ok [OF ok(1)])
  then have X: "boxes_ok N X ?T" by (rule boxes_ok_weaken) (auto simp: X_def)
  have "waiting ?P S x" if x: "is_built S x" "X x" for x
  proof (cases "waiting P S x")
    case False
    then have f: "in_form (inp S x) = Some f" using x(2) by (simp add: X_def)
    obtain b where b: "slots S x = Some (Built b)" using x(1) by (auto simp: is_built_def split: option.splits slot.splits)
    then have "box_form b = Some f" using ok(1) f by (auto simp: boxes_ok_def box_ok_def Let_def)
    then have B: "fst (forms_view S) x = Some (Some f, eventNamespace (box_widget b))" using b by (simp add: forms_view_def)
    have "form_ok (fst (forms_view S)) (tabs S) f (resets S f)" using ok(2) by (simp add: forms_view_def)
    then have "f \<in> set ?P" using B by (cases "resets S f") (auto simp: form_ok_def)
    then show ?thesis using B by (auto simp: waiting_def)
  qed (auto simp: waiting_def)
  then have "boxes_ok N (waiting ?P ?T) ?T" using X view_built [OF v] by (auto simp: waiting_view [OF v] elim!: boxes_ok_weaken)
  moreover have "named N ?T" using ok(3) by (simp add: named_def browser_reset_def set_checked_def)
  ultimately show ?thesis using ok(2) v by simp
qed

lemma refresh_each:
  assumes "boxes_ok N X S" "named N S"
  shows "boxes_ok N (\<lambda>x. X x \<and> x \<notin> set es) (fold (\<lambda>e. on_box (refresh br e) e) es S)" "forms_view (fold (\<lambda>e. on_box (refresh br e) e) es S) = forms_view S"
    "named N (fold (\<lambda>e. on_box (refresh br e) e) es S)"
proof -
  have "boxes_ok N (\<lambda>x. X x \<and> x \<notin> set es) (fold (\<lambda>e. on_box (refresh br e) e) es S) \<and> forms_view (fold (\<lambda>e. on_box (refresh br e) e) es S) = forms_view S \<and>
      named N (fold (\<lambda>e. on_box (refresh br e) e) es S)"
    using assms
  proof (induction es arbitrary: S X)
    case (Cons e es)
    let ?T = "on_box (refresh br e) e S"
    have T: "boxes_ok N (X(e := False)) ?T" using Cons.prems(1) by (rule refresh_restores)
    have N: "N \<le> fresh_node S" using Cons.prems(1) by (simp add: boxes_ok_def)
    have "named N ?T" using Cons.prems(2) N refreshing.method_slots [OF Cons.prems(1)] names_refresh by (rule named_method)
    note IH = Cons.IH [OF T this]
    have "boxes_ok N (\<lambda>x. X x \<and> x \<notin> set (e # es)) (fold (\<lambda>e. on_box (refresh br e) e) es ?T)"
      using conjunct1 [OF IH] by (rule boxes_ok_weaken) (auto split: if_splits)
    with IH refreshing.method_view [OF Cons.prems(1), of br e] show ?case by simp
  qed simp
  then show "boxes_ok N (\<lambda>x. X x \<and> x \<notin> set es) (fold (\<lambda>e. on_box (refresh br e) e) es S)" "forms_view (fold (\<lambda>e. on_box (refresh br e) e) es S) = forms_view S"
    "named N (fold (\<lambda>e. on_box (refresh br e) e) es S)" by blast+
qed

lemma timer_page:
  assumes "page_ok br N (S, P)"
  shows "page_ok br N (reset_timeout br f S, remove1 f P)"
proof -
  let ?T = "reset_timeout br f S"
  have ok: "boxes_ok N (waiting P S) S" "view_ok (focusin br) (forms_view S)" "named N S" using assms by simp_all
  note r = refresh_each [OF ok(1,3), where br = br and es = "reset_list f S", folded reset_timeout_def]
  have fo: "form_ok (fst (forms_view S)) (tabs S) f (resets S f)" using ok(2) by (simp add: forms_view_def)
  have "waiting (remove1 f P) S x" if w: "waiting P S x" "x \<notin> set (reset_list f S)" for x
  proof -
    obtain g ns where g: "g \<in> set P" "fst (forms_view S) x = Some (Some g, ns)" using w(1) by (auto simp: waiting_def)
    then have "g \<noteq> f" using fo w(2) by (cases "resets S f") (auto simp: form_ok_def reset_list_def)
    with g show ?thesis by (auto simp: waiting_def)
  qed
  then have "boxes_ok N (waiting (remove1 f P) ?T) ?T" using r(1) by (auto simp: waiting_view [OF r(2)] elim!: boxes_ok_weaken)
  with r(2,3) ok(2) show ?thesis by simp
qed

text \<open>Every step keeps the page in order.\<close>

lemma step_page: "box_step br s s' \<Longrightarrow> page_ok br N s \<Longrightarrow> page_ok br N s'"
proof (induction rule: box_step.induct)
  case (create S e copts err S' P)
  then show ?case using create_page [of br N S P e copts] by (simp add: is_built_def)
next
  case (click e S err S' P)
  then show ?case using click_page(2) [of br N S P e] by simp
next
  case (focus S P gained e)
  then show ?case unfolding handle_focus_method by (rule focusing.method_page) (rule names_focus)
next
  case (set k S P e v)
  then show ?case unfolding set_single [OF set(1)] by (intro plain_option.method_page names_set_plain)
next
  case (refresh S P e)
  then show ?case by (rule refreshing.method_page) (rule names_refresh)
qed (rule reset_page timer_page destroy_step, assumption+)+

lemma start_page: "box_start N S \<Longrightarrow> page_ok br N (S, [])"
proof -
  assume s: "box_start N S"
  have "boxes_ok N X S" for X using s by (auto simp: box_start_def boxes_ok_def marked_def checkedC_def)
  moreover have "resetters f no_handlers = []" for f by (simp add: resetters_def handlers_for_def no_handlers_def)
  then have "view_ok (focusin br) (forms_view S)" using s types_ok_none by (auto simp: box_start_def forms_view_def form_ok_def)
  ultimately show ?thesis using s by (simp add: named_def box_start_def)
qed

lemma run_page: "(box_step br)\<^sup>*\<^sup>* (S0, []) s \<Longrightarrow> box_start N S0 \<Longrightarrow> page_ok br N s"
proof (induction rule: rtranclp_induct)
  case base
  then show ?case by (rule start_page)
next
  case (step s s')
  then show ?case using step_page by blast
qed

subsection \<open>What holds on the page\<close>

text \<open>The next theorems are about a page that starts without widgets, at any time after.\<close>

text \<open>C16. Labels and icons show the inputs: at any time, for every instance whose form has no reset pending, the label has the class
  of a checked input exactly if the input is checked, and so has the icon of a checkbox its mark.\<close>

theorem labels_show_inputs:
  assumes "box_start N S0" "(box_step br)\<^sup>*\<^sup>* (S0, []) (S, P)" "slots S e = Some (Built b)" "\<forall>f \<in> set P. box_form b \<noteq> Some f"
  shows "(u ''ui-checkboxradio-checked'' \<in> set (cls S (box_label b))) = in_checked (inp S e) \<and>
    (\<forall>i. icon b = Some i \<and> box_type b = u ''checkbox'' \<longrightarrow>
      (u ''ui-icon-check'' \<in> set (cls S i)) = in_checked (inp S e) \<and> (u ''ui-icon-blank'' \<in> set (cls S i)) = (\<not> in_checked (inp S e)))"
proof -
  have ok: "boxes_ok N (waiting P S) S" using run_page [OF assms(2,1)] by simp
  have "\<not> waiting P S e" using assms(3,4) by (auto simp: waiting_def forms_view_def)
  then have "shows_state e (b, S)" using ok assms(3) by (simp add: boxes_ok_def)
  then show ?thesis by (simp add: shows_state_def has_def checkedC_def checkC_def blankC_def Let_def)
qed

text \<open>C17. The list of a form has the instances of its inputs, once each, and the form has the shared handler for resets once, as long
  as there are any: no instance of a form is missed by a reset, none is refreshed twice, and nothing is left on a form without instances.\<close>

theorem reset_handler_shared:
  assumes "box_start N S0" "(box_step br)\<^sup>*\<^sup>* (S0, []) (S, P)"
  shows "distinct (reset_list f S) \<and> set (reset_list f S) = {e. \<exists>b. slots S e = Some (Built b) \<and> in_form (inp S e) = Some f} \<and>
    map hfn (resetters f (tabs S)) = (if reset_list f S = [] then [] else [Fn FormResetFn])"
proof -
  have ok: "boxes_ok N (waiting P S) S" "view_ok (focusin br) (forms_view S)" using run_page [OF assms(2,1)] by simp_all
  have fo: "form_ok (fst (forms_view S)) (tabs S) f (resets S f)" using ok(2) by (simp add: forms_view_def)
  have "box_form b = in_form (inp S e)" if "slots S e = Some (Built b)" for e b using ok(1) that by (simp add: boxes_ok_def box_ok_def Let_def)
  then have "(\<exists>b. slots S e = Some (Built b) \<and> in_form (inp S e) = Some f) \<longleftrightarrow> (\<exists>ns. fst (forms_view S) e = Some (Some f, ns))" for e
    by (auto simp: forms_view_def split: option.splits slot.splits)
  then show ?thesis using fo by (cases "resets S f") (auto simp: form_ok_def reset_list_def is_resetter_def)
qed

text \<open>No click makes the handler of \<open>change\<close> fail, although it calls the widgets of the other radio buttons of the group, of which
  some may have none and some a failed one.\<close>

theorem change_never_fails:
  assumes "box_start N S0" "(box_step br)\<^sup>*\<^sup>* (S0, []) (S, P)"
  shows "fst (handle_change e (browser_click e S)) = None"
proof (cases "\<exists>b. slots (browser_click e S) e = Some (Built b) \<and> runs False e (loaded (b, browser_click e S))")
  case True
  let ?T = "browser_click e S"
  obtain b where b: "slots ?T e = Some (Built b)" "runs False e (loaded (b, ?T))" using True by blast
  have ok: "boxes_ok N (waiting P S) S" using run_page [OF assms(2,1)] by simp
  have "\<exists>X. boxes_ok N X ?T" using set_checked_ok [OF ok] unfolding browser_click_def by blast
  then obtain X where X: "boxes_ok N X ?T" by blast
  note p = browser_click_page [where e = e and S = S]
  have un: "\<not> in_checked (inp ?T x)" if "x \<noteq> e" "same_group (inp ?T e) (inp ?T x)" for x
    using that p(8) [OF that(1)] same_group_cong [OF p(7) p(7)] by simp
  show ?thesis using change_ok [OF X b un] by auto
next
  case False
  then show ?thesis by (auto simp: handle_change_def split: option.splits slot.splits)
qed

text \<open>Timers leave the inputs as they are.\<close>

context box_method
begin

lemma method_checked:
  assumes "boxes_ok N X S"
  shows "in_checked (inp (on_box (meth e) e S) x) = in_checked (inp S x)"
proof (cases "\<exists>b. slots S e = Some (Built b)")
  case True
  then obtain b where b: "slots S e = Some (Built b)" by blast
  then have "local_effect e (b, S) (meth e (b, S))" using assms effect [of N e "(b, S)"] by (simp add: boxes_ok_def)
  then obtain d where "inp (snd (meth e (b, S))) = (inp S)(e := (inp S e)\<lparr>in_disabled := d\<rparr>)" by (auto simp: local_effect_def)
  then show ?thesis by (simp add: on_box_def b)
qed (auto simp: on_box_def split: option.splits slot.splits)

end

lemma timeout_checked:
  assumes "boxes_ok N X S"
  shows "in_checked (inp (reset_timeout br f S) x) = in_checked (inp S x)"
proof -
  have "in_checked (inp (fold (\<lambda>e. on_box (refresh br e) e) es S) x) = in_checked (inp S x)" for es using assms
  proof (induction es arbitrary: S X)
    case (Cons e es)
    then show ?case using refreshing.method_checked [OF Cons.prems] Cons.IH [OF refreshing.method_keeps [OF Cons.prems]] by simp
  qed simp
  then show ?thesis by (simp add: reset_timeout_def)
qed

lemma timers_run:
  assumes "page_ok br N (S, P)"
  shows "(box_step br)\<^sup>*\<^sup>* (S, P) (fold (reset_timeout br) P S, []) \<and> page_ok br N (fold (reset_timeout br) P S, []) \<and>
    (\<forall>x. in_checked (inp (fold (reset_timeout br) P S) x) = in_checked (inp S x))"
  using assms
proof (induction P arbitrary: S)
  case (Cons f P)
  let ?T = "reset_timeout br f S"
  have st: "box_step br (S, f # P) (?T, P)" using box_step.timer [of f "f # P" br S] by simp
  have "page_ok br N (?T, P)" using step_page [OF st Cons.prems] .
  note IH = Cons.IH [OF this]
  have ok: "boxes_ok N (waiting (f # P) S) S" using Cons.prems by simp
  have "in_checked (inp ?T x) = in_checked (inp S x)" for x by (rule timeout_checked [OF ok])
  then show ?case using IH converse_rtranclp_into_rtranclp [OF st conjunct1 [OF IH]] by simp
qed simp

text \<open>C18. After a reset the page settles: when the pending timers have run, in their order, nothing is pending, the inputs are as the
  reset left them, and every instance shows its input.\<close>

theorem resets_settle:
  assumes "box_start N S0" "(box_step br)\<^sup>*\<^sup>* (S0, []) (S, P)"
  shows "(box_step br)\<^sup>*\<^sup>* (S, P) (fold (reset_timeout br) P S, []) \<and>
    (\<forall>x. in_checked (inp (fold (reset_timeout br) P S) x) = in_checked (inp S x)) \<and>
    (\<forall>e b. slots (fold (reset_timeout br) P S) e = Some (Built b) \<longrightarrow> shows_state e (b, fold (reset_timeout br) P S))"
proof -
  note t = timers_run [OF run_page [OF assms(2,1)]]
  have "boxes_ok N (waiting [] (fold (reset_timeout br) P S)) (fold (reset_timeout br) P S)" using t by simp
  moreover have "\<not> waiting [] S e" for S e by (simp add: waiting_def)
  ultimately show ?thesis using t unfolding boxes_ok_def by blast
qed


subsection \<open>An example\<close>

definition demo_box :: input where
  "demo_box = \<lparr>in_node = u ''INPUT'', in_type = u ''checkbox'', in_name = u ''a'', in_form = Some 5, in_labels = [1], in_checked = True, in_disabled = False\<rparr>"

definition demo_other :: input where
  "demo_other = \<lparr>in_node = u ''LABEL'', in_type = [], in_name = [], in_form = None, in_labels = [], in_checked = False, in_disabled = False\<rparr>"

definition demo_boxes :: bpage where
  "demo_boxes = \<lparr>inp = (\<lambda>x. if x = 0 then demo_box else demo_other), elems = [0], kids = (\<lambda>_. []), cls = (\<lambda>_. []), tabs = no_handlers,
     slots = (\<lambda>_. None), resets = (\<lambda>_. None), fresh_node = 10, uuid = 0\<rparr>"

definition demo_host :: "Checkboxradio.browser" where
  "demo_host = \<lparr>focusin = False, outerHTML = (\<lambda>_. []), parseHTML = (\<lambda>_. [])\<rparr>"

definition demo_created :: bpage where
  "demo_created = snd (createBox demo_host 0 (JObj Plain []) demo_boxes)"

lemma demo_types: "readType demo_box = None" "lower (in_node demo_box) = u ''input''" "lower (in_node demo_other) \<noteq> u ''input''" "readType demo_other \<noteq> None"
  by (simp_all add: readType_def demo_box_def demo_other_def lower_def u_def Let_def)

lemma demo_options: "getCreateOptions demo_host 0 demo_boxes = Inr (1, [], JObj Plain [(Key (u ''disabled''), JBool False)])"
proof -
  have "inp demo_boxes 0 = demo_box" "kids demo_boxes 1 = []" by (simp_all add: demo_boxes_def)
  then show ?thesis by (simp add: getCreateOptions_def demo_types) (simp add: demo_box_def label_text_def)
qed

lemma demo_classes: "get (create_options box_proto (JObj Plain [(Key (u ''disabled''), JBool False)]) (JObj Plain [])) (Key (u ''classes'')) =
    obj [(''ui-checkboxradio-label'', JStr (u ''ui-corner-all'')), (''ui-checkboxradio-icon'', JStr (u ''ui-corner-all''))]"
  by code_simp

lemma demo_client: "client_ok demo_host 0 (JObj Plain []) demo_boxes"
proof -
  have "words_of (u ''ui-corner-all'') = [u ''ui-corner-all'']" by code_simp
  then have "option_words (obj [(''ui-checkboxradio-label'', JStr (u ''ui-corner-all'')), (''ui-checkboxradio-icon'', JStr (u ''ui-corner-all''))]) k \<subseteq> {u ''ui-corner-all''}" for k
    by (auto simp: option_words_def get_def)
  moreover have "u ''ui-corner-all'' \<notin> watched" by (simp add: watched_def checkedC_def checkC_def blankC_def u_inject)
  ultimately have "ok_classes (obj [(''ui-checkboxradio-label'', JStr (u ''ui-corner-all'')), (''ui-checkboxradio-icon'', JStr (u ''ui-corner-all''))])"
    unfolding ok_classes_def by blast
  then show ?thesis by (simp add: client_ok_def demo_options demo_classes del: list.map)
qed

lemma demo_start: "box_start 10 demo_boxes"
proof -
  have i: "inp demo_boxes x = (if x = 0 then demo_box else demo_other)" "elems demo_boxes = [0]" for x by (simp_all add: demo_boxes_def)
  have f: "in_labels demo_box = [1]" "in_labels demo_other = []" "in_name demo_box = u ''a''" "in_name demo_other = []" "in_type demo_box = u ''checkbox''" "in_type demo_other = []"
    by (simp_all add: demo_box_def demo_other_def)
  have "static 10 demo_boxes" unfolding static_def i using demo_types f by (auto simp: u_def split: if_splits)
  then show ?thesis by (simp add: box_start_def) (simp add: demo_boxes_def)
qed

lemma demo_step: "box_step demo_host (demo_boxes, []) (demo_created, [])" "\<exists>b. slots demo_created 0 = Some (Built b)" "in_checked (inp demo_created 0)" "in_form (inp demo_created 0) = Some 5"
  "x \<noteq> 0 \<Longrightarrow> slots demo_created x = None"
proof -
  have none: "slots demo_boxes 0 = None" by (simp add: demo_boxes_def)
  then have un: "\<not> is_built demo_boxes 0" by (simp add: is_built_def)
  have p: "page_ok demo_host 10 (demo_boxes, [])" by (rule start_page [OF demo_start])
  show "box_step demo_host (demo_boxes, []) (demo_created, [])"
    by (rule box_step.create [OF none demo_client, of "fst (createBox demo_host 0 (JObj Plain []) demo_boxes)"]) (simp add: demo_created_def)
  obtain b Z where Z: "createBox demo_host 0 (JObj Plain []) demo_boxes = (None, store 0 Z)" "created demo_host 10 0 demo_boxes b Z"
    using create_built [OF _ _ un demo_client demo_options] p by (metis page_ok.simps)
  show "\<exists>b. slots demo_created 0 = Some (Built b)" by (simp add: demo_created_def Z(1))
  show "x \<noteq> 0 \<Longrightarrow> slots demo_created x = None" using Z(2) by (simp add: demo_created_def Z(1) created_def) (simp add: demo_boxes_def)
  obtain d where "inp (snd Z) = (inp demo_boxes)(0 := (inp demo_boxes 0)\<lparr>in_disabled := d\<rparr>)" using Z(2) by (auto simp: created_def local_effect_def)
  then have "inp demo_created 0 = (inp demo_boxes 0)\<lparr>in_disabled := d\<rparr>" by (simp add: demo_created_def Z(1))
  then show "in_checked (inp demo_created 0)" "in_form (inp demo_created 0) = Some 5" by (simp_all add: demo_boxes_def demo_box_def)
qed


lemma demo_run: "(box_step demo_host)\<^sup>*\<^sup>* (demo_boxes, []) (demo_created, [])"
  using demo_step(1) by (rule r_into_rtranclp)

theorem labels_show_inputs_witness:
  "\<exists>b. slots demo_created 0 = Some (Built b) \<and> u ''ui-checkboxradio-checked'' \<in> set (cls demo_created (box_label b))"
proof -
  obtain b where b: "slots demo_created 0 = Some (Built b)" using demo_step(2) by blast
  then show ?thesis using labels_show_inputs [OF demo_start demo_run b] demo_step(3) by simp
qed

theorem reset_handler_shared_witness: "reset_list 5 demo_created = [0] \<and> map hfn (resetters 5 (tabs demo_created)) = [Fn FormResetFn]"
proof -
  note r = reset_handler_shared [OF demo_start demo_run, of 5]
  have "set (reset_list 5 demo_created) = {0}" using r demo_step(2,4,5) by (auto, metis option.distinct(1))
  then have "reset_list 5 demo_created = [0]" using r by (cases "reset_list 5 demo_created" rule: remdups_adj.cases) auto
  with r show ?thesis by simp
qed

theorem change_never_fails_witness: "fst (handle_change 0 (browser_click 0 demo_created)) = None"
  by (rule change_never_fails [OF demo_start demo_run])

theorem resets_settle_witness:
  "(box_step demo_host)\<^sup>*\<^sup>* (browser_reset 5 (\<lambda>_. False) demo_created, map (\<lambda>h. 5) (resetters 5 (tabs demo_created)))
    (fold (reset_timeout demo_host) (map (\<lambda>h. 5) (resetters 5 (tabs demo_created))) (browser_reset 5 (\<lambda>_. False) demo_created), [])"
proof -
  have "box_step demo_host (demo_created, []) (browser_reset 5 (\<lambda>_. False) demo_created, [] @ map (\<lambda>h. 5) (resetters 5 (tabs demo_created)))"
    by (rule box_step.reset)
  then have "(box_step demo_host)\<^sup>*\<^sup>* (demo_boxes, []) (browser_reset 5 (\<lambda>_. False) demo_created, map (\<lambda>h. 5) (resetters 5 (tabs demo_created)))"
    using rtranclp.rtrancl_into_rtrancl [OF demo_run] by simp
  then show ?thesis using resets_settle [OF demo_start] by blast
qed


end
