(* ===== verification/Queues.thy ===== *)
theory Queues
  imports JqCore
begin

text \<open>
  The queues of functions that jQuery attaches to elements: \<open>queue\<close>, \<open>dequeue\<close>, \<open>clearQueue\<close>, \<open>delay\<close> and \<open>promise\<close>.
  A function of a queue gets \<open>next\<close>, which takes the following one out; it may call it at once, later or never, and it may
  use the queues while it runs. So the model is a machine with a stack of the calls that are still to be made; what a
  function does is a parameter. The private data of an element are two maps, by the names under which \<open>dataPriv\<close> keeps
  the queues and their hooks. \<open>hooks.empty\<close> is a list of callbacks that fires once; its first callback removes it from the
  data of the element, so that the others are all that is kept here, and they are the \<open>resolve\<close> of promises.
\<close>

subsection \<open>The state\<close>

text \<open>An entry of a queue: the mark \<open>inprogress\<close>, a function of the program, or the function that \<open>delay\<close> adds.\<close>

datatype entry = InProgress | Run nat | Delay

text \<open>The argument \<open>data\<close> of \<open>queue\<close>.\<close>

datatype qdata = One entry | Many "entry list"

text \<open>\<open>stop\<close> is the timer that the method \<open>hooks.stop\<close> of a delay clears.\<close>

record hook =
  stop :: "nat option"
  resolvers :: "nat list"

datatype qop = QueueOn nat ustring qdata | Dequeue nat ustring | Promise "nat list" ustring | Resolve nat

datatype qevent = Added nat ustring entry | Replaced nat ustring "entry list" | Called nat ustring entry

text \<open>A promise is a number, with the variable \<open>count\<close> of its closure. The log is what the theorems talk about.\<close>

record qstate =
  queues :: "nat \<times> ustring \<Rightarrow> entry list option"
  hooks :: "nat \<times> ustring \<Rightarrow> hook option"
  timers :: "(nat \<times> nat \<times> ustring) list"
  next_timer :: nat
  promises :: "nat list"
  settled :: "nat list"
  qlog :: "qevent list"

definition or_fx :: "ustring \<Rightarrow> ustring" where
  "or_fx t = (if t = [] then u ''fx'' else t)"

definition queue_key :: "ustring \<Rightarrow> ustring" where
  "queue_key t = camelCase (or_fx t @ u ''queue'')"

definition hooks_key :: "ustring \<Rightarrow> ustring" where
  "hooks_key t = camelCase (t @ u ''queueHooks'')"

subsection \<open>Functions of one element\<close>

definition jq_queue :: "nat \<Rightarrow> ustring \<Rightarrow> qdata option \<Rightarrow> qstate \<Rightarrow> entry list \<times> qstate" where
  "jq_queue e t data S =
     (let k = queue_key t; q = queues S (e, k)
      in case data of
           None \<Rightarrow> (case q of None \<Rightarrow> [] | Some l \<Rightarrow> l, S)
         | Some (Many l) \<Rightarrow> (l, S\<lparr>queues := (queues S)((e, k) \<mapsto> l), qlog := qlog S @ [Replaced e k l]\<rparr>)
         | Some (One f) \<Rightarrow>
             (let l = (case q of None \<Rightarrow> [f] | Some l \<Rightarrow> l @ [f])
              in (l, S\<lparr>queues := (queues S)((e, k) \<mapsto> l), qlog := qlog S @ [Added e k f]\<rparr>)))"

definition queueHooks :: "nat \<Rightarrow> ustring \<Rightarrow> qstate \<Rightarrow> qstate" where
  "queueHooks e t S = (case hooks S (e, hooks_key t) of
     Some h \<Rightarrow> S
   | None \<Rightarrow> S\<lparr>hooks := (hooks S)((e, hooks_key t) \<mapsto> \<lparr>stop = None, resolvers = []\<rparr>)\<rparr>)"

text \<open>What is taken out of a queue, the rest, and \<open>startLength\<close>.\<close>

fun shift_queue :: "entry list \<Rightarrow> entry option \<times> entry list \<times> nat" where
  "shift_queue [] = (None, [], 0)"
| "shift_queue (f # q) =
     (if f = InProgress then (case q of [] \<Rightarrow> (None, [], length q) | g # r \<Rightarrow> (Some g, r, length q))
      else (Some f, q, Suc (length q)))"

text \<open>The array of a queue is changed in place; without a queue it is a new one that is stored nowhere.\<close>

definition put_queue :: "nat \<Rightarrow> ustring \<Rightarrow> entry list \<Rightarrow> qstate \<Rightarrow> qstate" where
  "put_queue e t q S = (if queues S (e, queue_key t) = None then S else S\<lparr>queues := (queues S)((e, queue_key t) \<mapsto> q)\<rparr>)"

definition set_stop :: "nat \<Rightarrow> ustring \<Rightarrow> nat option \<Rightarrow> qstate \<Rightarrow> qstate" where
  "set_stop e t s S = S\<lparr>hooks := (hooks S)((e, hooks_key t) := map_option (\<lambda>h. h\<lparr>stop := s\<rparr>) (hooks S (e, hooks_key t)))\<rparr>"

definition fire_empty :: "nat \<Rightarrow> ustring \<Rightarrow> qstate \<Rightarrow> qop list \<times> qstate" where
  "fire_empty e t S =
     (case hooks S (e, hooks_key t) of None \<Rightarrow> [] | Some h \<Rightarrow> map Resolve (resolvers h),
      S\<lparr>queues := (queues S)((e, queue_key t) := None), hooks := (hooks S)((e, hooks_key t) := None)\<rparr>)"

text \<open>The call of an entry. What a function of the program does is \<open>beh\<close>; the function of a delay starts a timer for \<open>next\<close>.\<close>

fun call_entry :: "(nat \<Rightarrow> nat \<Rightarrow> ustring \<Rightarrow> qop list) \<Rightarrow> nat \<Rightarrow> ustring \<Rightarrow> entry \<Rightarrow> qstate \<Rightarrow> (js_error + qop list) \<times> qstate" where
  "call_entry beh e t InProgress S = (Inl TypeError, S)"
| "call_entry beh e t (Run n) S = (Inr (beh n e t), S)"
| "call_entry beh e t Delay S =
     (Inr [], set_stop e t (Some (next_timer S)) (S\<lparr>timers := timers S @ [(next_timer S, e, t)], next_timer := next_timer S + 1\<rparr>))"

definition jq_dequeue :: "(nat \<Rightarrow> nat \<Rightarrow> ustring \<Rightarrow> qop list) \<Rightarrow> nat \<Rightarrow> ustring \<Rightarrow> qstate \<Rightarrow> (js_error + qop list) \<times> qstate" where
  "jq_dequeue beh e t0 S =
     (let t = or_fx t0
      in case shift_queue (fst (jq_queue e t None S)) of (fn, q, startLength) \<Rightarrow>
           (let S = queueHooks e t (put_queue e t q S)
            in case fn of
                 None \<Rightarrow> (if startLength = 0 then (case fire_empty e t S of (ops, S) \<Rightarrow> (Inr ops, S)) else (Inr [], S))
               | Some f \<Rightarrow>
                 (let S = (if t = u ''fx'' then put_queue e t (InProgress # q) S else S); S = set_stop e t None S
                  in call_entry beh e t f (S\<lparr>qlog := qlog S @ [Called e (queue_key t) f]\<rparr>))))"

definition queue_on :: "(nat \<Rightarrow> nat \<Rightarrow> ustring \<Rightarrow> qop list) \<Rightarrow> nat \<Rightarrow> ustring \<Rightarrow> qdata \<Rightarrow> qstate \<Rightarrow> (js_error + qop list) \<times> qstate" where
  "queue_on beh e t data S =
     (case jq_queue e t (Some data) S of (q, S) \<Rightarrow>
       (let S = queueHooks e t S
        in if t = u ''fx'' \<and> (q = [] \<or> hd q \<noteq> InProgress) then jq_dequeue beh e t S else (Inr [], S)))"

text \<open>\<open>promise\<close>: the loop runs from the last element to the first.\<close>

definition add_resolver :: "ustring \<Rightarrow> nat \<Rightarrow> nat \<Rightarrow> qstate \<Rightarrow> qstate" where
  "add_resolver t p e S = (case hooks S (e, hooks_key t) of
     None \<Rightarrow> S
   | Some h \<Rightarrow> S\<lparr>promises := (promises S)[p := promises S ! p + 1],
        hooks := (hooks S)((e, hooks_key t) \<mapsto> h\<lparr>resolvers := resolvers h @ [p]\<rparr>)\<rparr>)"

definition make_promise :: "nat list \<Rightarrow> ustring \<Rightarrow> qstate \<Rightarrow> qop list \<times> qstate" where
  "make_promise es t0 S =
     (let t = or_fx t0; p = length (promises S); S = S\<lparr>promises := promises S @ [1]\<rparr>
      in ([Resolve p], fold (add_resolver t p) (rev es) S))"

definition resolve_one :: "(nat \<Rightarrow> qop list) \<Rightarrow> nat \<Rightarrow> qstate \<Rightarrow> qop list \<times> qstate" where
  "resolve_one after p S =
     (let c = promises S ! p - 1; S = S\<lparr>promises := (promises S)[p := c]\<rparr>
      in if c = 0 then (after p, S\<lparr>settled := settled S @ [p]\<rparr>) else ([], S))"

subsection \<open>Selections\<close>

definition fn_queue :: "nat list \<Rightarrow> ustring \<Rightarrow> qdata \<Rightarrow> qop list" where
  "fn_queue es t data = map (\<lambda>e. QueueOn e t data) es"

definition fn_dequeue :: "nat list \<Rightarrow> ustring \<Rightarrow> qop list" where
  "fn_dequeue es t = map (\<lambda>e. Dequeue e t) es"

definition clearQueue :: "nat list \<Rightarrow> ustring \<Rightarrow> qop list" where
  "clearQueue es t = fn_queue es (or_fx t) (Many [])"

definition fn_delay :: "nat list \<Rightarrow> ustring \<Rightarrow> qop list" where
  "fn_delay es t = fn_queue es (or_fx t) (One Delay)"

subsection \<open>The machine\<close>

text \<open>\<open>after\<close> is what the program does when a promise is resolved.\<close>

fun exec :: "(nat \<Rightarrow> nat \<Rightarrow> ustring \<Rightarrow> qop list) \<Rightarrow> (nat \<Rightarrow> qop list) \<Rightarrow> qop \<Rightarrow> qstate \<Rightarrow> (js_error + qop list) \<times> qstate" where
  "exec beh after (QueueOn e t data) S = queue_on beh e t data S"
| "exec beh after (Dequeue e t) S = jq_dequeue beh e t S"
| "exec beh after (Promise es t) S = (case make_promise es t S of (ops, S) \<Rightarrow> (Inr ops, S))"
| "exec beh after (Resolve p) S = (case resolve_one after p S of (ops, S) \<Rightarrow> (Inr ops, S))"

text \<open>What a program may call: it does not have the mark \<open>inprogress\<close>, nor the \<open>resolve\<close> of a promise.\<close>

fun user_op :: "qop \<Rightarrow> bool" where
  "user_op (QueueOn e t (One f)) \<longleftrightarrow> f \<noteq> InProgress"
| "user_op (QueueOn e t (Many l)) \<longleftrightarrow> InProgress \<notin> set l"
| "user_op (Dequeue e t) \<longleftrightarrow> True"
| "user_op (Promise es t) \<longleftrightarrow> True"
| "user_op (Resolve p) \<longleftrightarrow> False"

inductive qstep :: "(nat \<Rightarrow> nat \<Rightarrow> ustring \<Rightarrow> qop list) \<Rightarrow> (nat \<Rightarrow> qop list) \<Rightarrow> qop list \<times> qstate \<Rightarrow> qop list \<times> qstate \<Rightarrow> bool" for beh after where
  work: "exec beh after op S = (Inr new, S') \<Longrightarrow> qstep beh after (op # ops, S) (new @ ops, S')"
| fail: "exec beh after op S = (Inl err, S') \<Longrightarrow> qstep beh after (op # ops, S) ([], S')"
| timer: "(k, e, t) \<in> set (timers S) \<Longrightarrow> qstep beh after ([], S) ([Dequeue e t], S\<lparr>timers := remove1 (k, e, t) (timers S)\<rparr>)"
| program: "list_all user_op ops \<Longrightarrow> qstep beh after ([], S) (ops, S)"

definition no_queues :: qstate where
  "no_queues = \<lparr>queues = \<lambda>_. None, hooks = \<lambda>_. None, timers = [], next_timer = 0, promises = [], settled = [], qlog = []\<rparr>"

subsection \<open>The order of the calls\<close>

text \<open>A queue as the program sees it: the entries that the events of a log leave, or \<open>None\<close> if an entry was called that was not
  the oldest.\<close>

fun fifo :: "nat \<Rightarrow> ustring \<Rightarrow> entry list \<Rightarrow> qevent list \<Rightarrow> entry list option" where
  "fifo e k q [] = Some q"
| "fifo e k q (Added e' k' f # es) = fifo e k (if e' = e \<and> k' = k then q @ [f] else q) es"
| "fifo e k q (Replaced e' k' l # es) = fifo e k (if e' = e \<and> k' = k then l else q) es"
| "fifo e k q (Called e' k' f # es) =
     (if e' = e \<and> k' = k then (case q of [] \<Rightarrow> None | g # r \<Rightarrow> if g = f then fifo e k r es else None) else fifo e k q es)"

lemma fifo_append: "fifo e k q (xs @ ys) = Option.bind (fifo e k q xs) (\<lambda>r. fifo e k r ys)"
proof (induction xs arbitrary: q)
  case (Cons x xs)
  then show ?case by (cases x) (auto split: list.splits)
qed simp

definition waiting_entries :: "nat \<Rightarrow> ustring \<Rightarrow> qstate \<Rightarrow> entry list" where
  "waiting_entries e k S = (case queues S (e, k) of None \<Rightarrow> [] | Some q \<Rightarrow> filter (\<lambda>f. f \<noteq> InProgress) q)"

text \<open>The mark \<open>inprogress\<close> is only at the front of a queue.\<close>

definition queues_ok :: "qstate \<Rightarrow> bool" where
  "queues_ok S \<longleftrightarrow> (\<forall>x q. queues S x = Some q \<longrightarrow> InProgress \<notin> set (tl q)) \<and> (\<forall>e k. fifo e k [] (qlog S) = Some (waiting_entries e k S))"

lemma queues_okD: "queues_ok S \<Longrightarrow> queues S x = Some q \<Longrightarrow> InProgress \<notin> set (tl q)"
  unfolding queues_ok_def by blast

lemma queues_ok_cong: "queues S' = queues S \<Longrightarrow> qlog S' = qlog S \<Longrightarrow> queues_ok S' = queues_ok S"
  by (simp add: queues_ok_def waiting_entries_def)

lemma hooks_only [simp]: "queues (queueHooks e t S) = queues S" "qlog (queueHooks e t S) = qlog S" "queues (set_stop e t s S) = queues S" "qlog (set_stop e t s S) = qlog S"
  "timers (queueHooks e t S) = timers S" "timers (set_stop e t s S) = timers S" "promises (queueHooks e t S) = promises S" "promises (set_stop e t s S) = promises S"
  "settled (queueHooks e t S) = settled S" "settled (set_stop e t s S) = settled S" "next_timer (queueHooks e t S) = next_timer S"
  by (simp_all add: queueHooks_def set_stop_def split: option.splits)

lemma clean_filter: "InProgress \<notin> set q \<Longrightarrow> filter (\<lambda>f. f \<noteq> InProgress) q = q"
  by (induction q) auto

text \<open>What \<open>shift\<close> takes out of a queue in order.\<close>

lemma shift_queue_cases:
  assumes "InProgress \<notin> set (tl q)"
  obtains (empty) "shift_queue q = (None, [], 0)" "filter (\<lambda>f. f \<noteq> InProgress) q = []"
  | (call) f r n where "shift_queue q = (Some f, r, Suc n)" "f \<noteq> InProgress" "InProgress \<notin> set r" "filter (\<lambda>f. f \<noteq> InProgress) q = f # r" "q \<noteq> []"
proof (cases q)
  case (Cons f r)
  show ?thesis
  proof (cases "f = InProgress")
    case True
    then show ?thesis using that assms Cons by (cases r) (auto simp: clean_filter)
  next
    case False
    then show ?thesis using that assms Cons by (auto simp: clean_filter)
  qed
qed (use that in simp)

text \<open>\<open>dequeue\<close> on queues in order: it fires \<open>empty\<close>, or calls the oldest entry.\<close>

lemma dequeue_cases:
  fixes S :: qstate and e :: nat and t0 :: ustring
  assumes "queues_ok S"
  defines "t \<equiv> or_fx t0"
  obtains (empty) "jq_dequeue beh e t0 S = (case fire_empty e t (queueHooks e t (put_queue e t [] S)) of (ops, S) \<Rightarrow> (Inr ops, S))" "waiting_entries e (queue_key t) S = []"
  | (call) f r T where "jq_dequeue beh e t0 S = call_entry beh e t f T" "f \<noteq> InProgress" "InProgress \<notin> set r" "waiting_entries e (queue_key t) S = f # r"
      "queues T = (queues S)((e, queue_key t) \<mapsto> (if t = u ''fx'' then InProgress # r else r))" "qlog T = qlog S @ [Called e (queue_key t) f]"
      "hooks T = hooks (set_stop e t None (queueHooks e t S))" "timers T = timers S" "promises T = promises S" "settled T = settled S" "next_timer T = next_timer S"
proof -
  let ?k = "queue_key t"
  define q where "q = fst (jq_queue e t None S)"
  have q: "q = (case queues S (e, ?k) of None \<Rightarrow> [] | Some l \<Rightarrow> l)" by (simp add: q_def jq_queue_def)
  have "InProgress \<notin> set (tl q)" using assms(1) unfolding q queues_ok_def by (auto split: option.splits)
  then show ?thesis
  proof (cases rule: shift_queue_cases)
    case empty
    then show ?thesis using that(1) by (simp add: jq_dequeue_def t_def [symmetric] q_def [symmetric] waiting_entries_def q split: option.splits)
  next
    case (call f r n)
    then have s: "\<exists>l. queues S (e, ?k) = Some l" using q by (cases "queues S (e, ?k)") auto
    let ?S = "queueHooks e t (put_queue e t r S)"
    let ?T = "set_stop e t None (if t = u ''fx'' then put_queue e t (InProgress # r) ?S else ?S)"
    let ?U = "?T\<lparr>qlog := qlog ?T @ [Called e ?k f]\<rparr>"
    have d: "jq_dequeue beh e t0 S = call_entry beh e t f ?U" using call(1) by (simp add: jq_dequeue_def t_def [symmetric] q_def [symmetric] Let_def)
    have w: "waiting_entries e ?k S = f # r" using call(4) s q by (auto simp: waiting_entries_def)
    have "queues ?U = (queues S)((e, ?k) \<mapsto> (if t = u ''fx'' then InProgress # r else r))" "qlog ?U = qlog S @ [Called e ?k f]"
      "hooks ?U = hooks (set_stop e t None (queueHooks e t S))" "timers ?U = timers S" "promises ?U = promises S" "settled ?U = settled S" "next_timer ?U = next_timer S"
      using s by (auto simp: put_queue_def set_stop_def queueHooks_def split: option.splits)
    then show ?thesis by (rule that(2) [OF d call(2,3) w])
  qed
qed


text \<open>A change of one queue that the log explains.\<close>

lemma queues_ok_change:
  assumes "queues_ok S" "queues T = (queues S)((e, k) := qo)" "qlog T = qlog S @ evs"
    "\<And>q. qo = Some q \<Longrightarrow> InProgress \<notin> set (tl q)" "\<And>e' k' q. (e', k') \<noteq> (e, k) \<Longrightarrow> fifo e' k' q evs = Some q"
    "fifo e k (waiting_entries e k S) evs = Some (case qo of None \<Rightarrow> [] | Some q \<Rightarrow> filter (\<lambda>f. f \<noteq> InProgress) q)"
  shows "queues_ok T"
proof -
  have "InProgress \<notin> set (tl q)" if "queues T x = Some q" for x q
    using that assms(1,4) by (cases x; cases "x = (e, k)") (auto simp: assms(2) queues_ok_def)
  moreover have "fifo e' k' [] (qlog T) = Some (waiting_entries e' k' T)" for e' k'
    using assms(1,5,6) by (cases "(e', k') = (e, k)") (auto simp: assms(2,3) fifo_append queues_ok_def waiting_entries_def)
  ultimately show ?thesis by (simp add: queues_ok_def)
qed

lemma tl_clean: "InProgress \<notin> set q \<Longrightarrow> InProgress \<notin> set (tl q)"
  by (cases q) auto

lemma call_entry_ok:
  assumes "f \<noteq> InProgress"
  obtains ops T where "call_entry beh e t f S = (Inr ops, T)" "queues T = queues S" "qlog T = qlog S" "promises T = promises S" "settled T = settled S"
    "ops = (case f of Run n \<Rightarrow> beh n e t | _ \<Rightarrow> [])" "timers T = timers S @ (if f = Delay then [(next_timer S, e, t)] else [])"
    "hooks T = hooks S \<or> (\<exists>s. hooks T = hooks (set_stop e t s S))"
proof (cases f)
  case Delay
  let ?T = "set_stop e t (Some (next_timer S)) (S\<lparr>timers := timers S @ [(next_timer S, e, t)], next_timer := next_timer S + 1\<rparr>)"
  have "hooks ?T = hooks (set_stop e t (Some (next_timer S)) S)" by (simp add: set_stop_def)
  then show ?thesis using that [of "[]" ?T] Delay by auto
qed (use assms that in auto)

lemma dequeue_ok:
  assumes ok: "queues_ok S"
  obtains ops T where "jq_dequeue beh e t0 S = (Inr ops, T)" "queues_ok T" "\<forall>op \<in> set ops. (\<exists>p. op = Resolve p) \<or> (\<exists>n. op \<in> set (beh n e (or_fx t0)))"
  using ok
proof (cases rule: dequeue_cases [where beh = beh and e = e and ?t0.0 = t0])
  case empty
  let ?t = "or_fx t0"
  let ?T = "queueHooks e ?t (put_queue e ?t [] S)"
  obtain ops U where U: "fire_empty e ?t ?T = (ops, U)" by (cases "fire_empty e ?t ?T")
  then have ops: "\<forall>op \<in> set ops. \<exists>p. op = Resolve p" and U': "queues U = (queues ?T)((e, queue_key ?t) := None)" "qlog U = qlog S"
    by (auto simp: fire_empty_def put_queue_def split: option.splits)
  have "queues U = (queues S)((e, queue_key ?t) := None)" using U'(1) by (auto simp: put_queue_def)
  then have "queues_ok U" by (rule queues_ok_change [OF ok, where evs = "[]"]) (use U'(2) empty(2) in simp_all)
  then show ?thesis using that empty(1) U ops by auto
next
  case (call f r T)
  let ?t = "or_fx t0"
  let ?k = "queue_key ?t"
  have "queues_ok T" using ok call(5,6)
    by (rule queues_ok_change) (use call(3,4) in \<open>auto simp: tl_clean clean_filter split: if_splits\<close>)
  moreover obtain ops U where U: "call_entry beh e ?t f T = (Inr ops, U)" "queues U = queues T" "qlog U = qlog T" "ops = (case f of Run n \<Rightarrow> beh n e ?t | _ \<Rightarrow> [])"
    using call_entry_ok [OF call(2), of beh e ?t T] by metis
  moreover from U(4) have "\<forall>op \<in> set ops. \<exists>n. op \<in> set (beh n e ?t)" by (cases f) auto
  ultimately show ?thesis using that call(1) queues_ok_cong [of U T] by auto
qed

lemma queue_added_ok:
  assumes ok: "queues_ok S" and us: "user_op (QueueOn e t data)" and q: "jq_queue e t (Some data) S = (q, T)"
  shows "queues_ok T"
proof -
  let ?k = "queue_key t"
  show ?thesis
  proof (cases data)
    case (One f)
    then have T: "queues T = (queues S)((e, ?k) \<mapsto> (case queues S (e, ?k) of None \<Rightarrow> [f] | Some l \<Rightarrow> l @ [f]))" "qlog T = qlog S @ [Added e ?k f]"
      using q by (auto simp: jq_queue_def Let_def)
    have f: "f \<noteq> InProgress" using us One by simp
    have "InProgress \<notin> set (tl q)" if "queues S (e, ?k) = Some q" for q using ok that by (simp add: queues_ok_def)
    then have "InProgress \<notin> set (tl (q @ [f]))" if "queues S (e, ?k) = Some q" for q using that f by (cases q) auto
    then show ?thesis using f by (intro queues_ok_change [OF ok T]) (auto simp: waiting_entries_def split: option.splits)
  next
    case (Many l)
    then have T: "queues T = (queues S)((e, ?k) \<mapsto> l)" "qlog T = qlog S @ [Replaced e ?k l]" using q by (auto simp: jq_queue_def Let_def)
    have "InProgress \<notin> set l" using us Many by simp
    then show ?thesis by (intro queues_ok_change [OF ok T]) (auto simp: tl_clean clean_filter)
  qed
qed

lemma queue_ok:
  assumes ok: "queues_ok S" and us: "user_op (QueueOn e t data)"
  obtains ops T where "queue_on beh e t data S = (Inr ops, T)" "queues_ok T" "\<forall>op \<in> set ops. (\<exists>p. op = Resolve p) \<or> (\<exists>n. op \<in> set (beh n e (or_fx t)))"
proof -
  obtain q T where q: "jq_queue e t (Some data) S = (q, T)" by (cases "jq_queue e t (Some data) S")
  have "queues_ok T" by (rule queue_added_ok [OF ok us q])
  then have "queues_ok (queueHooks e t T)" using queues_ok_cong [of "queueHooks e t T" T] by simp
  then obtain ops U where "jq_dequeue beh e t (queueHooks e t T) = (Inr ops, U)" "queues_ok U" "\<forall>op \<in> set ops. (\<exists>p. op = Resolve p) \<or> (\<exists>n. op \<in> set (beh n e (or_fx t)))"
    using dequeue_ok [of "queueHooks e t T" beh e t] by metis
  then show ?thesis using that [of ops U] that [of "[]" "queueHooks e t T"] q \<open>queues_ok (queueHooks e t T)\<close>
    by (cases "t = u ''fx'' \<and> (q = [] \<or> hd q \<noteq> InProgress)") (simp_all add: queue_on_def Let_def)
qed


definition stack_ok :: "qop list \<Rightarrow> bool" where
  "stack_ok ops \<longleftrightarrow> (\<forall>op \<in> set ops. user_op op \<or> (\<exists>p. op = Resolve p))"

definition programs_ok :: "(nat \<Rightarrow> nat \<Rightarrow> ustring \<Rightarrow> qop list) \<Rightarrow> (nat \<Rightarrow> qop list) \<Rightarrow> bool" where
  "programs_ok beh after \<longleftrightarrow> (\<forall>n e t. list_all user_op (beh n e t)) \<and> (\<forall>p. list_all user_op (after p))"

lemma add_resolver_frame: "queues (fold (add_resolver t p) es S) = queues S \<and> qlog (fold (add_resolver t p) es S) = qlog S \<and>
    timers (fold (add_resolver t p) es S) = timers S \<and> settled (fold (add_resolver t p) es S) = settled S \<and> length (promises (fold (add_resolver t p) es S)) = length (promises S)"
  by (induction es arbitrary: S) (auto simp: add_resolver_def split: option.splits)

lemma exec_ok:
  assumes "queues_ok S" "stack_ok [op]" "programs_ok beh after"
  obtains ops T where "exec beh after op S = (Inr ops, T)" "queues_ok T" "stack_ok ops"
proof (cases op)
  case (QueueOn e t data)
  then have "user_op (QueueOn e t data)" using assms(2) by (simp add: stack_ok_def)
  then obtain ops T where "queue_on beh e t data S = (Inr ops, T)" "queues_ok T" "\<forall>op \<in> set ops. (\<exists>p. op = Resolve p) \<or> (\<exists>n. op \<in> set (beh n e (or_fx t)))"
    using queue_ok [OF assms(1)] by metis
  then show ?thesis using that QueueOn assms(3) by (fastforce simp: stack_ok_def programs_ok_def list_all_iff)
next
  case (Dequeue e t)
  obtain ops T where "jq_dequeue beh e t S = (Inr ops, T)" "queues_ok T" "\<forall>op \<in> set ops. (\<exists>p. op = Resolve p) \<or> (\<exists>n. op \<in> set (beh n e (or_fx t)))"
    using dequeue_ok [OF assms(1)] by metis
  then show ?thesis using that Dequeue assms(3) by (fastforce simp: stack_ok_def programs_ok_def list_all_iff)
next
  case (Promise es t)
  obtain ops T where P: "make_promise es t S = (ops, T)" by (cases "make_promise es t S")
  then have "queues T = queues S" "qlog T = qlog S" "\<exists>p. ops = [Resolve p]"
    using add_resolver_frame [of "or_fx t" "length (promises S)" "rev es"] by (auto simp: make_promise_def Let_def)
  then show ?thesis using that Promise P assms(1) queues_ok_cong [of T S] by (auto simp: stack_ok_def)
next
  case (Resolve p)
  obtain ops T where P: "resolve_one after p S = (ops, T)" by (cases "resolve_one after p S")
  then have "queues T = queues S" "qlog T = qlog S" "ops = after p \<or> ops = []" by (auto simp: resolve_one_def Let_def split: if_splits)
  then show ?thesis using that Resolve P assms(1,3) queues_ok_cong [of T S] by (auto simp: stack_ok_def programs_ok_def list_all_iff)
qed

lemma step_ok:
  assumes "qstep beh after c c'" "queues_ok (snd c)" "stack_ok (fst c)" "programs_ok beh after"
  shows "queues_ok (snd c') \<and> stack_ok (fst c')"
  using assms
proof (cases rule: qstep.cases)
  case (work op S new S' ops)
  have "stack_ok [op]" using assms(3) work(1) by (simp add: stack_ok_def)
  then obtain ops' T where "exec beh after op S = (Inr ops', T)" "queues_ok T" "stack_ok ops'" using exec_ok [of S op beh after] assms(2,4) work(1) by auto
  then show ?thesis using work assms(3) by (auto simp: stack_ok_def)
next
  case (fail op S err S' ops)
  have "stack_ok [op]" using assms(3) fail(1) by (simp add: stack_ok_def)
  then show ?thesis using exec_ok [of S op beh after] assms(2,4) fail by (metis Inl_Inr_False fst_conv prod.inject snd_conv)
next
  case (timer k e t S)
  then show ?thesis using assms(2) queues_ok_cong [of "snd c'" S] by (simp add: stack_ok_def)
next
  case (program ops S)
  then show ?thesis using assms(2) by (simp add: stack_ok_def list_all_iff)
qed

lemma start_ok: "queues_ok no_queues" "stack_ok []"
  by (simp_all add: queues_ok_def waiting_entries_def no_queues_def stack_ok_def)

lemma run_ok: "(qstep beh after)\<^sup>*\<^sup>* ([], no_queues) c \<Longrightarrow> programs_ok beh after \<Longrightarrow> queues_ok (snd c) \<and> stack_ok (fst c)"
proof (induction rule: rtranclp_induct)
  case base
  then show ?case using start_ok by simp
next
  case (step c c')
  then show ?case using step_ok by blast
qed

text \<open>C28. A queue is first in, first out, whatever the functions do while they run: every function that is called is the oldest one that
  was added to its queue and not called since, unless the queue was replaced, and what is left in the queue is what the calls have left. And
  \<open>dequeue\<close> never fails: the mark \<open>inprogress\<close> is never taken for a function.\<close>

theorem queue_fifo:
  assumes "programs_ok beh after" "(qstep beh after)\<^sup>*\<^sup>* ([], no_queues) (ops, S)"
  shows "fifo e k [] (qlog S) = Some (waiting_entries e k S) \<and> (\<forall>op \<in> set (take 1 ops). \<exists>new T. exec beh after op S = (Inr new, T))"
proof -
  have ok: "queues_ok S" "stack_ok ops" using run_ok [OF assms(2,1)] by simp_all
  moreover have "\<exists>new T. exec beh after op S = (Inr new, T)" if "op \<in> set (take 1 ops)" for op
  proof -
    have "stack_ok [op]" using ok(2) in_set_takeD [OF that] by (simp add: stack_ok_def)
    then show ?thesis using exec_ok [OF ok(1) _ assms(1)] by metis
  qed
  ultimately show ?thesis by (simp add: queues_ok_def)
qed


subsection \<open>Promises\<close>

text \<open>The sum of a weight over the values of a map.\<close>

definition weight :: "('v \<Rightarrow> nat) \<Rightarrow> 'v option \<Rightarrow> nat" where
  "weight g x = (case x of None \<Rightarrow> 0 | Some v \<Rightarrow> g v)"

definition total :: "('v \<Rightarrow> nat) \<Rightarrow> ('k \<Rightarrow> 'v option) \<Rightarrow> nat" where
  "total g m = (\<Sum>x \<in> dom m. weight g (m x))"

lemma total_upd:
  assumes "finite (dom m)"
  shows "total g (m(a := x)) + weight g (m a) = total g m + weight g x"
proof -
  have t: "total g m' = weight g (m' a) + (\<Sum>x \<in> dom m - {a}. weight g (m x))" if "\<And>y. y \<noteq> a \<Longrightarrow> m' y = m y" for m'
  proof -
    have d: "dom m' - {a} = dom m - {a}" using that by auto
    then have fin: "finite (dom m')" using assms by (metis finite_Diff2 finite.emptyI finite_insert)
    have "(\<Sum>x \<in> dom m' - {a}. weight g (m' x)) = (\<Sum>x \<in> dom m - {a}. weight g (m x))" unfolding d by (rule sum.cong) (auto simp: that)
    then show ?thesis
      using sum.remove [OF fin, of a "\<lambda>x. weight g (m' x)"] by (cases "a \<in> dom m'") (auto simp: total_def weight_def domIff)
  qed
  show ?thesis using t [of m] t [of "m(a := x)"] by simp
qed

lemma finite_upd [simp]: "finite (dom m) \<Longrightarrow> finite (dom (m(a := x)))"
  by (cases x) auto

text \<open>What the hooks and the stack hold for promises, each promise with a weight.\<close>

definition held :: "(nat \<Rightarrow> nat) \<Rightarrow> qstate \<Rightarrow> nat" where
  "held w S = total (\<lambda>h. sum_list (map w (resolvers h))) (hooks S)"

fun due :: "(nat \<Rightarrow> nat) \<Rightarrow> qop list \<Rightarrow> nat" where
  "due w [] = 0"
| "due w (Resolve p # ops) = w p + due w ops"
| "due w (op # ops) = due w ops"

lemma due_append [simp]: "due w (xs @ ys) = due w xs + due w ys"
proof (induction xs)
  case (Cons x xs)
  then show ?case by (cases x) simp_all
qed simp

lemma due_Resolve [simp]: "due w (map Resolve ps) = sum_list (map w ps)"
  by (induction ps) auto

lemma due_user: "list_all user_op ops \<Longrightarrow> due w ops = 0"
proof (induction ops)
  case (Cons x ops)
  then show ?case by (cases x) simp_all
qed simp

lemma held_hooks:
  assumes "finite (dom (hooks S))"
  shows "held w (queueHooks e t S) = held w S" "finite (dom (hooks (queueHooks e t S)))"
    "held w (set_stop e t s S) = held w S" "finite (dom (hooks (set_stop e t s S)))"
proof -
  show "held w (queueHooks e t S) = held w S" "finite (dom (hooks (queueHooks e t S)))"
    using assms total_upd [OF assms, of "\<lambda>h. sum_list (map w (resolvers h))" "(e, hooks_key t)" "Some \<lparr>stop = None, resolvers = []\<rparr>"]
    by (auto simp: held_def queueHooks_def weight_def split: option.splits)
  show "held w (set_stop e t s S) = held w S" "finite (dom (hooks (set_stop e t s S)))"
    using assms total_upd [OF assms, of "\<lambda>h. sum_list (map w (resolvers h))" "(e, hooks_key t)" "map_option (\<lambda>h. h\<lparr>stop := s\<rparr>) (hooks S (e, hooks_key t))"]
    by (cases "hooks S (e, hooks_key t)"; simp add: held_def set_stop_def weight_def)+
qed

lemma held_cong: "hooks T = hooks S \<Longrightarrow> held w T = held w S"
  by (simp add: held_def)

lemma fire_held:
  assumes "finite (dom (hooks S))" "fire_empty e t S = (ops, T)"
  shows "held w T + due w ops = held w S" "finite (dom (hooks T))" "promises T = promises S" "settled T = settled S" "timers T = timers S"
  using assms total_upd [OF assms(1), of "\<lambda>h. sum_list (map w (resolvers h))" "(e, hooks_key t)" None]
  by (auto simp: fire_empty_def held_def weight_def split: option.splits)

lemma dequeue_held:
  assumes ok: "queues_ok S" and fin: "finite (dom (hooks S))" and beh: "\<And>n t. due w (beh n e t) = 0"
    and D: "jq_dequeue beh e t0 S = (Inr ops, U)"
  shows "held w U + due w ops = held w S \<and> finite (dom (hooks U)) \<and> promises U = promises S \<and> settled U = settled S"
  using ok
proof (cases rule: dequeue_cases [where beh = beh and e = e and ?t0.0 = t0])
  case empty
  let ?t = "or_fx t0"
  let ?S = "queueHooks e ?t (put_queue e ?t [] S)"
  have p: "hooks (put_queue e ?t [] S) = hooks S" "promises (put_queue e ?t [] S) = promises S" "settled (put_queue e ?t [] S) = settled S"
    by (simp_all add: put_queue_def)
  obtain ops' T where "fire_empty e ?t ?S = (ops', T)" by (cases "fire_empty e ?t ?S")
  then have F: "fire_empty e ?t ?S = (ops, U)" using empty(1) D by simp
  have "finite (dom (hooks ?S))" using held_hooks(2) fin p(1) by simp
  from fire_held [OF this F] show ?thesis using p held_hooks(1) [of "put_queue e ?t [] S" w e ?t] fin held_cong [OF p(1)] by simp
next
  case (call f r T)
  let ?t = "or_fx t0"
  have T: "held w T = held w S" "finite (dom (hooks T))"
    using held_hooks(3,4) [OF held_hooks(2) [OF fin]] held_hooks(1) [OF fin] held_cong [OF call(7)] call(7) by simp_all
  obtain ops' U' where c: "call_entry beh e ?t f T = (Inr ops', U')" "promises U' = promises T" "settled U' = settled T"
    "ops' = (case f of Run n \<Rightarrow> beh n e ?t | _ \<Rightarrow> [])" "hooks U' = hooks T \<or> (\<exists>s. hooks U' = hooks (set_stop e ?t s T))"
    using call_entry_ok [OF call(2), of beh e ?t T] by metis
  have "held w U' = held w T" "finite (dom (hooks U'))" using c(5) held_hooks(3,4) [OF T(2)] held_cong [of U'] T(2) by metis+
  moreover have "due w ops' = 0" using c(4) beh by (cases f) simp_all
  ultimately show ?thesis using c(1-3) D call(1,9,10) T by simp
qed

lemma queue_held:
  assumes ok: "queues_ok S" and us: "user_op (QueueOn e t data)" and fin: "finite (dom (hooks S))" and beh: "\<And>n t. due w (beh n e t) = 0"
    and D: "queue_on beh e t data S = (Inr ops, U)"
  shows "held w U + due w ops = held w S \<and> finite (dom (hooks U)) \<and> promises U = promises S \<and> settled U = settled S"
proof -
  obtain q T where q: "jq_queue e t (Some data) S = (q, T)" by (cases "jq_queue e t (Some data) S")
  then have T: "hooks T = hooks S" "promises T = promises S" "settled T = settled S" by (auto simp: jq_queue_def Let_def split: qdata.splits)
  let ?T = "queueHooks e t T"
  have h: "held w ?T = held w S" "finite (dom (hooks ?T))" using held_hooks(1) [of T w e t] held_hooks(2) [of T e t] fin T(1) held_cong [OF T(1)] by simp_all
  have "queues_ok T" using queue_added_ok [OF ok us q] .
  then have "queues_ok ?T" using queues_ok_cong [of ?T T] by simp
  from dequeue_held [OF this h(2), where w = w and beh = beh and e = e and ?t0.0 = t] beh show ?thesis
    using D q h T(2,3) by (cases "t = u ''fx'' \<and> (q = [] \<or> hd q \<noteq> InProgress)") (auto simp: queue_on_def Let_def)
qed


lemma add_resolvers:
  fixes t :: ustring and es :: "nat list"
  assumes "finite (dom (hooks S))" "p < length (promises S)"
  defines "T \<equiv> fold (add_resolver t p) es S"
  shows "held w T + w p * promises S ! p = held w S + w p * promises T ! p" "finite (dom (hooks T))" "promises S ! p \<le> promises T ! p"
    "q \<noteq> p \<Longrightarrow> promises T ! q = promises S ! q"
proof -
  have "held w T + w p * promises S ! p = held w S + w p * promises T ! p \<and> finite (dom (hooks T)) \<and> promises S ! p \<le> promises T ! p \<and>
      (q \<noteq> p \<longrightarrow> promises T ! q = promises S ! q)"
    using assms(1,2) unfolding T_def
  proof (induction es arbitrary: S)
    case (Cons e es)
    let ?U = "add_resolver t p e S"
    have U: "held w ?U + w p * promises S ! p = held w S + w p * promises ?U ! p" "finite (dom (hooks ?U))" "promises S ! p \<le> promises ?U ! p"
      "q \<noteq> p \<longrightarrow> promises ?U ! q = promises S ! q" "p < length (promises ?U)"
      using Cons.prems total_upd [OF Cons.prems(1), of "\<lambda>h. sum_list (map w (resolvers h))" "(e, hooks_key t)"
          "map_option (\<lambda>h. h\<lparr>resolvers := resolvers h @ [p]\<rparr>) (hooks S (e, hooks_key t))"]
      by (cases "hooks S (e, hooks_key t)"; simp add: add_resolver_def held_def weight_def)+
    from Cons.IH [OF U(2,5)] U show ?case by auto
  qed simp
  then show "held w T + w p * promises S ! p = held w S + w p * promises T ! p" "finite (dom (hooks T))" "promises S ! p \<le> promises T ! p"
    "q \<noteq> p \<Longrightarrow> promises T ! q = promises S ! q" by auto
qed

definition one_at :: "nat \<Rightarrow> nat \<Rightarrow> nat" where
  "one_at p q = (if q = p then 1 else 0)"

fun promises_ok :: "qop list \<times> qstate \<Rightarrow> bool" where
  "promises_ok (ops, S) \<longleftrightarrow> finite (dom (hooks S)) \<and>
     (\<forall>p. held (one_at p) S + due (one_at p) ops = (if p < length (promises S) then promises S ! p else 0)) \<and>
     distinct (settled S) \<and> (\<forall>p. p \<in> set (settled S) \<longleftrightarrow> p < length (promises S) \<and> promises S ! p = 0)"

lemma promise_step:
  assumes "promises_ok (Promise es t # ops, S)" "make_promise es t S = (new, T)"
  shows "promises_ok (new @ ops, T)"
proof -
  let ?p = "length (promises S)"
  define U where "U = S\<lparr>promises := promises S @ [1]\<rparr>"
  have T: "T = fold (add_resolver (or_fx t) ?p) (rev es) U" "new = [Resolve ?p]" using assms(2) by (auto simp: make_promise_def U_def Let_def)
  have U: "finite (dom (hooks U))" "?p < length (promises U)" "held w U = held w S" for w using assms(1) held_cong [of U S] by (simp_all add: U_def)
  note a = add_resolvers [OF U(1,2), where t = "or_fx t" and es = "rev es", folded T(1)]
  have f: "length (promises T) = Suc ?p" "settled T = settled S" using add_resolver_frame [of "or_fx t" ?p "rev es" U] by (simp_all add: T(1) U_def)
  have Up: "promises U ! q = (if q = ?p then 1 else promises S ! q)" if "q \<le> ?p" for q using that by (auto simp: U_def nth_append)
  have "held (one_at p) T + due (one_at p) (new @ ops) = (if p < length (promises T) then promises T ! p else 0)" for p
  proof (cases "p = ?p")
    case True
    then have "held (one_at p) T + 1 = held (one_at p) S + promises T ! p" using a(1) [of "one_at p"] U(3) Up [of ?p] by (simp add: one_at_def)
    moreover have "held (one_at p) S + due (one_at p) ops = 0" using assms(1) True by simp
    ultimately show ?thesis using True f(1) T(2) by (simp add: one_at_def)
  next
    case False
    then have "held (one_at p) T = held (one_at p) S" using a(1) [of "one_at p"] U(3) by (simp add: one_at_def)
    moreover have "promises T ! p = promises S ! p" if "p < ?p" using a(4) [of p] False Up [of p] that by simp
    ultimately show ?thesis using assms(1) False f(1) T(2) by (simp add: one_at_def)
  qed
  moreover have "p \<in> set (settled T) \<longleftrightarrow> p < length (promises T) \<and> promises T ! p = 0" for p
  proof (cases "p < ?p")
    case True
    then show ?thesis using assms(1) a(4) [of p] Up [of p] f by auto
  next
    case False
    then show ?thesis using assms(1) a(3) Up [of ?p] f by (cases "p = ?p") auto
  qed
  ultimately show ?thesis using assms(1) a(2) f(2) by simp
qed

lemma resolve_step:
  assumes "promises_ok (Resolve p # ops, S)" "resolve_one after p S = (new, T)" "list_all user_op (after p)"
  shows "promises_ok (new @ ops, T)"
proof -
  let ?c = "promises S ! p"
  have "held (one_at p) S + due (one_at p) (Resolve p # ops) = (if p < length (promises S) then ?c else 0)" using assms(1) by simp
  then have c: "p < length (promises S)" "0 < ?c" by (auto simp: one_at_def split: if_splits)
  have T: "promises T = (promises S)[p := ?c - 1]" "hooks T = hooks S" "settled T = settled S @ (if ?c = 1 then [p] else [])" "\<And>w. due w new = 0"
    using assms(2,3) c by (auto simp: resolve_one_def due_user Let_def split: if_splits)
  have "held (one_at q) T + due (one_at q) (new @ ops) = (if q < length (promises T) then promises T ! q else 0)" for q
  proof -
    have "held (one_at q) S + due (one_at q) (Resolve p # ops) = (if q < length (promises S) then promises S ! q else 0)" using assms(1) by simp
    then show ?thesis using T(4) [of "one_at q"] held_cong [OF T(2), of "one_at q"] T(1) c by (cases "q = p") (auto simp: one_at_def)
  qed
  moreover have "q \<in> set (settled T) \<longleftrightarrow> q < length (promises T) \<and> promises T ! q = 0" for q
    using assms(1) T(1,3) c by (cases "q = p") auto
  moreover have "distinct (settled T)" using assms(1) T(3) c by auto
  ultimately show ?thesis using assms(1) T(2) by simp
qed

lemma exec_promises:
  assumes "exec beh after op S = (Inr new, T)" "promises_ok (op # ops, S)" "queues_ok S" "stack_ok [op]" "programs_ok beh after"
  shows "promises_ok (new @ ops, T)"
proof -
  have b: "due w (beh n e t) = 0" "list_all user_op (after p)" for w n e t p using assms(5) due_user by (auto simp: programs_ok_def)
  have fin: "finite (dom (hooks S))" using assms(2) by simp
  have keep: "promises_ok (new @ ops, T)"
    if "\<And>w. held w T + due w new = held w S \<and> finite (dom (hooks T)) \<and> promises T = promises S \<and> settled T = settled S" "\<And>w. due w (op # ops) = due w ops"
  proof -
    have "held w T + due w (new @ ops) = held w S + due w (op # ops)" for w using that(1) [of w] that(2) [of w] by simp
    then show ?thesis using assms(2) that(1) by (simp del: due_append)
  qed
  show ?thesis
  proof (cases op)
    case (QueueOn e t data)
    then have u: "user_op (QueueOn e t data)" "queue_on beh e t data S = (Inr new, T)" using assms(1,4) by (simp_all add: stack_ok_def)
    show ?thesis by (rule keep) (use queue_held [OF assms(3) u(1) fin b(1) u(2)] QueueOn in simp_all)
  next
    case (Dequeue e t)
    then have "jq_dequeue beh e t S = (Inr new, T)" using assms(1) by simp
    then show ?thesis by (intro keep) (use dequeue_held [OF assms(3) fin b(1)] Dequeue in simp_all)
  next
    case (Promise es t)
    then have "make_promise es t S = (new, T)" using assms(1) by (cases "make_promise es t S") simp
    then show ?thesis using assms(2) Promise promise_step by blast
  next
    case (Resolve p)
    then have "resolve_one after p S = (new, T)" using assms(1) by (cases "resolve_one after p S") simp
    then show ?thesis using assms(2) Resolve resolve_step b(2) by blast
  qed
qed


lemma step_promises:
  assumes "qstep beh after c c'" "queues_ok (snd c)" "stack_ok (fst c)" "promises_ok c" "programs_ok beh after"
  shows "promises_ok c'"
  using assms
proof (cases rule: qstep.cases)
  case (work op S new S' ops)
  have "stack_ok [op]" using assms(3) work(1) by (simp add: stack_ok_def)
  moreover have "promises_ok (op # ops, S)" "queues_ok S" using assms(2,4) work(1) by simp_all
  ultimately show ?thesis using exec_promises [OF work(3) _ _ _ assms(5)] work(2) by blast
next
  case (fail op S err S' ops)
  have "stack_ok [op]" using assms(3) fail(1) by (simp add: stack_ok_def)
  then show ?thesis using exec_ok [of S op beh after] assms(2,5) fail by (metis Inl_Inr_False prod.inject snd_conv)
next
  case (timer k e t S)
  then show ?thesis using assms(4) held_cong [of "snd c'" S] by simp
next
  case (program ops S)
  then show ?thesis using assms(4) by (simp add: due_user)
qed

lemma run_promises: "(qstep beh after)\<^sup>*\<^sup>* ([], no_queues) c \<Longrightarrow> programs_ok beh after \<Longrightarrow> promises_ok c"
proof (induction rule: rtranclp_induct)
  case base
  show ?case by (simp add: no_queues_def held_def total_def)
next
  case (step c c')
  then show ?case using step_promises run_ok by blast
qed

lemma total_zero: "finite (dom m) \<Longrightarrow> total g m = 0 \<longleftrightarrow> (\<forall>x v. m x = Some v \<longrightarrow> g v = 0)"
  by (auto simp: total_def weight_def domIff split: option.splits)

lemma one_at_zero [simp]: "one_at p q = 0 \<longleftrightarrow> q \<noteq> p"
  by (simp add: one_at_def)

lemma due_zero: "due (one_at p) ops = 0 \<longleftrightarrow> Resolve p \<notin> set ops"
proof (induction ops)
  case (Cons x ops)
  then show ?case by (cases x) (auto simp: one_at_def)
qed simp



subsection \<open>Examples\<close>

text \<open>The calls on the stack, one after the other.\<close>

fun settle :: "nat \<Rightarrow> (nat \<Rightarrow> nat \<Rightarrow> ustring \<Rightarrow> qop list) \<Rightarrow> (nat \<Rightarrow> qop list) \<Rightarrow> qop list \<times> qstate \<Rightarrow> qop list \<times> qstate" where
  "settle 0 beh after c = c"
| "settle (Suc n) beh after ([], S) = ([], S)"
| "settle (Suc n) beh after (op # ops, S) = (case exec beh after op S of
     (Inr new, S') \<Rightarrow> settle n beh after (new @ ops, S')
   | (Inl err, S') \<Rightarrow> settle n beh after ([], S'))"

lemma settle_steps: "(qstep beh after)\<^sup>*\<^sup>* c (settle n beh after c)"
proof (induction n beh after c rule: settle.induct)
  case (3 n beh after op ops S)
  obtain r S' where r: "exec beh after op S = (r, S')" by (cases "exec beh after op S")
  show ?case
  proof (cases r)
    case (Inl err)
    then show ?thesis using r 3(1) [OF r [symmetric] Inl] converse_rtranclp_into_rtranclp [of "qstep beh after", OF qstep.fail] by simp
  next
    case (Inr new)
    then show ?thesis using r 3(2) [OF r [symmetric] Inr] converse_rtranclp_into_rtranclp [of "qstep beh after", OF qstep.work] by simp
  qed
qed simp_all

lemma settle_run: "list_all user_op ops \<Longrightarrow> (qstep beh after)\<^sup>*\<^sup>* ([], no_queues) (settle n beh after (ops, no_queues))"
  using converse_rtranclp_into_rtranclp [of "qstep beh after", OF qstep.program settle_steps] .

abbreviation (input) keeps_next :: "nat \<Rightarrow> nat \<Rightarrow> ustring \<Rightarrow> qop list" where
  "keeps_next \<equiv> \<lambda>n e t. []"

definition demo_queue :: "qop list \<times> qstate" where
  "demo_queue = settle 3 keeps_next (\<lambda>_. []) ([QueueOn 0 (u ''a'') (One (Run 1)), QueueOn 0 (u ''a'') (One (Run 2)), Dequeue 0 (u ''a'')], no_queues)"

lemma demo_queue_run: "(qstep keeps_next (\<lambda>_. []))\<^sup>*\<^sup>* ([], no_queues) (fst demo_queue, snd demo_queue)" "programs_ok keeps_next (\<lambda>_. [])"
proof -
  show "(qstep keeps_next (\<lambda>_. []))\<^sup>*\<^sup>* ([], no_queues) (fst demo_queue, snd demo_queue)"
    unfolding prod.collapse demo_queue_def by (rule settle_run) simp
  show "programs_ok keeps_next (\<lambda>_. [])" by (simp add: programs_ok_def)
qed

theorem queue_fifo_witness: "waiting_entries 0 (u ''aqueue'') (snd demo_queue) = [Run 2] \<and> Called 0 (u ''aqueue'') (Run 1) \<in> set (qlog (snd demo_queue))"
proof -
  have "qlog (snd demo_queue) = [Added 0 (u ''aqueue'') (Run 1), Added 0 (u ''aqueue'') (Run 2), Called 0 (u ''aqueue'') (Run 1)]" by code_simp
  then show ?thesis using queue_fifo [OF demo_queue_run(2,1), of 0 "u ''aqueue''"] by simp
qed

definition demo_wait :: "qop list \<times> qstate" where
  "demo_wait = settle 4 keeps_next (\<lambda>_. []) ([QueueOn 0 (u ''fx'') (One Delay), Promise [0] (u ''fx'')], no_queues)"


text \<open>A queue of another type that is cleared and never dequeued keeps its hooks: a promise for it waits for ever, although the queue is
  empty and nothing is in progress.\<close>

lemma cleared_queue_blocks_promise:
  fixes c :: "qop list \<times> qstate"
  defines "c \<equiv> settle 4 keeps_next (\<lambda>_. []) (clearQueue [0] (u ''c'') @ [Promise [0] (u ''c'')], no_queues)"
  shows "fst c = []" "timers (snd c) = []" "waiting_entries 0 (u ''cqueue'') (snd c) = []" "promises (snd c) = [1]" "settled (snd c) = []"
  unfolding c_def by code_simp+

end
