(* ===== verification/FxQueues.thy ===== *)
theory FxQueues
  imports Queues
begin

text \<open>
  The queues of the type \<open>fx\<close>, which are dequeued by themselves, under programs that use them as effects do: one effect of an element
  runs at a time, and the queues drain.
\<close>

subsection \<open>The queue of effects\<close>

text \<open>Programs that use the queues as effects do: they add delays and functions that call \<open>next\<close>, and wait for promises, all with
  the type \<open>fx\<close>.\<close>

abbreviation (input) fx :: ustring where
  "fx \<equiv> u ''fx''"

definition calls_next :: "nat \<Rightarrow> nat \<Rightarrow> ustring \<Rightarrow> qop list" where
  "calls_next n e t = [Dequeue e t]"

fun fx_op :: "qop \<Rightarrow> bool" where
  "fx_op (QueueOn e t (One f)) \<longleftrightarrow> t = fx \<and> f \<noteq> InProgress"
| "fx_op (Promise es t) \<longleftrightarrow> or_fx t = fx"
| "fx_op _ \<longleftrightarrow> False"

text \<open>A step that the library makes by itself, and a step of such a program.\<close>

inductive fx_work :: "(nat \<Rightarrow> qop list) \<Rightarrow> qop list \<times> qstate \<Rightarrow> qop list \<times> qstate \<Rightarrow> bool" for after where
  run: "exec calls_next after op S = (Inr new, S') \<Longrightarrow> fx_work after (op # ops, S) (new @ ops, S')"
| timer: "(k, e, t) \<in> set (timers S) \<Longrightarrow> fx_work after ([], S) ([Dequeue e t], S\<lparr>timers := remove1 (k, e, t) (timers S)\<rparr>)"

inductive fx_step :: "(nat \<Rightarrow> qop list) \<Rightarrow> qop list \<times> qstate \<Rightarrow> qop list \<times> qstate \<Rightarrow> bool" for after where
  work: "fx_work after c c' \<Longrightarrow> fx_step after c c'"
| program: "list_all fx_op ops \<Longrightarrow> fx_step after ([], S) (ops, S)"

lemma fx_user: "fx_op op \<Longrightarrow> user_op op"
  by (cases op rule: fx_op.cases) auto

lemma fx_qstep: "fx_step after c c' \<Longrightarrow> qstep calls_next after c c'"
proof (induction rule: fx_step.induct)
  case (work c c')
  then show ?case by (induction rule: fx_work.induct) (auto intro: qstep.intros)
next
  case (program ops S)
  then have "list_all user_op ops" by (auto simp: list_all_iff intro: fx_user)
  then show ?case by (rule qstep.program)
qed

lemma fx_programs: "(\<And>p. list_all fx_op (after p)) \<Longrightarrow> programs_ok calls_next after"
  by (auto simp: programs_ok_def calls_next_def list_all_iff intro: fx_user)

text \<open>The calls of \<open>next\<close> that are to come for an element.\<close>

definition nexts :: "nat \<Rightarrow> qop list \<Rightarrow> qstate \<Rightarrow> nat" where
  "nexts e ops S = length (filter (\<lambda>(k, e', t). e' = e) (timers S)) + length (filter (\<lambda>op. op = Dequeue e fx) ops)"

definition fx_element :: "nat \<Rightarrow> qop list \<Rightarrow> qstate \<Rightarrow> bool" where
  "fx_element e ops S \<longleftrightarrow> (case queues S (e, queue_key fx) of
     None \<Rightarrow> nexts e ops S = 0 \<and> hooks S (e, hooks_key fx) = None
   | Some q \<Rightarrow> q \<noteq> [] \<and> hd q = InProgress \<and> nexts e ops S = 1 \<and> hooks S (e, hooks_key fx) \<noteq> None)"

fun fx_ok :: "qop list \<times> qstate \<Rightarrow> bool" where
  "fx_ok (ops, S) \<longleftrightarrow> (\<forall>e. fx_element e ops S) \<and> (\<forall>(k, e, t) \<in> set (timers S). t = fx) \<and>
     (\<forall>op \<in> set ops. fx_op op \<or> (\<exists>e. op = Dequeue e fx) \<or> (\<exists>p. op = Resolve p)) \<and>
     (\<forall>e k. k \<noteq> hooks_key fx \<longrightarrow> hooks S (e, k) = None) \<and> (\<forall>e k. k \<noteq> queue_key fx \<longrightarrow> queues S (e, k) = None)"


lemma or_fx_fx [simp]: "or_fx fx = fx"
  by (simp add: or_fx_def)

lemma hooks_after: "hooks (set_stop e t s S) x = (if x = (e, hooks_key t) then map_option (\<lambda>h. h\<lparr>stop := s\<rparr>) (hooks S x) else hooks S x)"
  "hooks (queueHooks e t S) x = (if x = (e, hooks_key t) \<and> hooks S x = None then Some \<lparr>stop = None, resolvers = []\<rparr> else hooks S x)"
  by (auto simp: set_stop_def queueHooks_def split: option.splits)

text \<open>\<open>dequeue\<close> of the effects of an element.\<close>

lemma fx_dequeue:
  assumes ok: "queues_ok S"
  obtains (empty) new T where "jq_dequeue calls_next e fx S = (Inr new, T)" "waiting_entries e (queue_key fx) S = []"
      "queues T = (queues S)((e, queue_key fx) := None)" "hooks T = (hooks S)((e, hooks_key fx) := None)" "timers T = timers S" "\<forall>op \<in> set new. \<exists>p. op = Resolve p"
  | (call) new T f r where "jq_dequeue calls_next e fx S = (Inr new, T)" "waiting_entries e (queue_key fx) S = f # r" "InProgress \<notin> set r"
      "queues T = (queues S)((e, queue_key fx) \<mapsto> InProgress # r)" "\<And>x. x \<noteq> (e, hooks_key fx) \<Longrightarrow> hooks T x = hooks S x" "hooks T (e, hooks_key fx) \<noteq> None"
      "new = [] \<and> (\<exists>k. timers T = timers S @ [(k, e, fx)]) \<or> new = [Dequeue e fx] \<and> timers T = timers S"
  using ok
proof (cases rule: dequeue_cases [where beh = calls_next and e = e and ?t0.0 = fx])
  case empty
  let ?S = "queueHooks e fx (put_queue e fx [] S)"
  obtain new T where F: "fire_empty e fx ?S = (new, T)" by (cases "fire_empty e fx ?S")
  have "jq_dequeue calls_next e fx S = (Inr new, T)" "waiting_entries e (queue_key fx) S = []" using empty F by simp_all
  then show ?thesis
  proof (rule that(1))
    show "queues T = (queues S)((e, queue_key fx) := None)" "timers T = timers S" using F by (auto simp: fire_empty_def put_queue_def)
    show "hooks T = (hooks S)((e, hooks_key fx) := None)" using F by (auto simp: fire_empty_def put_queue_def fun_eq_iff hooks_after)
    show "\<forall>op \<in> set new. \<exists>p. op = Resolve p" using F by (auto simp: fire_empty_def split: option.splits)
  qed
next
  case (call f r T)
  obtain new U where c: "call_entry calls_next e fx f T = (Inr new, U)" "queues U = queues T" "new = (case f of Run n \<Rightarrow> calls_next n e fx | _ \<Rightarrow> [])"
    "timers U = timers T @ (if f = Delay then [(next_timer T, e, fx)] else [])" "hooks U = hooks T \<or> (\<exists>s. hooks U = hooks (set_stop e fx s T))"
    using call_entry_ok [OF call(2), of calls_next e fx T] by metis
  have D: "jq_dequeue calls_next e fx S = (Inr new, U)" "waiting_entries e (queue_key fx) S = f # r" using call(1,4) c(1) by simp_all
  show ?thesis
  proof (rule that(2) [OF D call(3) [simplified]])
    show "queues U = (queues S)((e, queue_key fx) \<mapsto> InProgress # r)" using c(2) call(5) by simp
    have T: "x \<noteq> (e, hooks_key fx) \<Longrightarrow> hooks T x = hooks S x" "hooks T (e, hooks_key fx) \<noteq> None" for x using call(7) by (auto simp: hooks_after)
    show "hooks U x = hooks S x" if "x \<noteq> (e, hooks_key fx)" for x using c(5) T(1) [OF that] that by (auto simp: hooks_after)
    show "hooks U (e, hooks_key fx) \<noteq> None" using c(5) T(2) by (auto simp: hooks_after)
    show "new = [] \<and> (\<exists>k. timers U = timers S @ [(k, e, fx)]) \<or> new = [Dequeue e fx] \<and> timers U = timers S"
      using c(3,4) call(2,8) by (cases f) (auto simp: calls_next_def)
  qed
qed

lemma nexts_other: "e' \<noteq> e \<Longrightarrow> timers T = timers S @ map (\<lambda>k. (k, e, fx)) ks \<Longrightarrow> \<forall>op \<in> set new. op = Dequeue e fx \<or> (\<exists>p. op = Resolve p) \<Longrightarrow>
    nexts e' (new @ ops) T = nexts e' ops S"
proof -
  assume a: "e' \<noteq> e" "timers T = timers S @ map (\<lambda>k. (k, e, fx)) ks" "\<forall>op \<in> set new. op = Dequeue e fx \<or> (\<exists>p. op = Resolve p)"
  have "filter (\<lambda>op. op = Dequeue e' fx) new = []" "filter (\<lambda>(k, e0, t). e0 = e') (map (\<lambda>k. (k, e, fx)) ks) = []" using a by (auto simp: filter_empty_conv)
  then show ?thesis using a(2) by (simp add: nexts_def)
qed

lemma nexts_same: "timers T = timers S @ map (\<lambda>k. (k, e, fx)) ks \<Longrightarrow> nexts e (new @ ops) T = nexts e ops S + length ks + length (filter (\<lambda>op. op = Dequeue e fx) new)"
  by (simp add: nexts_def comp_def)

text \<open>A step that works on the queue of one element.\<close>

lemma fx_local:
  assumes "fx_ok (op # ops, S)" "op = Dequeue e fx \<or> (\<exists>f. op = QueueOn e fx (One f))"
    "\<And>x. x \<noteq> (e, queue_key fx) \<Longrightarrow> queues T x = queues S x" "\<And>x. x \<noteq> (e, hooks_key fx) \<Longrightarrow> hooks T x = hooks S x"
    "timers T = timers S @ map (\<lambda>k. (k, e, fx)) ks" "\<forall>op \<in> set new. op = Dequeue e fx \<or> (\<exists>p. op = Resolve p)" "fx_element e (new @ ops) T"
  shows "fx_ok (new @ ops, T)"
proof -
  have "fx_element e' (new @ ops) T" if "e' \<noteq> e" for e'
  proof -
    have "fx_element e' (op # ops) S" using assms(1) by simp
    moreover have "nexts e' (op # ops) S = nexts e' ops S" using assms(2) that by (auto simp: nexts_def)
    moreover have "queues T (e', queue_key fx) = queues S (e', queue_key fx)" "hooks T (e', hooks_key fx) = hooks S (e', hooks_key fx)"
      using assms(3,4) that by simp_all
    ultimately show ?thesis using nexts_other [OF that assms(5,6)] by (simp add: fx_element_def split: option.splits)
  qed
  then have "\<forall>e. fx_element e (new @ ops) T" using assms(7) by (metis)
  moreover have "\<forall>(k, e, t) \<in> set (timers T). t = fx" using assms(1,5) by auto
  moreover have "hooks T (e', k) = None" if "k \<noteq> hooks_key fx" for e' k using assms(1,4) that by simp
  moreover have "queues T (e', k) = None" if "k \<noteq> queue_key fx" for e' k using assms(1,3) that by simp
  ultimately show ?thesis using assms(1,6) by auto
qed


lemma fx_called:
  assumes "queues_ok S" "waiting_entries e (queue_key fx) S = f # r" "jq_dequeue calls_next e fx S = (Inr new, T)"
  shows "\<exists>ks. queues T = (queues S)((e, queue_key fx) \<mapsto> InProgress # r) \<and> (\<forall>x. x \<noteq> (e, hooks_key fx) \<longrightarrow> hooks T x = hooks S x) \<and>
    hooks T (e, hooks_key fx) \<noteq> None \<and> timers T = timers S @ map (\<lambda>k. (k, e, fx)) ks \<and> (\<forall>op \<in> set new. op = Dequeue e fx) \<and> length ks + length new = 1"
  using assms(1)
proof (cases rule: fx_dequeue [where e = e])
  case (call new' T' g r')
  then have e: "new' = new" "T' = T" "r' = r" using assms(2,3) by simp_all
  from call(7) consider k where "new = []" "timers T = timers S @ [(k, e, fx)]" | "new = [Dequeue e fx]" "timers T = timers S" using e by auto
  then show ?thesis
  proof cases
    case (1 k)
    then show ?thesis using call(4-6) e by (intro exI [of _ "[k]"]) simp
  next
    case 2
    then show ?thesis using call(4-6) e by (intro exI [of _ "[]"]) simp
  qed
qed (use assms(2) in simp)

lemma fx_dequeue_ok:
  assumes "fx_ok (Dequeue e fx # ops, S)" "queues_ok S" "exec calls_next after (Dequeue e fx) S = (Inr new, T)"
  shows "fx_ok (new @ ops, T)"
proof -
  have el: "fx_element e (Dequeue e fx # ops) S" using assms(1) by simp
  then obtain q where q: "queues S (e, queue_key fx) = Some q" "nexts e (Dequeue e fx # ops) S = 1"
    by (auto simp: fx_element_def nexts_def split: option.splits)
  then have n: "nexts e ops S = 0" by (simp add: nexts_def)
  show ?thesis using assms(2)
  proof (cases rule: fx_dequeue [where e = e])
    case (empty new' T')
    then have e: "new' = new" "T' = T" using assms(3) by simp_all
    then have r: "filter (\<lambda>op. op = Dequeue e fx) new = []" using empty(6) by (auto simp: filter_empty_conv)
    have t: "timers T = timers S @ map (\<lambda>k. (k, e, fx)) []" using empty(5) e by simp
    have "fx_element e (new @ ops) T" using empty(3,4) e nexts_same [OF t, of new ops] n r by (simp add: fx_element_def)
    then show ?thesis using empty e by (intro fx_local [OF assms(1) _ _ _ t]) auto
  next
    case (call new' T' f r)
    then have "jq_dequeue calls_next e fx S = (Inr new, T)" using assms(3) by simp
    from fx_called [OF assms(2) call(2) this] obtain ks where T: "queues T = (queues S)((e, queue_key fx) \<mapsto> InProgress # r)"
      "\<And>x. x \<noteq> (e, hooks_key fx) \<Longrightarrow> hooks T x = hooks S x" "hooks T (e, hooks_key fx) \<noteq> None" "timers T = timers S @ map (\<lambda>k. (k, e, fx)) ks"
      "\<forall>op \<in> set new. op = Dequeue e fx" "length ks + length new = 1" by blast
    then have "filter (\<lambda>op. op = Dequeue e fx) new = new" by (simp add: filter_id_conv)
    then have "fx_element e (new @ ops) T" using T nexts_same [OF T(4), of new ops] n by (simp add: fx_element_def)
    then show ?thesis using T by (intro fx_local [OF assms(1) _ _ _ T(4)]) auto
  qed
qed

lemma fx_queue_ok:
  assumes "fx_ok (QueueOn e fx (One f) # ops, S)" "queues_ok S" "exec calls_next after (QueueOn e fx (One f)) S = (Inr new, T)"
  shows "fx_ok (new @ ops, T)"
proof -
  have el: "fx_element e (QueueOn e fx (One f) # ops) S" and f: "f \<noteq> InProgress" using assms(1) by simp_all
  have n: "nexts e (QueueOn e fx (One f) # ops) S = nexts e ops S" by (simp add: nexts_def)
  obtain q U where q: "jq_queue e fx (Some (One f)) S = (q, U)" by (cases "jq_queue e fx (Some (One f)) S")
  then have U: "queues U = (queues S)((e, queue_key fx) \<mapsto> q)" "hooks U = hooks S" "timers U = timers S"
    "q = (case queues S (e, queue_key fx) of None \<Rightarrow> [f] | Some l \<Rightarrow> l @ [f])" by (auto simp: jq_queue_def Let_def)
  let ?V = "queueHooks e fx U"
  have okV: "queues_ok ?V" using queue_added_ok [OF assms(2) _ q] f queues_ok_cong [of ?V U] by simp
  show ?thesis
  proof (cases "queues S (e, queue_key fx)")
    case None
    then have n0: "nexts e ops S = 0" using el n by (simp add: fx_element_def)
    have D: "jq_dequeue calls_next e fx ?V = (Inr new, T)" using assms(3) q None U(4) f by (simp add: queue_on_def)
    have "waiting_entries e (queue_key fx) ?V = [f]" using U(1,4) None f by (simp add: waiting_entries_def)
    from fx_called [OF okV this D] obtain ks where T: "queues T = (queues ?V)((e, queue_key fx) \<mapsto> [InProgress])"
      "\<And>x. x \<noteq> (e, hooks_key fx) \<Longrightarrow> hooks T x = hooks ?V x" "hooks T (e, hooks_key fx) \<noteq> None" "timers T = timers ?V @ map (\<lambda>k. (k, e, fx)) ks"
      "\<forall>op \<in> set new. op = Dequeue e fx" "length ks + length new = 1" by blast
    have t: "timers T = timers S @ map (\<lambda>k. (k, e, fx)) ks" using T(4) U(3) by simp
    have "filter (\<lambda>op. op = Dequeue e fx) new = new" using T(5) by (simp add: filter_id_conv)
    then have "fx_element e (new @ ops) T" using T(1,3,6) nexts_same [OF t, of new ops] n0 by (simp add: fx_element_def)
    then show ?thesis using T U(1,2) by (intro fx_local [OF assms(1) _ _ _ t]) (auto simp: hooks_after)
  next
    case (Some l)
    then have l: "l \<noteq> []" "hd l = InProgress" "nexts e ops S = 1" "hooks S (e, hooks_key fx) \<noteq> None" using el n by (simp_all add: fx_element_def)
    have q': "q = l @ [f]" "hd q = InProgress" "q \<noteq> []" using U(4) Some l by simp_all
    have "(new, T) = ([], ?V)" using assms(3) q q'(2,3) by (simp add: queue_on_def Let_def)
    then have e: "new = []" "T = ?V" by simp_all
    have t: "timers T = timers S @ map (\<lambda>k. (k, e, fx)) []" using e U(3) by simp
    have "fx_element e (new @ ops) T" using e U(1,2) q' l nexts_same [OF t, of new ops] by (simp add: fx_element_def hooks_after)
    then show ?thesis using e U(1,2) l(4) by (intro fx_local [OF assms(1) _ _ _ t]) (auto simp: hooks_after)
  qed
qed


lemma fx_quiet_ops:
  assumes "fx_ok (op # ops, S)" "\<forall>e. op \<noteq> Dequeue e fx" "queues T = queues S" "timers T = timers S" "\<And>x. hooks T x = None \<longleftrightarrow> hooks S x = None"
    "\<forall>op \<in> set new. fx_op op \<or> (\<exists>p. op = Resolve p)"
  shows "fx_ok (new @ ops, T)"
proof -
  have "nexts e (new @ ops) T = nexts e (op # ops) S" for e
  proof -
    have "filter (\<lambda>op. op = Dequeue e fx) new = []" using assms(6) by (auto simp: filter_empty_conv)
    then show ?thesis using assms(2,4) by (simp add: nexts_def)
  qed
  then have "fx_element e (new @ ops) T = fx_element e (op # ops) S" for e
    using assms(3,5) by (cases "queues S (e, queue_key fx)") (simp_all add: fx_element_def)
  then show ?thesis using assms by auto
qed

lemma promise_hooks: "hooks (snd (make_promise es t S)) x = None \<longleftrightarrow> hooks S x = None"
proof -
  have "hooks (fold (add_resolver t' p) es' S') x = None \<longleftrightarrow> hooks S' x = None" for t' p es' S'
    by (induction es' arbitrary: S') (auto simp: add_resolver_def split: option.splits)
  then show ?thesis by (simp add: make_promise_def Let_def)
qed

lemma fx_work_ok:
  assumes "fx_work after c c'" "fx_ok c" "queues_ok (snd c)" "\<And>p. list_all fx_op (after p)"
  shows "fx_ok c'"
  using assms(1)
proof (cases rule: fx_work.cases)
  case (run op S new S' ops)
  have c: "fx_ok (op # ops, S)" "queues_ok S" using assms(2,3) by (simp_all only: run(1) snd_conv)
  consider e where "op = Dequeue e fx" | e f where "op = QueueOn e fx (One f)" | es t where "op = Promise es t" | p where "op = Resolve p"
    using c(1) by (cases op rule: fx_op.cases) auto
  then show ?thesis
  proof cases
    case 1
    show ?thesis unfolding run(2) by (rule fx_dequeue_ok [OF c(1) [unfolded 1] c(2) run(3) [unfolded 1]])
  next
    case 2
    show ?thesis unfolding run(2) by (rule fx_queue_ok [OF c(1) [unfolded 2] c(2) run(3) [unfolded 2]])
  next
    case (3 es t)
    then have P: "make_promise es t S = (new, S')" using run(3) by (cases "make_promise es t S") simp
    then have "queues S' = queues S" "timers S' = timers S" "\<exists>p. new = [Resolve p]" 
      using add_resolver_frame [of "or_fx t" "length (promises S)" "rev es"] by (auto simp: make_promise_def Let_def)
    then have "fx_ok (new @ ops, S')" using promise_hooks [of es t S] P 3 by (intro fx_quiet_ops [OF c(1)]) auto
    then show ?thesis by (simp only: run(2))
  next
    case (4 p)
    then have P: "resolve_one after p S = (new, S')" using run(3) by (cases "resolve_one after p S") simp
    then have "queues S' = queues S" "timers S' = timers S" "hooks S' = hooks S" "new = after p \<or> new = []" by (auto simp: resolve_one_def Let_def split: if_splits)
    then have "fx_ok (new @ ops, S')" using assms(4) 4 by (intro fx_quiet_ops [OF c(1)]) (auto simp: list_all_iff)
    then show ?thesis by (simp only: run(2))
  qed
next
  case (timer k e t S)
  have ok: "fx_ok ([], S)" using assms(2) timer(1) by simp
  then have t: "t = fx" using timer(3) by auto
  let ?T = "S\<lparr>timers := remove1 (k, e, t) (timers S)\<rparr>"
  have "nexts e' [Dequeue e t] ?T = nexts e' [] S" for e'
  proof (cases "e' = e")
    case True
    have "(k, e, t) \<in> set (filter (\<lambda>(k, e', t). e' = e) (timers S))" using timer(3) by simp
    then have "0 < length (filter (\<lambda>(k, e', t). e' = e) (timers S))" by (metis length_pos_if_in_set)
    then show ?thesis using True t timer(3) by (simp add: nexts_def filter_remove1 length_remove1)
  next
    case False
    then show ?thesis by (simp add: nexts_def filter_remove1 remove1_idem)
  qed
  then have "fx_element e' [Dequeue e t] ?T = fx_element e' [] S" for e' by (simp add: fx_element_def split: option.splits)
  moreover have "\<forall>x \<in> set (timers ?T). case x of (k, e, t) \<Rightarrow> t = fx" using ok set_remove1_subset [of "(k, e, t)" "timers S"] by auto
  ultimately show ?thesis unfolding timer(2) using ok t by simp
qed

lemma fx_step_ok:
  assumes "fx_step after c c'" "fx_ok c" "queues_ok (snd c)" "\<And>p. list_all fx_op (after p)"
  shows "fx_ok c'"
  using assms(1)
proof (cases rule: fx_step.cases)
  case work
  then show ?thesis using assms(2-4) by (rule fx_work_ok)
next
  case (program ops S)
  have ok: "fx_ok ([], S)" using assms(2) by (simp only: program(1))
  have "filter (\<lambda>op. op = Dequeue e fx) ops = []" for e using program(3) by (auto simp: filter_empty_conv list_all_iff)
  then have "nexts e ops S = nexts e [] S" for e by (simp add: nexts_def)
  then have "fx_element e ops S = fx_element e [] S" for e by (simp add: fx_element_def split: option.splits)
  then show ?thesis using ok program by (auto simp: list_all_iff)
qed

lemma fx_run_ok:
  assumes "\<And>p. list_all fx_op (after p)"
  shows "(fx_step after)\<^sup>*\<^sup>* ([], no_queues) c \<Longrightarrow> fx_ok c \<and> queues_ok (snd c) \<and> stack_ok (fst c) \<and> promises_ok c"
proof (induction rule: rtranclp_induct)
  case base
  have "fx_element e [] no_queues" for e by (simp add: fx_element_def nexts_def no_queues_def)
  then have "fx_ok ([], no_queues)" by (auto simp: no_queues_def)
  moreover have "promises_ok ([], no_queues)" by (simp add: no_queues_def held_def total_def)
  ultimately show ?case using start_ok by simp
next
  case (step c c')
  have q: "qstep calls_next after c c'" using step(2) by (rule fx_qstep)
  have "programs_ok calls_next after" using assms by (rule fx_programs)
  then show ?case using step fx_step_ok [OF step(2) _ _ assms] step_ok [OF q] step_promises [OF q] by blast
qed

text \<open>C30. One effect at a time: at any time an element has at most one call of \<open>next\<close> ahead, counting those of timers and those that
  are being made, it has one exactly while its queue exists, and the mark \<open>inprogress\<close> then is at the front of that queue.\<close>

theorem one_effect_at_a_time:
  assumes "\<And>p. list_all fx_op (after p)" "(fx_step after)\<^sup>*\<^sup>* ([], no_queues) (ops, S)"
  shows "case queues S (e, queue_key (u ''fx'')) of
      None \<Rightarrow> nexts e ops S = 0
    | Some q \<Rightarrow> nexts e ops S = 1 \<and> (\<exists>r. q = InProgress # r \<and> InProgress \<notin> set r)"
proof -
  have ok: "fx_element e ops S" "queues_ok S" using fx_run_ok [OF assms] by simp_all
  have "\<exists>r. q = InProgress # r \<and> InProgress \<notin> set r" if "queues S (e, queue_key (u ''fx'')) = Some q" "q \<noteq> []" "hd q = InProgress" for q
    using queues_okD [OF ok(2) that(1)] that(2,3) by (cases q) auto
  then show ?thesis using ok(1) by (auto simp: fx_element_def split: option.splits)
qed


subsection \<open>The queues drain\<close>

text \<open>What is left to do: two for each entry and each timer, one for each promise that waits for a queue, and the calls on the stack.\<close>

fun op_effort :: "qop \<Rightarrow> nat" where
  "op_effort (QueueOn e t data) = 3"
| "op_effort (Promise es t) = length es + 2"
| "op_effort _ = 1"

definition queued :: "qstate \<Rightarrow> nat" where
  "queued S = total (\<lambda>q. length (filter (\<lambda>f. f \<noteq> InProgress) q)) (queues S)"

fun effort :: "qop list \<times> qstate \<Rightarrow> nat" where
  "effort (ops, S) = 2 * queued S + 2 * length (timers S) + held (\<lambda>_. 1) S + sum_list (map op_effort ops)"

lemma queued_upd:
  assumes "finite (dom (queues S))" "queues T = (queues S)((e, k) := x)"
  shows "queued T + length (waiting_entries e k S) = queued S + weight (\<lambda>q. length (filter (\<lambda>f. f \<noteq> InProgress) q)) x"
  using total_upd [OF assms(1), of "\<lambda>q. length (filter (\<lambda>f. f \<noteq> InProgress) q)" "(e, k)" x]
  by (simp add: queued_def assms(2) waiting_entries_def weight_def split: option.splits)

lemma resolves_effort: "\<forall>op \<in> set ops. \<exists>p. op = Resolve p \<Longrightarrow> sum_list (map op_effort ops) = due (\<lambda>_. 1) ops"
proof (induction ops)
  case (Cons x ops)
  then show ?case by (cases x) auto
qed simp

lemma fx_finite: "fx_ok (ops, S) \<Longrightarrow> finite (dom (hooks S)) \<Longrightarrow> finite (dom (queues S))"
proof -
  assume ok: "fx_ok (ops, S)" and fin: "finite (dom (hooks S))"
  have "dom (queues S) \<subseteq> (\<lambda>(e, k). (e, queue_key fx)) ` dom (hooks S)"
  proof
    fix x assume x: "x \<in> dom (queues S)"
    obtain e k where ek: "x = (e, k)" by (cases x)
    then have k: "k = queue_key fx" using x ok by (metis domIff fx_ok.simps)
    have "fx_element e ops S" using ok by simp
    then have "(e, hooks_key fx) \<in> dom (hooks S)" using x ek k by (auto simp: fx_element_def)
    then show "x \<in> (\<lambda>(e, k). (e, queue_key fx)) ` dom (hooks S)" using ek k by force
  qed
  then show ?thesis using finite_subset finite_imageI [OF fin] by blast
qed

lemma call_effort:
  assumes "queues_ok S" "finite (dom (queues S))" "finite (dom (hooks S))" "waiting_entries e (queue_key fx) S = f # r" "jq_dequeue calls_next e fx S = (Inr new, T)"
  shows "effort (new @ ops, T) \<le> effort (ops, S)"
proof -
  from fx_called [OF assms(1,4,5)] obtain ks where T: "queues T = (queues S)((e, queue_key fx) \<mapsto> InProgress # r)" "timers T = timers S @ map (\<lambda>k. (k, e, fx)) ks"
    "\<forall>op \<in> set new. op = Dequeue e fx" "length ks + length new = 1" by blast
  have h: "held (\<lambda>_. 1) T + due (\<lambda>_. 1) new = held (\<lambda>_. 1) S" using dequeue_held [OF assms(1,3) _ assms(5), of "\<lambda>_. 1"] by (simp add: calls_next_def)
  have n: "sum_list (map op_effort new) = length new" "due (\<lambda>_. 1) new = 0" using T(3,4) by (cases new; cases "tl new"; simp)+
  have "InProgress \<notin> set r" using assms(1,4) fx_dequeue [OF assms(1), of e "InProgress \<notin> set r"] by auto
  then have "queued T + Suc (length r) = queued S + length r" using queued_upd [OF assms(2) T(1)] assms(4) by (simp add: weight_def clean_filter)
  then show ?thesis using T(2,4) h n by simp
qed

lemma empty_effort:
  assumes "queues_ok S" "finite (dom (queues S))" "finite (dom (hooks S))" "waiting_entries e (queue_key fx) S = []" "jq_dequeue calls_next e fx S = (Inr new, T)"
  shows "effort (new @ ops, T) = effort (ops, S)"
  using assms(1)
proof (cases rule: fx_dequeue [where e = e])
  case (empty new' T')
  then have e: "new' = new" "T' = T" using assms(5) by simp_all
  have h: "held (\<lambda>_. 1) T + due (\<lambda>_. 1) new = held (\<lambda>_. 1) S" using dequeue_held [OF assms(1,3) _ assms(5), of "\<lambda>_. 1"] by (simp add: calls_next_def)
  have "queued T = queued S" using queued_upd [OF assms(2) empty(3)] assms(4) e by (simp add: weight_def)
  then show ?thesis using h resolves_effort [of new] empty(5,6) e by simp
qed (use assms(4) in simp)


lemma promise_bound: "p < length (promises S) \<Longrightarrow> promises (fold (add_resolver t p) es S) ! p \<le> promises S ! p + length es"
proof (induction es arbitrary: S)
  case (Cons e es)
  have "promises (add_resolver t p e S) ! p \<le> promises S ! p + 1" "p < length (promises (add_resolver t p e S))"
    using Cons.prems by (auto simp: add_resolver_def split: option.splits)
  with Cons.IH [of "add_resolver t p e S"] show ?case by simp
qed simp

lemma promise_effort:
  assumes "finite (dom (hooks S))" "make_promise es t S = (new, T)"
  shows "effort (new @ ops, T) < effort (Promise es t # ops, S)"
proof -
  let ?p = "length (promises S)"
  define U where "U = S\<lparr>promises := promises S @ [1]\<rparr>"
  have T: "T = fold (add_resolver (or_fx t) ?p) (rev es) U" "new = [Resolve ?p]" using assms(2) by (auto simp: make_promise_def U_def Let_def)
  have U: "finite (dom (hooks U))" "?p < length (promises U)" "held (\<lambda>_. 1) U = held (\<lambda>_. 1) S" "promises U ! ?p = 1"
    using assms(1) held_cong [of U S] by (simp_all add: U_def)
  have "held (\<lambda>_. 1) T + 1 = held (\<lambda>_. 1) S + promises T ! ?p" using add_resolvers(1) [OF U(1,2), of "\<lambda>_. 1" "or_fx t" "rev es", folded T(1)] U(3,4) by simp
  moreover have "promises T ! ?p \<le> 1 + length es" using promise_bound [OF U(2), of "or_fx t" "rev es", folded T(1)] U(4) by simp
  moreover have "queues T = queues S" "timers T = timers S" using add_resolver_frame [of "or_fx t" ?p "rev es" U] by (simp_all add: T(1) U_def)
  ultimately show ?thesis using T(2) by (simp add: queued_def)
qed

lemma queue_effort:
  assumes "fx_ok (QueueOn e fx (One f) # ops, S)" "queues_ok S" "finite (dom (hooks S))" "queue_on calls_next e fx (One f) S = (Inr new, T)"
  shows "effort (new @ ops, T) < effort (QueueOn e fx (One f) # ops, S)"
proof -
  have el: "fx_element e (QueueOn e fx (One f) # ops) S" and f: "f \<noteq> InProgress" using assms(1) by simp_all
  have fin: "finite (dom (queues S))" using fx_finite [OF assms(1,3)] .
  obtain q U where q: "jq_queue e fx (Some (One f)) S = (q, U)" by (cases "jq_queue e fx (Some (One f)) S")
  then have U: "queues U = (queues S)((e, queue_key fx) \<mapsto> q)" "hooks U = hooks S" "timers U = timers S"
    "q = (case queues S (e, queue_key fx) of None \<Rightarrow> [f] | Some l \<Rightarrow> l @ [f])" by (auto simp: jq_queue_def Let_def)
  let ?V = "queueHooks e fx U"
  have finU: "finite (dom (hooks U))" using assms(3) U(2) by simp
  have V: "queues_ok ?V" "finite (dom (queues ?V))" "finite (dom (hooks ?V))" "held (\<lambda>_. 1) ?V = held (\<lambda>_. 1) S"
    using queue_added_ok [OF assms(2) _ q] f queues_ok_cong [of ?V U] fin U(1) held_hooks(2) [OF finU] held_hooks(1) [OF finU] held_cong [OF U(2)] by simp_all
  have w: "filter (\<lambda>f. f \<noteq> InProgress) q = waiting_entries e (queue_key fx) S @ [f]" using U(4) f by (auto simp: waiting_entries_def split: option.splits)
  have "queued ?V = queued S + 1" using queued_upd [OF fin U(1)] w by (simp add: queued_def weight_def)
  then have e: "effort (ops, ?V) + 1 = effort (QueueOn e fx (One f) # ops, S)" using V(4) U(3) by simp
  show ?thesis
  proof (cases "q = [] \<or> hd q \<noteq> InProgress")
    case True
    then have D: "jq_dequeue calls_next e fx ?V = (Inr new, T)" using assms(4) q by (simp add: queue_on_def)
    obtain g r where "waiting_entries e (queue_key fx) ?V = g # r" using w U(1) by (cases "waiting_entries e (queue_key fx) S") (auto simp: waiting_entries_def)
    from call_effort [OF V(1-3) this D, of ops] show ?thesis using e by simp
  next
    case False
    then have "new = [] \<and> T = ?V" using assms(4) q by (simp add: queue_on_def)
    then show ?thesis using e by simp
  qed
qed

lemma work_effort:
  assumes "fx_work (\<lambda>_. []) c c'" "fx_ok c" "queues_ok (snd c)" "promises_ok c"
  shows "effort c' < effort c"
  using assms(1)
proof (cases rule: fx_work.cases)
  case (run op S new S' ops)
  have c: "fx_ok (op # ops, S)" "queues_ok S" "finite (dom (hooks S))" using assms(2-4) unfolding run(1) by simp_all
  have fin: "finite (dom (queues S))" using fx_finite [OF c(1,3)] .
  consider e where "op = Dequeue e fx" | e f where "op = QueueOn e fx (One f)" | es t where "op = Promise es t" | p where "op = Resolve p"
    using c(1) by (cases op rule: fx_op.cases) auto
  then show ?thesis
  proof cases
    case (1 e)
    then have D: "jq_dequeue calls_next e fx S = (Inr new, S')" using run(3) by simp
    have "effort (new @ ops, S') \<le> effort (ops, S)"
    proof (cases "waiting_entries e (queue_key fx) S")
      case Nil
      from empty_effort [OF c(2) fin c(3) Nil D, of ops] show ?thesis by simp
    next
      case (Cons f r)
      from call_effort [OF c(2) fin c(3) Cons D] show ?thesis .
    qed
    then show ?thesis unfolding run(1,2) 1 by simp
  next
    case (2 e f)
    then have "queue_on calls_next e fx (One f) S = (Inr new, S')" using run(3) by simp
    then show ?thesis unfolding run(1,2) 2 by (rule queue_effort [OF c(1) [unfolded 2] c(2,3)])
  next
    case (3 es t)
    then have "make_promise es t S = (new, S')" using run(3) by (cases "make_promise es t S") simp
    then show ?thesis unfolding run(1,2) 3 by (rule promise_effort [OF c(3)])
  next
    case (4 p)
    then have "resolve_one (\<lambda>_. []) p S = (new, S')" using run(3) by (cases "resolve_one (\<lambda>_. []) p S") simp
    then have "queues S' = queues S" "timers S' = timers S" "hooks S' = hooks S" "new = []" by (auto simp: resolve_one_def Let_def split: if_splits)
    then show ?thesis unfolding run(1,2) 4 using held_cong [of S' S] by (simp add: queued_def)
  qed
next
  case (timer k e t S)
  have "held w (S\<lparr>timers := remove1 (k, e, t) (timers S)\<rparr>) = held w S" for w by (rule held_cong) simp
  moreover obtain n where "length (timers S) = Suc n" using timer(3) by (cases "timers S") auto
  ultimately show ?thesis unfolding timer(1,2) using timer(3) by (simp add: queued_def length_remove1)
qed


definition drains :: "qop list \<times> qstate \<Rightarrow> bool" where
  "drains c \<longleftrightarrow> fx_ok c \<and> queues_ok (snd c) \<and> stack_ok (fst c) \<and> promises_ok c"

lemma drains_work: "fx_work (\<lambda>_. []) c c' \<Longrightarrow> drains c \<Longrightarrow> drains c' \<and> effort c' < effort c"
proof -
  assume w: "fx_work (\<lambda>_. []) c c'" and d: "drains c"
  have q: "qstep calls_next (\<lambda>_. []) c c'" using w by (intro fx_qstep fx_step.work)
  have p: "programs_ok calls_next (\<lambda>_. [])" by (rule fx_programs) simp
  have "fx_ok c" "queues_ok (snd c)" using d by (simp_all only: drains_def)
  from fx_work_ok [OF w this] have "fx_ok c'" by simp
  then show ?thesis using d step_ok [OF q _ _ p] step_promises [OF q _ _ _ p] work_effort [OF w] by (simp add: drains_def)
qed

lemma work_bounded: "((fx_work (\<lambda>_. [])) ^^ n) c c' \<Longrightarrow> drains c \<Longrightarrow> drains c' \<and> effort c' + n \<le> effort c"
proof (induction n arbitrary: c')
  case (Suc n)
  then obtain c1 where "((fx_work (\<lambda>_. [])) ^^ n) c c1" "fx_work (\<lambda>_. []) c1 c'" by auto
  with Suc.IH [of c1] Suc.prems(2) drains_work [of c1 c'] show ?case by auto
qed simp

lemma work_goes_on: "drains (ops, S) \<Longrightarrow> ops \<noteq> [] \<or> timers S \<noteq> [] \<Longrightarrow> \<exists>c'. fx_work (\<lambda>_. []) (ops, S) c'"
proof (cases ops)
  case Nil
  assume "ops \<noteq> [] \<or> timers S \<noteq> []"
  then obtain k e t where "(k, e, t) \<in> set (timers S)" using Nil by (cases "timers S") auto
  then show ?thesis unfolding Nil by (blast intro: fx_work.timer)
next
  case (Cons op ops')
  assume d: "drains (ops, S)"
  then have "queues_ok S" "stack_ok [op]" by (simp_all add: drains_def Cons stack_ok_def)
  moreover have "programs_ok calls_next (\<lambda>_. [])" by (rule fx_programs) simp
  ultimately obtain new T where "exec calls_next (\<lambda>_. []) op S = (Inr new, T)" using exec_ok by metis
  then show ?thesis unfolding Cons by (blast intro: fx_work.run)
qed

lemma drained:
  assumes "drains ([], S)" "timers S = []"
  shows "queues S = (\<lambda>_. None)" "fifo e k [] (qlog S) = Some []" "set (settled S) = {..<length (promises S)}"
proof -
  have ok: "fx_ok ([], S)" "queues_ok S" "promises_ok ([], S)" using assms(1) by (simp_all add: drains_def)
  have "nexts e [] S = 0" for e using assms(2) by (simp add: nexts_def)
  then have n: "queues S (e, queue_key fx) = None \<and> hooks S (e, hooks_key fx) = None" for e
    using ok(1) by (auto simp: fx_element_def split: option.splits dest!: spec [of _ e])
  have "queues S (e, k) = None" "hooks S (e, k) = None" for e k
    using ok(1) n [of e] by (cases "k = queue_key fx"; cases "k = hooks_key fx"; simp)+
  then have none: "queues S = (\<lambda>_. None)" "hooks S = (\<lambda>_. None)" by auto
  then show "queues S = (\<lambda>_. None)" by simp
  have "waiting_entries e k S = []" using none(1) by (simp add: waiting_entries_def)
  then show "fifo e k [] (qlog S) = Some []" using ok(2) unfolding queues_ok_def by metis
  have "promises S ! p = 0" if "p < length (promises S)" for p using ok(3) that none(2) by (auto simp: held_def total_def dest!: spec [of _ p])
  then show "set (settled S) = {..<length (promises S)}" using ok(3) by auto
qed

lemma work_ends: "drains c \<Longrightarrow> \<exists>S. (fx_work (\<lambda>_. []))\<^sup>*\<^sup>* c ([], S) \<and> timers S = []"
proof (induction c rule: measure_induct_rule [of effort])
  case (less c)
  obtain ops S where c: "c = (ops, S)" by (cases c)
  show ?case
  proof (cases "ops = [] \<and> timers S = []")
    case True
    then show ?thesis using c by auto
  next
    case False
    then obtain c' where w: "fx_work (\<lambda>_. []) c c'" using work_goes_on less.prems c by blast
    then have "drains c'" "effort c' < effort c" using drains_work less.prems by blast+
    then show ?thesis using less.IH converse_rtranclp_into_rtranclp [of "fx_work (\<lambda>_. [])", OF w] by blast
  qed
qed

text \<open>C29. The queues of effects drain: whatever a program has queued and waits for, the library gets to the end by itself, after a number of steps
  that is at most the effort of the state, with no timer and no queue left; by then every function that was added has been called, in
  order, and every promise is resolved.\<close>

theorem queues_drain:
  assumes "(fx_step (\<lambda>_. []))\<^sup>*\<^sup>* ([], no_queues) c"
  shows "(\<forall>n c'. ((fx_work (\<lambda>_. [])) ^^ n) c c' \<longrightarrow> n \<le> effort c) \<and>
    (\<exists>S. (fx_work (\<lambda>_. []))\<^sup>*\<^sup>* c ([], S) \<and> timers S = [] \<and> queues S = (\<lambda>_. None) \<and>
      (\<forall>e k. fifo e k [] (qlog S) = Some []) \<and> set (settled S) = {..<length (promises S)})"
proof -
  have d: "drains c" using fx_run_ok [OF _ assms] by (simp add: drains_def)
  obtain S where S: "(fx_work (\<lambda>_. []))\<^sup>*\<^sup>* c ([], S)" "timers S = []" using work_ends [OF d] by blast
  then obtain n where "((fx_work (\<lambda>_. [])) ^^ n) c ([], S)" by (meson rtranclp_imp_relpowp)
  then have "drains ([], S)" using work_bounded [OF _ d] by blast
  note e = drained [OF this S(2)]
  have "n \<le> effort c" if "((fx_work (\<lambda>_. [])) ^^ n) c c'" for n c' using work_bounded [OF that d] by linarith
  then show ?thesis using S e by blast
qed

subsection \<open>An example\<close>

lemma settle_fx: "(fx_step after)\<^sup>*\<^sup>* ([], no_queues) (ops, S) \<Longrightarrow> (\<And>p. list_all fx_op (after p)) \<Longrightarrow> (fx_step after)\<^sup>*\<^sup>* ([], no_queues) (settle n calls_next after (ops, S))"
proof (induction n arbitrary: ops S)
  case (Suc n)
  show ?case
  proof (cases ops)
    case Nil
    then show ?thesis using Suc.prems by simp
  next
    case (Cons op ops')
    have "queues_ok S" "stack_ok [op]" using fx_run_ok [OF Suc.prems(2,1)] Cons by (simp_all add: stack_ok_def)
    moreover have "programs_ok calls_next after" using Suc.prems(2) by (rule fx_programs)
    ultimately obtain new T where e: "exec calls_next after op S = (Inr new, T)" using exec_ok by metis
    then have "fx_step after (ops, S) (new @ ops', T)" unfolding Cons by (intro fx_step.work fx_work.run)
    then have "(fx_step after)\<^sup>*\<^sup>* ([], no_queues) (new @ ops', T)" using Suc.prems(1) by (rule rtranclp.rtrancl_into_rtrancl [rotated])
    from Suc.IH [OF this Suc.prems(2)] show ?thesis using Cons e by simp
  qed
qed simp

definition demo_effects :: "qop list \<times> qstate" where
  "demo_effects = settle 6 calls_next (\<lambda>_. []) (fn_delay [0] [] @ fn_queue [0] (u ''fx'') (One (Run 1)) @ fn_delay [0] [] @ [Promise [0] []], no_queues)"

lemma demo_effects_run: "(fx_step (\<lambda>_. []))\<^sup>*\<^sup>* ([], no_queues) (fst demo_effects, snd demo_effects)"
proof -
  have "list_all fx_op (fn_delay [0] [] @ fn_queue [0] (u ''fx'') (One (Run 1)) @ fn_delay [0] [] @ [Promise [0] []])"
    by (simp add: fn_delay_def fn_queue_def or_fx_def)
  from fx_step.program [OF this, of "\<lambda>_. []" no_queues] show ?thesis
    unfolding prod.collapse demo_effects_def by (intro settle_fx r_into_rtranclp) simp_all
qed

theorem one_effect_at_a_time_witness: "length (timers (snd demo_effects)) = 1 \<and> nexts 0 (fst demo_effects) (snd demo_effects) = 1"
proof -
  have "length (timers (snd demo_effects)) = 1" "queues (snd demo_effects) (0, queue_key (u ''fx'')) \<noteq> None" by code_simp+
  then show ?thesis using one_effect_at_a_time [OF _ demo_effects_run, of 0] by (auto split: option.splits)
qed

theorem queues_drain_witness: "\<exists>S. (fx_work (\<lambda>_. []))\<^sup>*\<^sup>* demo_effects ([], S) \<and> timers S = [] \<and> set (settled S) = {..<length (promises S)}"
  using queues_drain [OF demo_effects_run] unfolding prod.collapse by blast

end
