(* ===== verification/Spec2Isabelle.thy ===== *)
theory Spec2Isabelle
  imports Link Scripts Ready BoxSteps FxQueues
begin

text \<open>
  VILLASnode is a gateway for simulation data. Its server (C++) offers a node type that streams samples to
  browsers; the browser client under \<open>web/socket\<close> plots them and sends inputs back. This development models
  the JavaScript of the repository: the client, the library code it runs on (jQuery and jQuery UI as they lie
  in the repository), the example configuration scripts, and of the server the binary format at the other
  end of the client's socket.

  \<^bold>\<open>The parts and how they meet.\<close> The page starts with \<open>$(document).ready\<close>; the function it registers opens
  the remote-procedure socket and creates the sliders. When that socket opens, the client asks for the
  list of nodes, picks one and opens a data socket. Frames that arrive are vectors of binary messages; they
  are decoded, pruned to the time window and appended to the series of the plot, which a timer redraws.
  A slide of the input slider or a change of a checkbox encodes one message and sends it. The server prints
  and scans the same format.

  \<^bold>\<open>Numbers and bytes.\<close>
  \<^item> \<open>Prelude\<close>: outcomes of JavaScript computations (a value or a thrown error), byte buffers, shared lemmas.
  \<^item> \<open>JsNumber\<close>: binary64 numbers as exact rationals with rounding; \<open>Float32\<close>: binary32 patterns; \<open>JsDecimal\<close>:
    \<open>toFixed\<close> and the shortest decimal text of a number.

  \<^bold>\<open>The client.\<close>
  \<^item> \<open>Msg\<close> (\<open>web/socket/msg.js\<close>): constructor, encoder, decoder of one message and of a vector. The locale
    \<open>framed_writer\<close> says what a producer of frames owes the vector decoder; it is interpreted by the
    browser's own encoder and, in \<open>VillasBinary\<close>, by the server's printer.
  \<^item> \<open>VillasBinary\<close> (\<open>lib/formats/msg.cpp\<close>, \<open>lib/formats/villas_binary.cpp\<close>): \<open>sprint\<close> and \<open>sscan\<close> in both byte orders.
  \<^item> \<open>WebUtils\<close> (\<open>utils.js\<close>, \<open>wsUrl\<close>), \<open>Api\<close> (\<open>api.js\<close>): query parameter, identifiers, addresses, pending requests.
  \<^item> \<open>App\<close> (\<open>app.js\<close>): one record with the global variables and what the page shows, one definition per handler;
    \<open>AppRun\<close>: the step relation of the page in its browser and the reachable states.
  \<^item> \<open>Link\<close>: the client and the server's format together, from a slider to a sample of the server and from a sample to a
    point of the plot.
  \<^item> \<open>Scripts\<close> (\<open>file.js\<close>, \<open>etc/js/config.js\<close>, \<open>etc/js/global.js\<close>).

  \<^bold>\<open>The library under it\<close> (\<open>jquery/jquery-3.2.0.js\<close>, \<open>jquery-ui-1.12.1/jquery-ui.js\<close>).
  \<^item> \<open>JqCore\<close>: \<open>extend\<close>, iterators, type tests, the selection stack, texts.
  \<^item> \<open>Callbacks\<close>: callback lists as a machine with a stack of tasks, since a callback may change the lists
    while they fire; locale \<open>list_invariant\<close> for what every operation keeps, interpreted four times.
  \<^item> \<open>Deferred\<close> and \<open>Ready\<close> on top of it: \<open>then\<close>, settling, \<open>ready\<close> and \<open>holdReady\<close>.
  \<^item> \<open>DataStore\<close>: \<open>data\<close> with the attributes \<open>data-*\<close>; locale \<open>named_store\<close> for stores with names.
  \<^item> \<open>Classes\<close>: \<open>addClass\<close>, \<open>removeClass\<close>, \<open>toggleClass\<close>, \<open>hasClass\<close>.
  \<^item> \<open>Events\<close>: \<open>on\<close>, \<open>one\<close>, \<open>off\<close> and \<open>dispatch\<close>; \<open>Trigger\<close>: \<open>trigger\<close> and \<open>triggerHandler\<close> along the path of an event.
  \<^item> \<open>Queues\<close>: \<open>queue\<close>, \<open>dequeue\<close>, \<open>clearQueue\<close>, \<open>delay\<close> and \<open>promise\<close> as a machine with a stack of calls; \<open>FxQueues\<close>: the queues of
    effects under programs whose functions call \<open>next\<close>.
  \<^item> \<open>Widget\<close>: the widget factory; \<open>Mouse\<close> with its locale \<open>mouse_client\<close> for widgets that are dragged, and
    \<open>Slider\<close>, which interprets it.
  \<^item> \<open>Checkboxradio\<close>: the widget of checkboxes and radio buttons with the mixin that refreshes the widgets of a form after
    a reset; one record for the page, with the inputs, the classes, the handlers and the instances. \<open>BoxState\<close>: what each method
    does to the classes that show the state. \<open>BoxPage\<close>: the invariant of the page, with the locale \<open>box_method\<close> for
    methods of one instance, interpreted by \<open>refresh\<close>, the options and the focus handlers. \<open>BoxRun\<close>: the handlers and
    creation. \<open>BoxSteps\<close>: destruction, and the page as a step relation whose state has the pending timers of resets.

  \<^bold>\<open>What is shown.\<close> For the format: round trips of the browser's codec and of the server's, and that each end
  reads what the other writes, every value rounded once to single precision; exact timestamps; totality of the
  decoder on arbitrary bytes. For the client: what a frame does to the plot, an invariant of every reachable
  state, the outcome of a send in every state of the socket, the choice of the node, and the behaviours
  that differ from what the code means to do (inputs lost after a reconnection, a paused client that
  reconnects, sliders whose handlers see the previous value). For the remote procedures: no handler is
  called without a request, twice or for another response. For the library: order and exactly-once
  properties of callback lists, deferred objects, ready functions, queues and event handlers, that the queues of effects
  drain and promises for them are resolved, round trips of options,
  data and handlers, the sliders' values on their grid, the protocol of a drag, and that the labels and icons of checkboxes and
  radio buttons show their inputs at any time, after a reset as soon as its timer has run.

  \<^bold>\<open>Bounds and fuel.\<close> Loops of the sources are structural recursions or \<open>function\<close>s with a measure; the vector
  decoder needs no fuel since every message has at least 16 bytes. Only the machine of \<open>Callbacks\<close> is run
  for a number of steps, because callbacks may fire lists for ever; the theorems that say that something
  is called give the number of steps (three per callback and four more for a firing), and the invariants hold
  for every number. Numbers keep their widths: 16-bit lengths, 32-bit sequence numbers and times, 31 checkboxes.

  \<^bold>\<open>Not modelled.\<close> The rest of the server (nodes, hooks, paths, remote procedures, tools, clients of other
  simulators), which is C++ outside of the client's link; the plotting library, of which the client's
  calls are a parameter; of jQuery the selector engine, document manipulation, style, animations and requests,
  and of jQuery UI the other widgets: of these the client uses \<open>buttonset\<close> only, for its looks. The second
  copy of jQuery in \<open>external/jquery\<close> is loaded by no page. Thenables of other libraries, \<open>pipe\<close> and \<open>when\<close>, the
  prototype chain of widgets and exceptions of event handlers are left out. The layout that a browser
  computes, its clock and its random numbers are arguments of the definitions.
\<close>

section \<open>The classes of widgets on the page\<close>

lemma add_words_last: "add_words = fold add_last"
  by (simp add: add_words_def add_last_def [abs_def] fun_eq_iff)



end
